(* ===== verification/Prelude.thy ===== *)
theory Prelude
  imports Main "HOL-Library.AList" "HOL-Library.Multiset"
begin

text \<open>
  Shared vocabulary of the development: the collections of simplification facts that the
  component theories extend, and the generic facts about lists, association lists and
  maps that several components use. Nothing in this theory models a file of the
  repository.
\<close>

named_theorems model_defs \<open>definitions of small operations, unfolded together\<close>
named_theorems string_facts \<open>facts about the string operations of the standard library\<close>
named_theorems handler_defs \<open>definitions of event handlers, unfolded together\<close>

section \<open>Association lists as containers\<close>

text \<open>
  A \<^verbatim>\<open>std::unordered_map\<close> visits its elements in an unspecified order, each of them once.
  The model keeps the elements as an association list with distinct keys and takes the
  visiting order as a parameter that permutes the list.
\<close>

definition visits_all :: "(('k \<times> 'v) list \<Rightarrow> ('k \<times> 'v) list) \<Rightarrow> bool" where
  "visits_all iter \<longleftrightarrow> (\<forall>xs. mset (iter xs) = mset xs)"

lemma visits_all_id: "visits_all (\<lambda>xs. xs)"
  by (simp add: visits_all_def)

lemma visits_all_rev: "visits_all rev"
  by (simp add: visits_all_def)

lemma visits_all_mset [simp]: "visits_all iter \<Longrightarrow> mset (iter xs) = mset xs"
  by (simp add: visits_all_def)

lemma visits_all_set [simp]: "visits_all iter \<Longrightarrow> set (iter xs) = set xs"
  by (metis visits_all_mset set_mset_mset)

lemma visits_all_keys:
  assumes "visits_all iter"
  shows "mset (map fst (iter xs)) = mset (map fst xs)"
  using assms by simp

lemma visits_all_distinct [simp]:
  assumes "visits_all iter"
  shows "distinct (map fst (iter xs)) = distinct (map fst xs)"
  using visits_all_keys [OF assms] by (metis mset_eq_imp_distinct_iff)

lemma map_of_permuted:
  assumes "distinct (map fst xs)" and "mset ys = mset xs"
  shows "map_of ys = map_of xs"
proof -
  have "distinct (map fst ys)"
    using assms by (metis mset_eq_imp_distinct_iff mset_map)
  moreover have "set ys = set xs"
    using assms(2) by (metis set_mset_mset)
  ultimately show ?thesis
    using assms(1) map_of_inject_set by blast
qed

lemma map_of_visits_all [simp]:
  "visits_all iter \<Longrightarrow> distinct (map fst xs) \<Longrightarrow> map_of (iter xs) = map_of xs"
  by (rule map_of_permuted) simp_all

lemma map_of_rev_distinct:
  "distinct (map fst xs) \<Longrightarrow> map_of (rev xs) = map_of xs"
  by (rule map_of_permuted) simp_all

text \<open>Inserting the pairs of a list one after the other: the last pair of a key wins.\<close>

lemma map_of_fold_update:
  "map_of (fold (\<lambda>(k, v). AList.update k v) xs ys) = map_of ys ++ map_of (rev xs)"
proof (induction xs arbitrary: ys)
  case Nil
  then show ?case by simp
next
  case (Cons x xs)
  obtain k v where x: "x = (k, v)" by (cases x)
  show ?case
    by (simp add: x Cons.IH update_conv' fun_upd_def map_add_def fun_eq_iff split: option.splits)
qed

lemma distinct_fold_update:
  "distinct (map fst ys) \<Longrightarrow> distinct (map fst (fold (\<lambda>(k, v). AList.update k v) xs ys))"
  by (induction xs arbitrary: ys) (auto simp: distinct_update)

lemma map_of_fold_update_distinct:
  "distinct (map fst xs) \<Longrightarrow> map_of (fold (\<lambda>(k, v). AList.update k v) xs []) = map_of xs"
  by (simp add: map_of_fold_update map_of_rev_distinct)

lemma set_update_subset: "set (AList.update k v xs) \<subseteq> insert (k, v) (set xs)"
  by (induction xs) auto

lemma set_delete: "set (AList.delete k xs) = {x \<in> set xs. fst x \<noteq> k}"
  by (auto simp: AList.delete_eq)

section \<open>Lists\<close>

lemma takeWhile_append_stop:
  "x \<notin> set xs \<Longrightarrow> takeWhile (\<lambda>y. y \<noteq> x) (xs @ x # ys) = xs"
  by (induction xs) auto

lemma dropWhile_append_stop:
  "x \<notin> set xs \<Longrightarrow> dropWhile (\<lambda>y. y \<noteq> x) (xs @ x # ys) = x # ys"
  by (induction xs) auto

lemma takeWhile_no_stop: "x \<notin> set xs \<Longrightarrow> takeWhile (\<lambda>y. y \<noteq> x) xs = xs"
  by (induction xs) auto

lemma dropWhile_no_stop: "x \<notin> set xs \<Longrightarrow> dropWhile (\<lambda>y. y \<noteq> x) xs = []"
  by (induction xs) auto

lemma removeAll_filter: "removeAll x xs = filter (\<lambda>y. y \<noteq> x) xs"
  by (induction xs) auto

section \<open>Options\<close>

lemma case_option_If:
  "case_option n f (if b then x else y) = (if b then case_option n f x else case_option n f y)"
  by simp

section \<open>Arithmetic\<close>

lemma mod_neg_int:
  fixes v m :: int
  assumes "v < 0" and "- m \<le> v"
  shows "v mod m = v + m"
proof -
  have "(v + m) mod m = v + m"
    using assms by (intro mod_pos_pos_trivial) auto
  then show ?thesis by simp
qed

end
