(* ===== verification/Cxx_Strings.thy ===== *)
theory Cxx_Strings
  imports Prelude
begin

text \<open>
  The parts of the C and C++ standard library that the programs use on strings. A
  \<^verbatim>\<open>std::string\<close> is a \<^typ>\<open>string\<close> (a list of 8-bit characters, embedded zero bytes
  included); a failing operation is \<open>None\<close>.
\<close>

abbreviation NL :: char where "NL \<equiv> CHR 0x0A"
abbreviation CR :: char where "CR \<equiv> CHR 0x0D"
abbreviation NUL :: char where "NUL \<equiv> CHR 0x00"
abbreviation SPC :: char where "SPC \<equiv> CHR 0x20"

section \<open>Searching and cutting\<close>

text \<open>\<^verbatim>\<open>std::string::find(c)\<close>: the index of the first occurrence, \<open>None\<close> for \<^verbatim>\<open>npos\<close>.\<close>

primrec str_find :: "string \<Rightarrow> char \<Rightarrow> nat option" where
  "str_find [] c = None"
| "str_find (x # xs) c = (if x = c then Some 0 else map_option Suc (str_find xs c))"

text \<open>
  \<^verbatim>\<open>substr(pos, n)\<close> throws \<^verbatim>\<open>std::out_of_range\<close> when \<open>pos\<close> is past the end; the
  one-argument form takes everything from \<open>pos\<close> on.
\<close>

definition substr :: "string \<Rightarrow> nat \<Rightarrow> nat \<Rightarrow> string option" where
  "substr s pos n = (if length s < pos then None else Some (take n (drop pos s)))"

definition substr_from :: "string \<Rightarrow> nat \<Rightarrow> string option" where
  "substr_from s pos = (if length s < pos then None else Some (drop pos s))"

text \<open>A \<^verbatim>\<open>std::string\<close> built from a \<^verbatim>\<open>char *\<close> stops at the first zero byte.\<close>

definition c_string :: "string \<Rightarrow> string" where
  "c_string buf = takeWhile (\<lambda>c. c \<noteq> NUL) buf"

lemma str_find_None [string_facts]: "str_find s c = None \<longleftrightarrow> c \<notin> set s"
  by (induction s) auto

lemma str_find_append [string_facts]:
  "c \<notin> set a \<Longrightarrow> str_find (a @ c # b) c = Some (length a)"
  by (induction a) auto

lemma str_find_SomeD:
  assumes "str_find s c = Some i"
  shows "c \<notin> set (take i s)" and "s = take i s @ c # drop (Suc i) s" and "i < length s"
  using assms by (induction s arbitrary: i) (auto split: if_splits)

lemma str_find_Some_iff:
  "str_find s c = Some i \<longleftrightarrow> (\<exists>a b. s = a @ c # b \<and> c \<notin> set a \<and> i = length a)"
proof
  assume f: "str_find s c = Some i"
  show "\<exists>a b. s = a @ c # b \<and> c \<notin> set a \<and> i = length a"
    using str_find_SomeD [OF f] by (intro exI [of _ "take i s"] exI [of _ "drop (Suc i) s"]) simp
qed (auto simp: str_find_append)

text \<open>The tail after a delimiter that was found always exists: this \<^verbatim>\<open>substr\<close> never throws.\<close>

lemma substr_from_after_find [string_facts]:
  "str_find s c = Some i \<Longrightarrow> substr_from s (Suc i) = Some (drop (Suc i) s)"
  using str_find_SomeD(3) [of s c i] by (simp add: substr_from_def)

lemma substr_before_find [string_facts]: "substr s 0 n = Some (take n s)"
  by (simp add: substr_def)

lemma c_string_no_nul [string_facts]: "NUL \<notin> set s \<Longrightarrow> c_string s = s"
  by (simp add: c_string_def takeWhile_no_stop)

lemma c_string_append_nul [string_facts]:
  "NUL \<notin> set s \<Longrightarrow> c_string (s @ NUL # rest) = s"
  by (simp add: c_string_def takeWhile_append_stop)

lemma nul_notin_c_string: "NUL \<notin> set (c_string s)"
  unfolding c_string_def by (induction s) auto

section \<open>Reading lines\<close>

text \<open>
  One \<^verbatim>\<open>std::getline\<close>: \<open>None\<close> when it fails because no character is left (the loop test
  of \<^verbatim>\<open>while (std::getline(..))\<close>), otherwise the characters up to the newline, which is
  removed from the input, or up to the end of the input.
\<close>

definition getline :: "string \<Rightarrow> (string \<times> string) option" where
  "getline s =
     (if s = [] then None
      else Some (takeWhile (\<lambda>c. c \<noteq> NL) s, drop 1 (dropWhile (\<lambda>c. c \<noteq> NL) s)))"

lemma getline_shorter:
  assumes "getline s = Some (l, r)"
  shows "length r < length s"
proof -
  have "s \<noteq> []" and r: "r = drop 1 (dropWhile (\<lambda>c. c \<noteq> NL) s)"
    using assms by (auto simp: getline_def split: if_splits)
  moreover have "length (dropWhile (\<lambda>c. c \<noteq> NL) s) \<le> length s"
    by (rule length_dropWhile_le)
  ultimately show ?thesis
    by (cases "dropWhile (\<lambda>c. c \<noteq> NL) s") auto
qed

text \<open>All lines of an input, as the loop \<^verbatim>\<open>while (std::getline(file, line))\<close> sees them.\<close>

function read_lines :: "string \<Rightarrow> string list" where
  "read_lines s = (case getline s of None \<Rightarrow> [] | Some (l, r) \<Rightarrow> l # read_lines r)"
  by pat_completeness auto
termination
  by (relation "measure length") (auto intro: getline_shorter)

declare read_lines.simps [simp del]

lemma read_lines_Nil [simp]: "read_lines [] = []"
  by (simp add: read_lines.simps getline_def)

lemma read_lines_line [simp]:
  "NL \<notin> set l \<Longrightarrow> read_lines (l @ NL # rest) = l # read_lines rest"
  by (subst read_lines.simps) (simp add: getline_def takeWhile_append_stop dropWhile_append_stop)

lemma read_lines_last:
  "l \<noteq> [] \<Longrightarrow> NL \<notin> set l \<Longrightarrow> read_lines l = [l]"
  by (subst read_lines.simps) (simp add: getline_def takeWhile_no_stop dropWhile_no_stop)

text \<open>Writing every line with its newline and reading the lines back is the identity.\<close>

lemma read_lines_concat:
  "\<forall>l \<in> set ls. NL \<notin> set l \<Longrightarrow> read_lines (concat (map (\<lambda>l. l @ [NL]) ls)) = ls"
  by (induction ls) auto

lemma NL_notin_read_lines: "l \<in> set (read_lines s) \<Longrightarrow> NL \<notin> set l"
proof (induction s rule: read_lines.induct)
  case (1 s)
  show ?case
  proof (cases "getline s")
    case None
    with "1.prems" show ?thesis by (simp add: read_lines.simps [of s])
  next
    case (Some lr)
    then obtain l' r where lr: "getline s = Some (l', r)" by (cases lr) auto
    then have "NL \<notin> set l'"
      by (auto simp: getline_def dest: set_takeWhileD split: if_splits)
    moreover have "l = l' \<or> l \<in> set (read_lines r)"
      using "1.prems" lr by (simp add: read_lines.simps [of s])
    ultimately show ?thesis using "1.IH" lr by auto
  qed
qed

section \<open>White space and tokens\<close>

text \<open>\<^verbatim>\<open>isspace\<close> in the C locale: blank, tab, newline, vertical tab, form feed, return.\<close>

definition is_space :: "char \<Rightarrow> bool" where
  "is_space c \<longleftrightarrow> c \<in> {CHR 0x20, CHR 0x09, CHR 0x0A, CHR 0x0B, CHR 0x0C, CHR 0x0D}"

text \<open>
  \<^verbatim>\<open>stream >> word\<close> for a fresh string: white space is skipped, then the characters up to
  the next white space are taken; at the end of the input the string stays empty.
\<close>

definition next_token :: "string \<Rightarrow> string \<times> string" where
  "next_token s =
     (let s' = dropWhile is_space s
      in (takeWhile (\<lambda>c. \<not> is_space c) s', dropWhile (\<lambda>c. \<not> is_space c) s'))"

lemma next_token_word:
  assumes "w \<noteq> []" and "\<forall>c \<in> set w. \<not> is_space c" and "is_space b"
  shows "next_token (w @ b # rest) = (w, b # rest)"
proof -
  have "dropWhile is_space (w @ b # rest) = w @ b # rest"
    using assms(1,2) by (cases w) auto
  then show ?thesis
    using assms(2,3) by (simp add: next_token_def takeWhile_append2 dropWhile_append2)
qed

lemma next_token_space: "is_space b \<Longrightarrow> next_token (b # s) = next_token s"
  by (simp add: next_token_def)

lemma next_token_no_space: "c \<in> set (fst (next_token s)) \<Longrightarrow> \<not> is_space c"
  by (auto simp: next_token_def Let_def dest: set_takeWhileD)

section \<open>Decimal numbers\<close>

definition digit_char :: "nat \<Rightarrow> char" where
  "digit_char d = char_of (48 + d)"

definition is_digit :: "char \<Rightarrow> bool" where
  "is_digit c \<longleftrightarrow> 48 \<le> (of_char c :: nat) \<and> (of_char c :: nat) \<le> 57"

text \<open>\<^verbatim>\<open>std::to_string\<close> of an unsigned number, and \<^verbatim>\<open>%d\<close> of a non-negative one.\<close>

fun dec :: "nat \<Rightarrow> string" where
  "dec n = (if n < 10 then [digit_char n] else dec (n div 10) @ [digit_char (n mod 10)])"

declare dec.simps [simp del]

definition decimal :: "int \<Rightarrow> string" where
  "decimal i = (if i < 0 then CHR ''-'' # dec (nat (- i)) else dec (nat i))"

text \<open>The value of a digit string, most significant digit first.\<close>

fun dec_value :: "nat \<Rightarrow> string \<Rightarrow> nat" where
  "dec_value acc [] = acc"
| "dec_value acc (c # cs) = dec_value (10 * acc + (of_char c - 48)) cs"

text \<open>
  \<^verbatim>\<open>atoi\<close>: white space, an optional sign, digits; the rest is ignored. (The C function is
  undefined when the value does not fit an \<^verbatim>\<open>int\<close>; no caller passes more than four characters.)
\<close>

definition atoi :: "string \<Rightarrow> int" where
  "atoi s =
     (case dropWhile is_space s of
        [] \<Rightarrow> 0
      | c # cs \<Rightarrow>
          if c = CHR ''-'' then - int (dec_value 0 (takeWhile is_digit cs))
          else if c = CHR ''+'' then int (dec_value 0 (takeWhile is_digit cs))
          else int (dec_value 0 (takeWhile is_digit (c # cs))))"

lemma of_char_digit [simp]: "d < 10 \<Longrightarrow> (of_char (digit_char d) :: nat) = 48 + d"
  by (simp add: digit_char_def of_char_of)

lemma is_digit_digit_char [simp]: "d < 10 \<Longrightarrow> is_digit (digit_char d)"
  by (simp add: is_digit_def)

lemma dec_nonempty [simp]: "dec n \<noteq> []"
  by (subst dec.simps) simp

lemma dec_digits: "c \<in> set (dec n) \<Longrightarrow> is_digit c"
proof (induction n rule: dec.induct)
  case (1 n)
  then show ?case
    by (cases "n < 10") (auto simp: dec.simps [of n])
qed

lemma dec_value_append: "dec_value acc (xs @ [c]) = 10 * dec_value acc xs + (of_char c - 48)"
  by (induction xs arbitrary: acc) auto

lemma dec_value_dec [simp]: "dec_value 0 (dec n) = n"
proof (induction n rule: dec.induct)
  case (1 n)
  then show ?case
    by (cases "n < 10") (simp_all add: dec.simps [of n] dec_value_append)
qed

lemma length_dec_le:
  assumes "n < 10 ^ k" and "0 < k"
  shows "length (dec n) \<le> k"
  using assms
proof (induction k arbitrary: n)
  case 0
  then show ?case by simp
next
  case (Suc k)
  show ?case
  proof (cases "n < 10")
    case True
    then show ?thesis by (simp add: dec.simps [of n])
  next
    case False
    with Suc.prems have "0 < k" by (cases k) auto
    moreover have "n div 10 < 10 ^ k" using Suc.prems by auto
    ultimately have "length (dec (n div 10)) \<le> k" by (intro Suc.IH)
    with False show ?thesis by (simp add: dec.simps [of n])
  qed
qed

lemma is_digit_not_space: "is_digit c \<Longrightarrow> \<not> is_space c"
  by (auto simp: is_digit_def is_space_def)

lemma is_digit_not_sign: "is_digit c \<Longrightarrow> c \<noteq> CHR ''-'' \<and> c \<noteq> CHR ''+'' \<and> c \<noteq> NUL \<and> c \<noteq> NL"
  by (auto simp: is_digit_def)

lemma takeWhile_digits: "(\<forall>c \<in> set ds. is_digit c) \<Longrightarrow> takeWhile is_digit ds = ds"
  by (simp add: takeWhile_eq_all_conv)

text \<open>Reading a padded number back gives the number.\<close>

lemma atoi_dec_padded: "atoi (replicate k SPC @ dec n) = int n"
proof -
  have pad: "dropWhile is_space (replicate k SPC @ dec n) = dropWhile is_space (dec n)"
    by (rule dropWhile_append2) (auto simp: is_space_def)
  obtain c cs where d: "dec n = c # cs"
    using dec_nonempty [of n] by (cases "dec n") auto
  have digs: "\<forall>x \<in> set (c # cs). is_digit x"
    using dec_digits [of _ n] d by auto
  then have c: "is_digit c" by simp
  have "dropWhile is_space (dec n) = c # cs"
    using c by (simp add: d is_digit_not_space)
  moreover have "takeWhile is_digit (c # cs) = c # cs"
    using digs by (rule takeWhile_digits)
  moreover have "dec_value 0 (c # cs) = n"
    using dec_value_dec [of n] d by simp
  ultimately show ?thesis
    using is_digit_not_sign [OF c] by (simp add: atoi_def pad)
qed

lemma atoi_dec: "atoi (dec n) = int n"
  using atoi_dec_padded [of 0 n] by simp

text \<open>The value of a short digit string is small, so a four-character header is above -1000.\<close>

lemma dec_value_bound:
  "\<forall>c \<in> set ds. is_digit c \<Longrightarrow> dec_value acc ds < (acc + 1) * 10 ^ length ds"
proof (induction ds arbitrary: acc)
  case Nil
  then show ?case by simp
next
  case (Cons c ds)
  have "(of_char c :: nat) - 48 \<le> 9"
    using Cons.prems by (auto simp: is_digit_def)
  then have "10 * acc + (of_char c - 48) + 1 \<le> (acc + 1) * (10 :: nat)"
    by simp
  then have "(10 * acc + (of_char c - 48) + 1) * 10 ^ length ds \<le> (acc + 1) * 10 * 10 ^ length ds"
    by (rule mult_le_mono1)
  moreover have "dec_value acc (c # ds) < (10 * acc + (of_char c - 48) + 1) * 10 ^ length ds"
    using Cons.IH [of "10 * acc + (of_char c - 48)"] Cons.prems by simp
  ultimately have "dec_value acc (c # ds) < (acc + 1) * 10 * 10 ^ length ds"
    by (rule less_le_trans [rotated])
  then show ?case
    by (simp only: list.size add_0_right add_Suc_right power_Suc mult.assoc)
qed

lemma atoi_lower_bound:
  assumes "length s \<le> 4"
  shows "- 1000 < atoi s"
proof (cases "dropWhile is_space s")
  case Nil
  show ?thesis by (simp only: atoi_def Nil list.case)
next
  case (Cons c cs)
  let ?ds = "takeWhile is_digit cs"
  have "length (dropWhile is_space s) \<le> length s"
    by (rule length_dropWhile_le)
  then have "length cs \<le> 3"
    using assms Cons by simp
  then have l: "length ?ds \<le> 3"
    using length_takeWhile_le [of is_digit cs] by linarith
  have "dec_value 0 ?ds < 10 ^ length ?ds"
    using dec_value_bound [of ?ds 0] by (auto dest: set_takeWhileD)
  also have "\<dots> \<le> (10 :: nat) ^ 3"
    using l by (intro power_increasing) simp_all
  finally have "dec_value 0 ?ds < 1000" by simp
  then show ?thesis by (simp add: atoi_def Cons)
qed

section \<open>Integer conversions and fixed buffers\<close>

text \<open>
  The implicit conversions of a 64-bit platform: to \<^verbatim>\<open>int\<close> (32 bits, two's complement)
  and to \<^verbatim>\<open>size_t\<close> (64 bits, unsigned).
\<close>

definition to_int32 :: "int \<Rightarrow> int" where
  "to_int32 i = (let r = i mod 2 ^ 32 in if r < 2 ^ 31 then r else r - 2 ^ 32)"

definition to_size :: "int \<Rightarrow> nat" where
  "to_size i = nat (i mod 2 ^ 64)"

lemma to_int32_small [simp]: "0 \<le> i \<Longrightarrow> i < 2 ^ 31 \<Longrightarrow> to_int32 i = i"
  by (simp add: to_int32_def)

lemma to_int32_negative [simp]:
  assumes "i < 0" and "- (2 ^ 31) \<le> i"
  shows "to_int32 i = i"
proof -
  have "i mod 2 ^ 32 = i + 2 ^ 32"
    using assms by (intro mod_neg_int) auto
  then show ?thesis
    using assms by (simp add: to_int32_def)
qed

lemma to_int32_size [simp]: "to_int32 (i + 2 ^ 64) = to_int32 i"
proof -
  have "(2 :: int) ^ 64 = 2 ^ 32 * 2 ^ 32"
    by simp
  then have "(i + 2 ^ 64) mod 2 ^ 32 = i mod (2 ^ 32 :: int)"
    by (simp only: mod_mult_self2)
  then show ?thesis
    by (simp add: to_int32_def)
qed

lemma to_size_small: "0 \<le> i \<Longrightarrow> i < 2 ^ 64 \<Longrightarrow> to_size i = nat i"
  by (simp add: to_size_def)

text \<open>
  \<^verbatim>\<open>memcpy\<close> into an array at an offset: \<open>None\<close> when it would write past the end.
\<close>

definition write_at :: "string \<Rightarrow> nat \<Rightarrow> string \<Rightarrow> string option" where
  "write_at buf pos bs =
     (if pos + length bs \<le> length buf
      then Some (take pos buf @ bs @ drop (pos + length bs) buf) else None)"

lemma length_write_at: "write_at buf pos bs = Some buf' \<Longrightarrow> length buf' = length buf"
  by (auto simp: write_at_def split: if_splits)

end
