(* ===== verification/KV_Interface.thy ===== *)
theory KV_Interface
  imports Cxx_Strings
begin

text \<open>
  The interface of the key-value store (\<^verbatim>\<open>simple-kv-cpp/include/kv/\<close>): the abstract
  class \<^verbatim>\<open>IStorageEngine\<close> as a table of operations, the class \<^verbatim>\<open>KeyValueStore\<close> that
  delegates to the engine it owns, the abstract map that both promise, and the locale
  \<^verbatim>\<open>storage_engine\<close> with the laws of an engine, inside which the refinement of the abstract
  map by \<^verbatim>\<open>KeyValueStore\<close> is proved once for every engine.
\<close>

section \<open>The abstract map\<close>

text \<open>
  What the documentation of \<^verbatim>\<open>IKeyValueStore\<close> promises: an empty key is rejected by
  \<^verbatim>\<open>put\<close> and never found; \<^verbatim>\<open>put\<close> replaces; \<^verbatim>\<open>remove\<close> says whether the key was there.
\<close>

datatype kv_op = Put string string | Get string | Remove string

datatype kv_result = Done bool | Value "string option"

fun spec_step :: "(string \<rightharpoonup> string) \<Rightarrow> kv_op \<Rightarrow> kv_result \<times> (string \<rightharpoonup> string)" where
  "spec_step m (Put k v) = (if k = [] then (Done False, m) else (Done True, m(k \<mapsto> v)))"
| "spec_step m (Get k) = (Value (if k = [] then None else m k), m)"
| "spec_step m (Remove k) =
     (if k = [] then (Done False, m) else (Done (m k \<noteq> None), m(k := None)))"

fun spec_run :: "(string \<rightharpoonup> string) \<Rightarrow> kv_op list \<Rightarrow> kv_result list \<times> (string \<rightharpoonup> string)" where
  "spec_run m [] = ([], m)"
| "spec_run m (x # xs) =
     (let (r, m') = spec_step m x; (rs, m'') = spec_run m' xs in (r # rs, m''))"

section \<open>IStorageEngine\<close>

text \<open>
  The virtual functions of \<^verbatim>\<open>IStorageEngine\<close>. An operation takes the engine's state and
  returns the result and the new state; \<^verbatim>\<open>read\<close> returns a state too because the
  in-memory engine logs to \<^verbatim>\<open>std::cout\<close> even in its \<^verbatim>\<open>const\<close> member.
\<close>

record 's engine_vtable =
  vt_write :: "'s \<Rightarrow> string \<Rightarrow> string \<Rightarrow> bool \<times> 's"
  vt_read :: "'s \<Rightarrow> string \<Rightarrow> string option \<times> 's"
  vt_erase :: "'s \<Rightarrow> string \<Rightarrow> bool \<times> 's"

section \<open>KeyValueStore\<close>

record 's key_value_store =
  kvs_vtable :: "'s engine_vtable"
  kvs_engine :: 's

datatype kv_error = Invalid_argument

text \<open>
  The constructor takes the \<^verbatim>\<open>std::unique_ptr\<close>: \<open>None\<close> is the null pointer, which it
  refuses with \<^verbatim>\<open>std::invalid_argument\<close>.
\<close>

definition kvs_new :: "('s engine_vtable \<times> 's) option \<Rightarrow> kv_error + 's key_value_store" where
  "kvs_new engine =
     (case engine of
        None \<Rightarrow> Inl Invalid_argument
      | Some (vt, e) \<Rightarrow> Inr \<lparr>kvs_vtable = vt, kvs_engine = e\<rparr>)"

definition kvs_put ::
  "'s key_value_store \<Rightarrow> string \<Rightarrow> string \<Rightarrow> bool \<times> 's key_value_store" where
  "kvs_put st k v =
     (let (b, e) = vt_write (kvs_vtable st) (kvs_engine st) k v in (b, st\<lparr>kvs_engine := e\<rparr>))"

definition kvs_get ::
  "'s key_value_store \<Rightarrow> string \<Rightarrow> string option \<times> 's key_value_store" where
  "kvs_get st k =
     (let (r, e) = vt_read (kvs_vtable st) (kvs_engine st) k in (r, st\<lparr>kvs_engine := e\<rparr>))"

definition kvs_remove :: "'s key_value_store \<Rightarrow> string \<Rightarrow> bool \<times> 's key_value_store" where
  "kvs_remove st k =
     (let (b, e) = vt_erase (kvs_vtable st) (kvs_engine st) k in (b, st\<lparr>kvs_engine := e\<rparr>))"

text \<open>A client: one call of the public interface, and a sequence of calls.\<close>

fun kvs_step :: "'s key_value_store \<Rightarrow> kv_op \<Rightarrow> kv_result \<times> 's key_value_store" where
  "kvs_step st (Put k v) = (let (b, st') = kvs_put st k v in (Done b, st'))"
| "kvs_step st (Get k) = (let (r, st') = kvs_get st k in (Value r, st'))"
| "kvs_step st (Remove k) = (let (b, st') = kvs_remove st k in (Done b, st'))"

fun kvs_run :: "'s key_value_store \<Rightarrow> kv_op list \<Rightarrow> kv_result list \<times> 's key_value_store" where
  "kvs_run st [] = ([], st)"
| "kvs_run st (x # xs) =
     (let (r, st') = kvs_step st x; (rs, st'') = kvs_run st' xs in (r # rs, st''))"

lemmas kvs_defs = kvs_put_def kvs_get_def kvs_remove_def

lemma kvs_step_vt [simp]: "kvs_vtable (snd (kvs_step st x)) = kvs_vtable st"
  by (cases x) (simp_all add: kvs_defs split: prod.splits)

lemma spec_step_empty_key [simp]: "fst (spec_step m (Get [])) = Value None"
  by simp

section \<open>The laws of an engine\<close>

text \<open>
  \<open>contents\<close> is the map a client can see, \<open>inv\<close> the engine's representation
  invariant. The laws are those of the comments in \<^verbatim>\<open>storage_engine.h\<close>.
\<close>

locale storage_engine =
  fixes vt :: "'s engine_vtable"
    and contents :: "'s \<Rightarrow> (string \<rightharpoonup> string)"
    and inv :: "'s \<Rightarrow> bool"
  assumes write_result: "inv s \<Longrightarrow> fst (vt_write vt s k v) = (k \<noteq> [])"
    and write_contents:
      "inv s \<Longrightarrow> contents (snd (vt_write vt s k v)) = (if k = [] then contents s else (contents s)(k \<mapsto> v))"
    and read_result: "inv s \<Longrightarrow> fst (vt_read vt s k) = (if k = [] then None else contents s k)"
    and read_contents: "inv s \<Longrightarrow> contents (snd (vt_read vt s k)) = contents s"
    and erase_result: "inv s \<Longrightarrow> fst (vt_erase vt s k) = (k \<noteq> [] \<and> contents s k \<noteq> None)"
    and erase_contents:
      "inv s \<Longrightarrow> contents (snd (vt_erase vt s k)) = (if k = [] then contents s else (contents s)(k := None))"
    and write_inv: "inv s \<Longrightarrow> inv (snd (vt_write vt s k v))"
    and read_inv: "inv s \<Longrightarrow> inv (snd (vt_read vt s k))"
    and erase_inv: "inv s \<Longrightarrow> inv (snd (vt_erase vt s k))"
begin

lemmas engine_laws = write_result write_contents read_result read_contents
  erase_result erase_contents write_inv read_inv erase_inv

text \<open>A store over this engine, and the abstract map it stands for.\<close>

lemma step_refines:
  assumes "kvs_vtable st = vt" and "inv (kvs_engine st)"
  shows "fst (kvs_step st x) = fst (spec_step (contents (kvs_engine st)) x)"
    and "contents (kvs_engine (snd (kvs_step st x))) = snd (spec_step (contents (kvs_engine st)) x)"
    and "inv (kvs_engine (snd (kvs_step st x)))"
  using assms engine_laws [of "kvs_engine st"]
  by (cases x; simp add: kvs_defs split_beta Let_def)+

lemma run_refines:
  assumes "kvs_vtable st = vt" and "inv (kvs_engine st)"
  shows "fst (kvs_run st xs) = fst (spec_run (contents (kvs_engine st)) xs)
       \<and> contents (kvs_engine (snd (kvs_run st xs))) = snd (spec_run (contents (kvs_engine st)) xs)
       \<and> inv (kvs_engine (snd (kvs_run st xs)))
       \<and> kvs_vtable (snd (kvs_run st xs)) = vt"
  using assms
proof (induction xs arbitrary: st)
  case Nil
  then show ?case by simp
next
  case (Cons x xs)
  let ?st = "snd (kvs_step st x)"
  have st: "kvs_vtable ?st = vt" "inv (kvs_engine ?st)"
    using Cons.prems step_refines(3) by simp_all
  note step = step_refines(1,2) [OF Cons.prems, of x]
  show ?case
    using Cons.IH [OF st] step by (simp add: split_beta Let_def)
qed

text \<open>A key that was stored is read back until it is stored again or removed.\<close>

lemma get_after_put:
  assumes "kvs_vtable st = vt" and "inv (kvs_engine st)" and "k \<noteq> []"
  shows "fst (kvs_get (snd (kvs_put st k v)) k) = Some v"
  using assms engine_laws [of "kvs_engine st"]
    read_result [OF write_inv, of "kvs_engine st" k v k]
  by (simp add: kvs_defs split_beta Let_def)

end

text \<open>Two engines that start with the same visible map cannot be told apart.\<close>

locale two_engines =
  a: storage_engine vta contents_a inv_a + b: storage_engine vtb contents_b inv_b
  for vta :: "'a engine_vtable" and contents_a :: "'a \<Rightarrow> (string \<rightharpoonup> string)" and inv_a :: "'a \<Rightarrow> bool"
    and vtb :: "'b engine_vtable" and contents_b :: "'b \<Rightarrow> (string \<rightharpoonup> string)" and inv_b :: "'b \<Rightarrow> bool"
begin

lemma same_results:
  assumes "kvs_vtable sa = vta" and "inv_a (kvs_engine sa)"
    and "kvs_vtable sb = vtb" and "inv_b (kvs_engine sb)"
    and "contents_a (kvs_engine sa) = contents_b (kvs_engine sb)"
  shows "fst (kvs_run sa xs) = fst (kvs_run sb xs)"
    and "contents_a (kvs_engine (snd (kvs_run sa xs))) = contents_b (kvs_engine (snd (kvs_run sb xs)))"
  using a.run_refines [OF assms(1,2), of xs] b.run_refines [OF assms(3,4), of xs] assms(5)
  by simp_all

end

end
