(* ===== verification/KV_InMemory.thy ===== *)
theory KV_InMemory
  imports KV_Interface
begin

text \<open>
  \<^verbatim>\<open>InMemoryStorageEngine\<close> (\<^verbatim>\<open>simple-kv-cpp/src/in_memory_kv_store.cpp\<close>) and the
  \<^verbatim>\<open>ScopeLogger\<close> (\<^verbatim>\<open>include/utils/scope_logger.h\<close>) its operations create. The state is
  the engine's \<^verbatim>\<open>store_\<close> and the lines written to \<^verbatim>\<open>std::cout\<close>.
\<close>

section \<open>ScopeLogger\<close>

text \<open>The lines of the constructor and of the destructor.\<close>

definition scope_enter :: "string \<Rightarrow> string" where
  "scope_enter scope = ''[ENTER] '' @ scope"

definition scope_exit :: "string \<Rightarrow> string" where
  "scope_exit scope = ''[EXIT ] '' @ scope"

section \<open>The engine\<close>

record memory_engine =
  me_store :: "(string \<times> string) list"
  me_cout :: "string list"

text \<open>
  The local \<^verbatim>\<open>ScopeLogger log(..)\<close>: the entry line first, the exit line when the scope is
  left, on every return.
\<close>

definition with_scope ::
  "string \<Rightarrow> (memory_engine \<Rightarrow> 'r \<times> memory_engine) \<Rightarrow> memory_engine \<Rightarrow> 'r \<times> memory_engine" where
  "with_scope scope body e =
     (let (r, e') = body (e\<lparr>me_cout := me_cout e @ [scope_enter scope]\<rparr>)
      in (r, e'\<lparr>me_cout := me_cout e' @ [scope_exit scope]\<rparr>))"

definition mem_new :: memory_engine where
  "mem_new = \<lparr>me_store = [], me_cout = []\<rparr>"

definition mem_write :: "memory_engine \<Rightarrow> string \<Rightarrow> string \<Rightarrow> bool \<times> memory_engine" where
  "mem_write e key value =
     with_scope ''InMemoryStorageEngine::write''
       (\<lambda>e. if key = [] then (False, e)
            else (True, e\<lparr>me_store := AList.update key value (me_store e)\<rparr>)) e"

definition mem_read :: "memory_engine \<Rightarrow> string \<Rightarrow> string option \<times> memory_engine" where
  "mem_read e key =
     with_scope ''InMemoryStorageEngine::read''
       (\<lambda>e. if key = [] then (None, e)
            else (case map_of (me_store e) key of
                    None \<Rightarrow> (None, e)
                  | Some v \<Rightarrow> (Some v, e))) e"

text \<open>\<^verbatim>\<open>store_.erase(key) > 0\<close>: whether an element was removed.\<close>

definition mem_erase :: "memory_engine \<Rightarrow> string \<Rightarrow> bool \<times> memory_engine" where
  "mem_erase e key =
     with_scope ''InMemoryStorageEngine::erase''
       (\<lambda>e. if key = [] then (False, e)
            else (map_of (me_store e) key \<noteq> None,
                  e\<lparr>me_store := AList.delete key (me_store e)\<rparr>)) e"

definition memory_vtable :: "memory_engine engine_vtable" where
  "memory_vtable = \<lparr>vt_write = mem_write, vt_read = mem_read, vt_erase = mem_erase\<rparr>"

lemmas mem_defs = mem_write_def mem_read_def mem_erase_def with_scope_def

section \<open>Invariant and contents\<close>

text \<open>The elements of an \<^verbatim>\<open>unordered_map\<close> have distinct keys; the engine never stores the empty key.\<close>

definition mem_inv :: "memory_engine \<Rightarrow> bool" where
  "mem_inv e \<longleftrightarrow> distinct (map fst (me_store e)) \<and> [] \<notin> fst ` set (me_store e)"

definition mem_contents :: "memory_engine \<Rightarrow> (string \<rightharpoonup> string)" where
  "mem_contents e = map_of (me_store e)"

lemma mem_new_inv: "mem_inv mem_new" and mem_new_contents: "mem_contents mem_new = Map.empty"
  by (simp_all add: mem_inv_def mem_contents_def mem_new_def)

lemma mem_write_inv: "mem_inv e \<Longrightarrow> mem_inv (snd (mem_write e k v))"
  by (auto simp: mem_inv_def mem_defs distinct_update dom_update)

lemma mem_read_store [simp]: "me_store (snd (mem_read e k)) = me_store e"
  by (simp add: mem_defs split: option.splits)

lemma mem_erase_inv: "mem_inv e \<Longrightarrow> mem_inv (snd (mem_erase e k))"
  by (auto simp: mem_inv_def mem_defs distinct_delete set_delete)

interpretation mem: storage_engine memory_vtable mem_contents mem_inv
proof
  fix e :: memory_engine and k v :: string
  assume inv: "mem_inv e"
  show "fst (vt_write memory_vtable e k v) = (k \<noteq> [])"
    by (simp add: memory_vtable_def mem_defs)
  show "mem_contents (snd (vt_write memory_vtable e k v)) =
      (if k = [] then mem_contents e else (mem_contents e)(k \<mapsto> v))"
    by (simp add: memory_vtable_def mem_defs mem_contents_def update_conv')
  show "fst (vt_read memory_vtable e k) = (if k = [] then None else mem_contents e k)"
    by (simp add: memory_vtable_def mem_defs mem_contents_def split: option.splits)
  show "mem_contents (snd (vt_read memory_vtable e k)) = mem_contents e"
    by (simp add: memory_vtable_def mem_contents_def)
  show "fst (vt_erase memory_vtable e k) = (k \<noteq> [] \<and> mem_contents e k \<noteq> None)"
    by (simp add: memory_vtable_def mem_defs mem_contents_def)
  show "mem_contents (snd (vt_erase memory_vtable e k)) =
      (if k = [] then mem_contents e else (mem_contents e)(k := None))"
    by (simp add: memory_vtable_def mem_defs mem_contents_def delete_conv')
  show "mem_inv (snd (vt_write memory_vtable e k v))"
    using inv by (simp add: memory_vtable_def mem_write_inv)
  show "mem_inv (snd (vt_read memory_vtable e k))"
    using inv by (simp add: memory_vtable_def mem_inv_def)
  show "mem_inv (snd (vt_erase memory_vtable e k))"
    using inv by (simp add: memory_vtable_def mem_erase_inv)
qed

section \<open>Logging\<close>

text \<open>Each operation writes one balanced pair of lines, on the early returns too.\<close>

definition scope_pair :: "string \<Rightarrow> string list" where
  "scope_pair scope = [scope_enter scope, scope_exit scope]"

lemma mem_write_log:
  "me_cout (snd (mem_write e k v)) = me_cout e @ scope_pair ''InMemoryStorageEngine::write''"
  by (simp add: mem_defs scope_pair_def)

lemma mem_read_log:
  "me_cout (snd (mem_read e k)) = me_cout e @ scope_pair ''InMemoryStorageEngine::read''"
  by (simp add: mem_defs scope_pair_def split: option.splits)

lemma mem_erase_log:
  "me_cout (snd (mem_erase e k)) = me_cout e @ scope_pair ''InMemoryStorageEngine::erase''"
  by (simp add: mem_defs scope_pair_def)

fun op_log :: "kv_op \<Rightarrow> string list" where
  "op_log (Put k v) = scope_pair ''InMemoryStorageEngine::write''"
| "op_log (Get k) = scope_pair ''InMemoryStorageEngine::read''"
| "op_log (Remove k) = scope_pair ''InMemoryStorageEngine::erase''"

lemma mem_step_log:
  assumes "kvs_vtable st = memory_vtable"
  shows "me_cout (kvs_engine (snd (kvs_step st x))) = me_cout (kvs_engine st) @ op_log x"
  using assms
  by (cases x)
    (simp_all add: kvs_defs memory_vtable_def split_beta Let_def mem_write_log mem_read_log mem_erase_log)

lemma mem_run_log:
  "kvs_vtable st = memory_vtable \<Longrightarrow>
     me_cout (kvs_engine (snd (kvs_run st xs))) = me_cout (kvs_engine st) @ concat (map op_log xs)"
proof (induction xs arbitrary: st)
  case Nil
  then show ?case by simp
next
  case (Cons x xs)
  then show ?case
    by (simp add: split_beta Let_def mem_step_log)
qed

end
