(* ===== verification/KV_File.thy ===== *)
theory KV_File
  imports KV_Interface
begin

text \<open>
  \<^verbatim>\<open>FileBasedStorageEngine\<close> (\<^verbatim>\<open>simple-kv-cpp/src/file_based_kv_store.cpp\<close>): the text
  format, the loading constructor, the operations, and what survives a restart. The
  state is the object's \<^verbatim>\<open>store_\<close>, the file at its \<^verbatim>\<open>file_path_\<close> and the lines
  written to \<^verbatim>\<open>std::cerr\<close>. The order in which \<^verbatim>\<open>saveToFile\<close> visits the
  \<^verbatim>\<open>unordered_map\<close> is the parameter \<open>iter\<close>.
\<close>

section \<open>The file\<close>

text \<open>
  The file at \<^verbatim>\<open>file_path_\<close>: its path, its bytes (\<open>None\<close> when it does not exist) and
  whether the process may open it for reading and for writing.
\<close>

record disk_file =
  file_path :: string
  bytes :: "string option"
  readable :: bool
  writable :: bool

text \<open>\<^verbatim>\<open>std::ifstream\<close> opens an existing readable file.\<close>

definition open_read :: "disk_file \<Rightarrow> string option" where
  "open_read d = (if readable d then bytes d else None)"

text \<open>\<^verbatim>\<open>std::ofstream\<close> truncates or creates the file; what is then written is its new content.\<close>

definition open_write :: "disk_file \<Rightarrow> string \<Rightarrow> disk_file option" where
  "open_write d text = (if writable d then Some (d\<lparr>bytes := Some text\<rparr>) else None)"

text \<open>A path is printed in quotes, with the quotes and backslashes in it escaped.\<close>

definition quoted :: "string \<Rightarrow> string" where
  "quoted path =
     CHR 0x22 # concat (map (\<lambda>c. if c = CHR 0x22 \<or> c = CHR 0x5C then [CHR 0x5C, c] else [c]) path) @ [CHR 0x22]"

section \<open>The engine\<close>

record file_engine =
  fe_store :: "(string \<times> string) list"
  fe_disk :: disk_file
  fe_cerr :: "string list"

text \<open>One line of the file: the key ends at the first \<^verbatim>\<open>=\<close>; a line without one is skipped.\<close>

definition load_line :: "string \<Rightarrow> (string \<times> string) list \<Rightarrow> (string \<times> string) list" where
  "load_line line store =
     (case str_find line CHR ''='' of
        None \<Rightarrow> store
      | Some pos \<Rightarrow>
          (case (substr line 0 pos, substr_from line (pos + 1)) of
             (Some key, Some value) \<Rightarrow> AList.update key value store
           | _ \<Rightarrow> store))"

definition loadFromFile :: "file_engine \<Rightarrow> file_engine" where
  "loadFromFile e =
     (case open_read (fe_disk e) of
        None \<Rightarrow> e\<lparr>fe_store := []\<rparr>
      | Some text \<Rightarrow> e\<lparr>fe_store := fold load_line (read_lines text) []\<rparr>)"

definition save_line :: "string \<times> string \<Rightarrow> string" where
  "save_line kv = fst kv @ ''='' @ snd kv @ [NL]"

definition save_text :: "(string \<times> string) list \<Rightarrow> string" where
  "save_text kvs = concat (map save_line kvs)"

definition saveToFile ::
  "((string \<times> string) list \<Rightarrow> (string \<times> string) list) \<Rightarrow> file_engine \<Rightarrow> file_engine" where
  "saveToFile iter e =
     (case open_write (fe_disk e) (save_text (iter (fe_store e))) of
        None \<Rightarrow> e\<lparr>fe_cerr := fe_cerr e @ [''Error: Cannot open file for writing: '' @ quoted (file_path (fe_disk e))]\<rparr>
      | Some d \<Rightarrow> e\<lparr>fe_disk := d\<rparr>)"

definition file_new :: "disk_file \<Rightarrow> file_engine" where
  "file_new d = loadFromFile \<lparr>fe_store = [], fe_disk = d, fe_cerr = []\<rparr>"

definition file_write ::
  "((string \<times> string) list \<Rightarrow> (string \<times> string) list) \<Rightarrow>
     file_engine \<Rightarrow> string \<Rightarrow> string \<Rightarrow> bool \<times> file_engine" where
  "file_write iter e key value =
     (if key = [] then (False, e)
      else (True, saveToFile iter (e\<lparr>fe_store := AList.update key value (fe_store e)\<rparr>)))"

definition file_read :: "file_engine \<Rightarrow> string \<Rightarrow> string option \<times> file_engine" where
  "file_read e key =
     (if key = [] then (None, e)
      else (case map_of (fe_store e) key of
              None \<Rightarrow> (None, e)
            | Some v \<Rightarrow> (Some v, e)))"

definition file_erase ::
  "((string \<times> string) list \<Rightarrow> (string \<times> string) list) \<Rightarrow>
     file_engine \<Rightarrow> string \<Rightarrow> bool \<times> file_engine" where
  "file_erase iter e key =
     (if key = [] then (False, e)
      else
        let erased = (map_of (fe_store e) key \<noteq> None);
            e' = e\<lparr>fe_store := AList.delete key (fe_store e)\<rparr>
        in (erased, if erased then saveToFile iter e' else e'))"

definition file_vtable ::
  "((string \<times> string) list \<Rightarrow> (string \<times> string) list) \<Rightarrow> file_engine engine_vtable" where
  "file_vtable iter =
     \<lparr>vt_write = file_write iter, vt_read = file_read, vt_erase = file_erase iter\<rparr>"

lemmas file_defs = file_write_def file_read_def file_erase_def

lemma saveToFile_store [simp]: "fe_store (saveToFile iter e) = fe_store e"
  by (simp add: saveToFile_def split: option.splits)

section \<open>Loading and saving\<close>

text \<open>A line as a pair; \<open>load_line\<close> is an update by that pair.\<close>

definition parse_line :: "string \<Rightarrow> (string \<times> string) option" where
  "parse_line line =
     map_option (\<lambda>pos. (take pos line, drop (pos + 1) line)) (str_find line CHR ''='')"

lemma load_line_parse:
  "load_line line store =
     (case parse_line line of None \<Rightarrow> store | Some (k, v) \<Rightarrow> AList.update k v store)"
  by (auto simp: load_line_def parse_line_def substr_before_find substr_from_after_find
      split: option.splits)

lemma fold_load_line:
  "fold load_line ls store =
     fold (\<lambda>(k, v). AList.update k v) (List.map_filter parse_line ls) store"
  by (induction ls arbitrary: store)
    (auto simp: load_line_parse List.map_filter_simps split: option.splits)

lemma parse_line_save: "CHR ''='' \<notin> set k \<Longrightarrow> parse_line (k @ CHR ''='' # v) = Some (k, v)"
  by (simp add: parse_line_def string_facts)

lemma parse_line_key: "parse_line l = Some (k, v) \<Longrightarrow> CHR ''='' \<notin> set k \<and> l = k @ CHR ''='' # v"
  by (auto simp: parse_line_def dest: str_find_SomeD)

text \<open>
  A pair that the text format can carry: no \<^verbatim>\<open>=\<close> in the key, no newline in either.
\<close>

definition storable :: "string \<times> string \<Rightarrow> bool" where
  "storable kv \<longleftrightarrow> CHR ''='' \<notin> set (fst kv) \<and> NL \<notin> set (fst kv) \<and> NL \<notin> set (snd kv)"

lemma map_filter_parse_save:
  "\<forall>kv \<in> set kvs. storable kv \<Longrightarrow>
     List.map_filter parse_line (read_lines (save_text kvs)) = kvs"
proof (induction kvs)
  case Nil
  then show ?case by (simp add: save_text_def List.map_filter_simps)
next
  case (Cons kv kvs)
  obtain k v where kv: "kv = (k, v)" by (cases kv)
  let ?l = "k @ CHR ''='' # v"
  have out: "save_text (kv # kvs) = ?l @ NL # save_text kvs"
    by (simp add: save_text_def save_line_def kv)
  have l: "NL \<notin> set ?l" and p: "parse_line ?l = Some (k, v)"
    using Cons.prems by (simp_all add: storable_def kv parse_line_save)
  have "read_lines (save_text (kv # kvs)) = ?l # read_lines (save_text kvs)"
    unfolding out by (rule read_lines_line [OF l])
  then show ?case
    using Cons p by (simp add: List.map_filter_simps kv)
qed

text \<open>Loading what was saved: the same map, whatever order the elements were written in.\<close>

lemma load_save:
  assumes "visits_all iter" and "distinct (map fst kvs)" and "\<forall>kv \<in> set kvs. storable kv"
  shows "map_of (fold load_line (read_lines (save_text (iter kvs))) []) = map_of kvs"
proof -
  have ok: "\<forall>kv \<in> set (iter kvs). storable kv"
    using assms(1,3) by simp
  show ?thesis
    using assms(1,2)
    by (simp add: fold_load_line map_filter_parse_save [OF ok] map_of_fold_update_distinct)
qed

lemma set_map_filter_parse:
  assumes "kv \<in> set (List.map_filter parse_line (read_lines text))"
  shows "storable kv"
proof -
  obtain l where l: "l \<in> set (read_lines text)" and p: "parse_line l = Some kv"
    using assms by (auto simp: List.map_filter_def)
  obtain k v where kv: "kv = (k, v)" by (cases kv)
  have "CHR ''='' \<notin> set k" and "l = k @ CHR ''='' # v"
    using parse_line_key p by (simp_all add: kv)
  then show ?thesis
    using NL_notin_read_lines [OF l] by (simp add: storable_def kv)
qed

lemma set_fold_update:
  "set (fold (\<lambda>(k, v). AList.update k v) xs ys) \<subseteq> set xs \<union> set ys"
proof (induction xs arbitrary: ys)
  case Nil
  then show ?case by simp
next
  case (Cons x xs)
  obtain k v where x: "x = (k, v)" by (cases x)
  show ?case
    using Cons.IH [of "AList.update k v ys"] set_update_subset [of k v ys] by (auto simp: x)
qed

text \<open>Whatever the file holds, a loaded store can be saved again without loss.\<close>

lemma loaded_storable:
  "kv \<in> set (fold load_line (read_lines text) []) \<Longrightarrow> storable kv"
  unfolding fold_load_line
  using set_fold_update [of "List.map_filter parse_line (read_lines text)" "[]"]
  by (auto intro: set_map_filter_parse)

lemma loaded_distinct: "distinct (map fst (fold load_line (read_lines text) []))"
  by (simp add: fold_load_line distinct_fold_update)

section \<open>The engine's contract\<close>

text \<open>
  A line that starts with \<^verbatim>\<open>=\<close> loads an element with the empty key, which no operation
  can reach; the visible contents leave it out.
\<close>

definition file_contents :: "file_engine \<Rightarrow> (string \<rightharpoonup> string)" where
  "file_contents e = (map_of (fe_store e))([] := None)"

definition file_inv :: "file_engine \<Rightarrow> bool" where
  "file_inv e \<longleftrightarrow> distinct (map fst (fe_store e))"

lemma file_new_store:
  "fe_store (file_new d) =
     (case open_read d of None \<Rightarrow> [] | Some text \<Rightarrow> fold load_line (read_lines text) [])"
  by (simp add: file_new_def loadFromFile_def split: option.splits)

lemma file_new_disk [simp]: "fe_disk (file_new d) = d"
  by (simp add: file_new_def loadFromFile_def split: option.splits)

lemma file_new_inv: "file_inv (file_new d)"
  by (simp add: file_inv_def file_new_store loaded_distinct split: option.splits)

lemma file_new_storable: "kv \<in> set (fe_store (file_new d)) \<Longrightarrow> storable kv"
  by (auto simp: file_new_store dest: loaded_storable split: option.splits)

interpretation fb: storage_engine "file_vtable iter" file_contents file_inv
  for iter :: "(string \<times> string) list \<Rightarrow> (string \<times> string) list"
proof
  fix e :: file_engine and k v :: string
  assume inv: "file_inv e"
  show "fst (vt_write (file_vtable iter) e k v) = (k \<noteq> [])"
    by (simp add: file_vtable_def file_defs)
  show "file_contents (snd (vt_write (file_vtable iter) e k v)) =
      (if k = [] then file_contents e else (file_contents e)(k \<mapsto> v))"
    by (auto simp: file_vtable_def file_defs file_contents_def update_conv')
  show "fst (vt_read (file_vtable iter) e k) = (if k = [] then None else file_contents e k)"
    by (simp add: file_vtable_def file_defs file_contents_def split: option.splits)
  show "file_contents (snd (vt_read (file_vtable iter) e k)) = file_contents e"
    by (simp add: file_vtable_def file_defs split: option.splits)
  show "fst (vt_erase (file_vtable iter) e k) = (k \<noteq> [] \<and> file_contents e k \<noteq> None)"
    by (simp add: file_vtable_def file_defs file_contents_def Let_def)
  show "file_contents (snd (vt_erase (file_vtable iter) e k)) =
      (if k = [] then file_contents e else (file_contents e)(k := None))"
    by (auto simp: file_vtable_def file_defs file_contents_def delete_conv' fun_eq_iff Let_def)
  show "file_inv (snd (vt_write (file_vtable iter) e k v))"
    using inv by (simp add: file_vtable_def file_defs file_inv_def distinct_update)
  show "file_inv (snd (vt_read (file_vtable iter) e k))"
    using inv by (simp add: file_vtable_def file_defs split: option.splits)
  show "file_inv (snd (vt_erase (file_vtable iter) e k))"
    using inv by (simp add: file_vtable_def file_defs file_inv_def Let_def distinct_delete)
qed

section \<open>Durability\<close>

text \<open>
  What a restart would see: the map that a new engine loads from the file as it is now.
\<close>

definition reopened :: "file_engine \<Rightarrow> (string \<rightharpoonup> string)" where
  "reopened e = file_contents (file_new (fe_disk e))"

text \<open>
  The durability invariant: the file can be opened, every stored pair is storable, and
  loading the file gives exactly the store (the unreachable empty key included).
\<close>

definition durable :: "file_engine \<Rightarrow> bool" where
  "durable e \<longleftrightarrow>
     readable (fe_disk e) \<and> writable (fe_disk e) \<and> file_inv e \<and>
     (\<forall>kv \<in> set (fe_store e). storable kv) \<and>
     map_of (fe_store (file_new (fe_disk e))) = map_of (fe_store e)"

lemma durable_new: "readable d \<Longrightarrow> writable d \<Longrightarrow> durable (file_new d)"
  by (auto simp: durable_def file_new_inv dest: file_new_storable)

lemma durable_save:
  assumes "visits_all iter" and "readable (fe_disk e)" and "writable (fe_disk e)"
    and "distinct (map fst (fe_store e))" and "\<forall>kv \<in> set (fe_store e). storable kv"
  shows "durable (saveToFile iter e)"
  using assms load_save [OF assms(1,4,5)]
  by (simp add: durable_def file_inv_def saveToFile_def open_write_def file_new_store open_read_def)

text \<open>A client call whose new pair, if any, is storable.\<close>

fun storable_op :: "kv_op \<Rightarrow> bool" where
  "storable_op (Put k v) = storable (k, v)"
| "storable_op (Get k) = True"
| "storable_op (Remove k) = True"

lemma durable_write:
  assumes "visits_all iter" and "durable e" and "storable (k, v)"
  shows "durable (snd (file_write iter e k v))"
proof (cases "k = []")
  case True
  with assms(2) show ?thesis by (simp add: file_write_def)
next
  case False
  have "\<forall>kv \<in> set (AList.update k v (fe_store e)). storable kv"
    using assms(2,3) set_update_subset [of k v "fe_store e"] by (auto simp: durable_def)
  then have "durable (saveToFile iter (e\<lparr>fe_store := AList.update k v (fe_store e)\<rparr>))"
    using assms(2)
    by (intro durable_save [OF assms(1)]) (simp_all add: durable_def file_inv_def distinct_update)
  with False show ?thesis
    by (simp add: file_write_def)
qed

lemma durable_erase:
  assumes "visits_all iter" and "durable e"
  shows "durable (snd (file_erase iter e k))"
proof (cases "k = [] \<or> map_of (fe_store e) k = None")
  case True
  then have "k \<noteq> [] \<Longrightarrow> AList.delete k (fe_store e) = fe_store e"
    by (auto simp: map_of_eq_None_iff)
  with True assms(2) show ?thesis
    by (auto simp: file_erase_def Let_def)
next
  case False
  have "\<forall>kv \<in> set (AList.delete k (fe_store e)). storable kv"
    using assms(2) by (auto simp: durable_def set_delete)
  then have "durable (saveToFile iter (e\<lparr>fe_store := AList.delete k (fe_store e)\<rparr>))"
    using assms(2)
    by (intro durable_save [OF assms(1)]) (simp_all add: durable_def file_inv_def distinct_delete)
  with False show ?thesis
    by (simp add: file_erase_def Let_def)
qed

lemma durable_step:
  assumes "visits_all iter" and "kvs_vtable st = file_vtable iter"
    and "durable (kvs_engine st)" and "storable_op x"
  shows "durable (kvs_engine (snd (kvs_step st x)))"
  using assms
  by (cases x)
    (simp_all add: kvs_defs file_vtable_def split_beta Let_def durable_write durable_erase
      file_read_def split: option.splits)

lemma durable_run:
  "visits_all iter \<Longrightarrow> kvs_vtable st = file_vtable iter \<Longrightarrow> durable (kvs_engine st) \<Longrightarrow>
     list_all storable_op xs \<Longrightarrow> durable (kvs_engine (snd (kvs_run st xs)))"
proof (induction xs arbitrary: st)
  case Nil
  then show ?case by simp
next
  case (Cons x xs)
  then show ?case
    by (simp add: split_beta Let_def durable_step)
qed

lemma durable_reopened: "durable e \<Longrightarrow> reopened e = file_contents e"
  by (simp add: durable_def reopened_def file_contents_def)

text \<open>The limits of the format: a key with \<^verbatim>\<open>=\<close> cannot be loaded.\<close>

lemma loaded_key_no_equals:
  assumes "map_of (fe_store (file_new d)) k = Some v"
  shows "CHR ''='' \<notin> set k"
proof -
  have "(k, v) \<in> set (fe_store (file_new d))"
    using assms by (rule map_of_SomeD)
  then show ?thesis
    using file_new_storable [of "(k, v)" d] by (simp add: storable_def)
qed

end
