(* ===== verification/KV_Store.thy ===== *)
theory KV_Store
  imports KV_InMemory KV_File
begin

text \<open>
  The key-value store as a whole: \<^verbatim>\<open>KeyValueStore\<close> over each of its two engines. The
  properties are the refinement of the abstract map by both, the interchangeability of
  the engines, the meaning of a store file, durability, and the two limits of the
  file-based engine.
\<close>

interpretation mem_file: two_engines
  memory_vtable mem_contents mem_inv "file_vtable iter" file_contents file_inv
  for iter :: "(string \<times> string) list \<Rightarrow> (string \<times> string) list"
  by unfold_locales

lemma kvs_new_Some [simp]:
  "kvs_new (Some (vt, e)) = Inr \<lparr>kvs_vtable = vt, kvs_engine = e\<rparr>"
  by (simp add: kvs_new_def)

lemma file_reads_back:
  "k \<noteq> [] \<Longrightarrow> fst (file_read (snd (file_write iter e k v)) k) = Some v"
  by (simp add: file_defs update_conv')

lemma reopened_equals_key: "CHR ''='' \<in> set k \<Longrightarrow> reopened e k = None"
  using loaded_key_no_equals [of "fe_disk e" k]
  by (cases "map_of (fe_store (file_new (fe_disk e))) k")
    (auto simp: reopened_def file_contents_def)

lemma saveToFile_unwritable:
  "\<not> writable (fe_disk e) \<Longrightarrow> fe_disk (saveToFile iter e) = fe_disk e"
  by (simp add: saveToFile_def open_write_def)

text \<open>
  C1: A \<^verbatim>\<open>KeyValueStore\<close> built on a fresh in-memory engine answers every sequence of
  \<^verbatim>\<open>put\<close>, \<^verbatim>\<open>get\<close> and \<^verbatim>\<open>remove\<close> calls as the abstract map does that starts empty
  and rejects the empty key, ends with the same contents, and logs one balanced
  enter/exit pair per call.
\<close>

theorem memory_store_refines_map:
  "\<exists>st. kvs_new (Some (memory_vtable, mem_new)) = Inr st
     \<and> fst (kvs_run st xs) = fst (spec_run Map.empty xs)
     \<and> mem_contents (kvs_engine (snd (kvs_run st xs))) = snd (spec_run Map.empty xs)
     \<and> me_cout (kvs_engine (snd (kvs_run st xs))) = concat (map op_log xs)"
proof -
  let ?st = "\<lparr>kvs_vtable = memory_vtable, kvs_engine = mem_new\<rparr>"
  have "me_cout (kvs_engine (snd (kvs_run ?st xs))) = concat (map op_log xs)"
    using mem_run_log [of ?st xs] by (simp add: mem_new_def)
  then show ?thesis
    using mem.run_refines [of ?st xs] by (simp add: mem_new_inv mem_new_contents)
qed

text \<open>
  C2: A \<^verbatim>\<open>KeyValueStore\<close> built on a file-based engine answers every sequence of calls as
  the abstract map does that starts with the visible contents of the file, whatever the
  file holds, whether or not it can be written, and whatever order it is saved in.
\<close>

theorem file_store_refines_map:
  "\<exists>st. kvs_new (Some (file_vtable iter, file_new d)) = Inr st
     \<and> fst (kvs_run st xs) = fst (spec_run (file_contents (file_new d)) xs)
     \<and> file_contents (kvs_engine (snd (kvs_run st xs)))
         = snd (spec_run (file_contents (file_new d)) xs)"
  using fb.run_refines [of "\<lparr>kvs_vtable = file_vtable iter, kvs_engine = file_new d\<rparr>" iter xs]
  by (simp add: file_new_inv)

text \<open>
  A store over a file that is opened, used and opened again by the next process; the file is
  what stays between them.
\<close>

fun restart_run ::
  "((string \<times> string) list \<Rightarrow> (string \<times> string) list) \<Rightarrow> disk_file \<Rightarrow> kv_op list list \<Rightarrow> kv_result list list \<times> disk_file" where
  "restart_run iter d [] = ([], d)"
| "restart_run iter d (xs # xss) =
     (let (rs, st) = kvs_run \<lparr>kvs_vtable = file_vtable iter, kvs_engine = file_new d\<rparr> xs;
          (rss, d') = restart_run iter (fe_disk (kvs_engine st)) xss
      in (rs # rss, d'))"

lemma file_run_durable:
  assumes "visits_all iter" and "readable d" and "writable d" and "list_all storable_op xs"
  shows "durable (kvs_engine (snd (kvs_run \<lparr>kvs_vtable = file_vtable iter, kvs_engine = file_new d\<rparr> xs)))"
  using assms by (intro durable_run [where iter = iter]) (simp_all add: durable_new)

text \<open>
  Durability. On a file that can be read and written, after any sequence of calls
  whose stored keys hold no equals sign and no newline and whose stored values hold no
  newline, a new engine opened on the file sees exactly the contents the store had, which
  are those of the abstract map.
\<close>

lemma file_store_durable:
  assumes "visits_all iter" and "readable d" and "writable d" and "list_all storable_op xs"
  shows "reopened (kvs_engine (snd (kvs_run \<lparr>kvs_vtable = file_vtable iter, kvs_engine = file_new d\<rparr> xs)))
       = snd (spec_run (file_contents (file_new d)) xs)"
  using fb.run_refines [of "\<lparr>kvs_vtable = file_vtable iter, kvs_engine = file_new d\<rparr>" iter xs]
  by (simp add: durable_reopened [OF file_run_durable [OF assms]] file_new_inv)

lemma spec_run_append:
  "fst (spec_run m (xs @ ys)) = fst (spec_run m xs) @ fst (spec_run (snd (spec_run m xs)) ys)"
  "snd (spec_run m (xs @ ys)) = snd (spec_run (snd (spec_run m xs)) ys)"
  by (induction xs arbitrary: m) (simp_all add: split_beta Let_def)

lemma restarts_refine:
  assumes "visits_all iter" and "readable d" and "writable d" and "list_all storable_op (concat xss)"
  shows "concat (fst (restart_run iter d xss)) = fst (spec_run (file_contents (file_new d)) (concat xss))
    \<and> file_contents (file_new (snd (restart_run iter d xss)))
      = snd (spec_run (file_contents (file_new d)) (concat xss))"
  using assms(2-)
proof (induction xss arbitrary: d)
  case (Cons xs xss)
  let ?st = "snd (kvs_run \<lparr>kvs_vtable = file_vtable iter, kvs_engine = file_new d\<rparr> xs)"
  let ?d = "fe_disk (kvs_engine ?st)" and ?m = "file_contents (file_new d)"
  have ok: "list_all storable_op xs" "list_all storable_op (concat xss)"
    using Cons.prems(3) by simp_all
  have "fst (kvs_run \<lparr>kvs_vtable = file_vtable iter, kvs_engine = file_new d\<rparr> xs) = fst (spec_run ?m xs)"
    using fb.run_refines [of "\<lparr>kvs_vtable = file_vtable iter, kvs_engine = file_new d\<rparr>" iter xs]
    by (simp add: file_new_inv)
  moreover have "file_contents (file_new ?d) = snd (spec_run ?m xs)"
    using file_store_durable [OF assms(1) Cons.prems(1,2) ok(1)] by (simp add: reopened_def)
  moreover have "readable ?d" "writable ?d"
    using file_run_durable [OF assms(1) Cons.prems(1,2) ok(1)] by (simp_all add: durable_def)
  ultimately show ?case
    using Cons.IH [of ?d] ok(2) by (simp add: split_beta Let_def spec_run_append)
qed simp

text \<open>
  C12: Restarts go unnoticed. On a file that can be read and written, let processes one after
  another open a file-based store and make any calls whose stored keys hold no equals sign
  and no newline and whose stored values hold no newline. Together they get the answers of
  one abstract map, started with the visible contents of the file, and the file that is
  left shows the map's final contents, however often the store was restarted and in
  whatever order it was saved.
\<close>

theorem restarts_unnoticed:
  assumes "visits_all iter" and "readable d" and "writable d" and "list_all storable_op (concat xss)"
  shows "concat (fst (restart_run iter d xss)) = fst (spec_run (file_contents (file_new d)) (concat xss))
    \<and> file_contents (file_new (snd (restart_run iter d xss)))
      = snd (spec_run (file_contents (file_new d)) (concat xss))"
  by (rule restarts_refine [OF assms])

theorem restarts_unnoticed_witness:
  "concat (fst (restart_run rev \<lparr>file_path = ''db'', bytes = Some ''a=1'', readable = True, writable = True\<rparr>
      [[Put ''b'' ''x=y'', Get ''a''], [Put ''c'' '''', Remove ''a''], [Get ''b'', Get ''a'']]))
    = [Done True, Value (Some ''1''), Done True, Done True, Value (Some ''x=y''), Value None]"
proof -
  have "file_contents (file_new \<lparr>file_path = ''db'', bytes = Some ''a=1'', readable = True, writable = True\<rparr>) ''a'' = Some ''1''"
    by (simp add: file_contents_def file_new_store open_read_def) code_simp
  then show ?thesis
    using restarts_unnoticed [of rev "\<lparr>file_path = ''db'', bytes = Some ''a=1'', readable = True, writable = True\<rparr>"
        "[[Put ''b'' ''x=y'', Get ''a''], [Put ''c'' '''', Remove ''a''], [Get ''b'', Get ''a'']]"]
    by (simp add: visits_all_rev storable_def)
qed

text \<open>
  The engines are interchangeable. When the file holds nothing a client can see, no
  sequence of calls distinguishes a store over the file from one over fresh memory, and
  both end with the same contents.
\<close>

lemma engines_interchangeable:
  assumes "file_contents (file_new d) = Map.empty"
  shows "fst (kvs_run \<lparr>kvs_vtable = memory_vtable, kvs_engine = mem_new\<rparr> xs)
       = fst (kvs_run \<lparr>kvs_vtable = file_vtable iter, kvs_engine = file_new d\<rparr> xs)
     \<and> mem_contents (kvs_engine (snd (kvs_run \<lparr>kvs_vtable = memory_vtable, kvs_engine = mem_new\<rparr> xs)))
       = file_contents (kvs_engine (snd (kvs_run \<lparr>kvs_vtable = file_vtable iter, kvs_engine = file_new d\<rparr> xs)))"
  using assms
  by (intro conjI mem_file.same_results)
    (simp_all add: mem_new_inv mem_new_contents file_new_inv)

lemma engines_interchangeable_witness:
  "file_contents (file_new \<lparr>file_path = ''db'', bytes = None, readable = True, writable = False\<rparr>) = Map.empty
   \<and> fst (kvs_run \<lparr>kvs_vtable = memory_vtable, kvs_engine = mem_new\<rparr> [Put ''k'' ''v'', Get ''k''])
     = fst (kvs_run \<lparr>kvs_vtable = file_vtable rev,
              kvs_engine = file_new \<lparr>file_path = ''db'', bytes = None, readable = True, writable = False\<rparr>\<rparr>
         [Put ''k'' ''v'', Get ''k''])"
proof -
  have h: "file_contents (file_new \<lparr>file_path = ''db'', bytes = None, readable = True, writable = False\<rparr>) = Map.empty"
    by (simp add: file_contents_def file_new_store open_read_def)
  show ?thesis
    using h engines_interchangeable [OF h, of "[Put ''k'' ''v'', Get ''k'']" rev] by blast
qed

text \<open>
  What a store file means. Opening a readable file gives every non-empty key the
  value of the last line of the file that carries this key before its first equals sign;
  lines without an equals sign count for nothing.
\<close>

lemma load_last_line_wins:
  "file_contents (file_new \<lparr>file_path = p, bytes = Some content, readable = True, writable = w\<rparr>) k
     = (if k = [] then None
        else map_of (rev (List.map_filter parse_line (read_lines content))) k)"
  by (simp add: file_contents_def file_new_store open_read_def fold_load_line map_of_fold_update)

text \<open>
  A key that contains an equals sign is accepted and can be read back while the
  engine lives, but after a restart it is gone.
\<close>

lemma equals_in_key_lost:
  assumes "CHR ''='' \<in> set k"
  shows "fst (file_write iter e k v)
     \<and> fst (file_read (snd (file_write iter e k v)) k) = Some v
     \<and> reopened (snd (file_write iter e k v)) k = None"
proof -
  have "k \<noteq> []" using assms by auto
  then show ?thesis
    using file_reads_back reopened_equals_key [OF assms] by (simp add: file_write_def)
qed

lemma equals_in_key_lost_witness:
  "CHR ''='' \<in> set ''a=b''
   \<and> reopened (snd (file_write rev
       (file_new \<lparr>file_path = ''db'', bytes = None, readable = True, writable = True\<rparr>) ''a=b'' ''c'')) ''a=b'' = None"
proof -
  have h: "CHR ''='' \<in> set ''a=b''" by simp
  show ?thesis using h equals_in_key_lost [OF h] by blast
qed

text \<open>
  When the file cannot be opened for writing, \<^verbatim>\<open>write\<close> still reports success for
  every non-empty key; the file, and so what a restart sees, is what it was before.
\<close>

lemma unwritable_file_reports_success:
  assumes "\<not> writable (fe_disk e)"
  shows "fst (file_write iter e k v) = (k \<noteq> [])
     \<and> fe_disk (snd (file_write iter e k v)) = fe_disk e
     \<and> reopened (snd (file_write iter e k v)) = reopened e"
  using assms by (simp add: file_write_def reopened_def saveToFile_unwritable)

lemma unwritable_file_reports_success_witness:
  "\<not> writable (fe_disk (file_new \<lparr>file_path = ''db'', bytes = None, readable = True, writable = False\<rparr>))
   \<and> fst (file_write rev (file_new \<lparr>file_path = ''db'', bytes = None, readable = True, writable = False\<rparr>) ''k'' ''v'')"
proof -
  have h: "\<not> writable (fe_disk (file_new \<lparr>file_path = ''db'', bytes = None, readable = True, writable = False\<rparr>))"
    by simp
  show ?thesis using h unwritable_file_reports_success [OF h, of rev "''k''" "''v''"] by simp
qed

end
