(* ===== verification/Wire.thy ===== *)
theory Wire
  imports Cxx_Strings "HOL-Library.Word"
begin

text \<open>
  Sockets and integers on the wire, for the programs of \<^verbatim>\<open>cpp/socket_programming/\<close>: the
  memory image of a 32-bit integer, \<^verbatim>\<open>htonl\<close> and \<^verbatim>\<open>ntohl\<close>, what \<^verbatim>\<open>recv\<close> returns on a
  stream socket, and the locale \<^verbatim>\<open>framing\<close> of a length-prefixed message format.
\<close>

section \<open>Byte order\<close>

datatype byte_order = Little | Big

definition byte_of :: "nat \<Rightarrow> 32 word \<Rightarrow> char" where
  "byte_of i w = char_of (unat w div 256 ^ i)"

text \<open>The four bytes of an integer in memory, lowest address first.\<close>

definition mem_bytes :: "byte_order \<Rightarrow> 32 word \<Rightarrow> string" where
  "mem_bytes order w =
     (case order of
        Little \<Rightarrow> [byte_of 0 w, byte_of 1 w, byte_of 2 w, byte_of 3 w]
      | Big \<Rightarrow> [byte_of 3 w, byte_of 2 w, byte_of 1 w, byte_of 0 w])"

definition word_of_bytes :: "char \<Rightarrow> char \<Rightarrow> char \<Rightarrow> char \<Rightarrow> 32 word" where
  "word_of_bytes b0 b1 b2 b3 =
     of_nat (of_char b0 + 256 * of_char b1 + 65536 * of_char b2 + 16777216 * of_char b3)"

text \<open>The integer that four bytes of memory hold (anything but four bytes gives 0).\<close>

definition mem_word :: "byte_order \<Rightarrow> string \<Rightarrow> 32 word" where
  "mem_word order bs =
     (case bs of
        [a, b, c, d] \<Rightarrow>
          (case order of Little \<Rightarrow> word_of_bytes a b c d | Big \<Rightarrow> word_of_bytes d c b a)
      | _ \<Rightarrow> 0)"

text \<open>On a little-endian host \<^verbatim>\<open>htonl\<close> and \<^verbatim>\<open>ntohl\<close> swap the bytes, on a big-endian one they do nothing.\<close>

definition htonl :: "byte_order \<Rightarrow> 32 word \<Rightarrow> 32 word" where
  "htonl order w = mem_word order (mem_bytes Big w)"

definition ntohl :: "byte_order \<Rightarrow> 32 word \<Rightarrow> 32 word" where
  "ntohl order w = mem_word Big (mem_bytes order w)"

lemma base_256:
  fixes n :: nat
  assumes "n < 4294967296"
  shows "n mod 256 + 256 * (n div 256 mod 256) + 65536 * (n div 65536 mod 256)
    + 16777216 * (n div 16777216 mod 256) = n"
proof -
  have "n div 65536 = n div 256 div 256" and "n div 16777216 = n div 256 div 256 div 256"
    by (simp_all add: div_mult2_eq [symmetric])
  moreover have "n div 256 div 256 div 256 < 256"
    using assms by (simp add: div_mult2_eq [symmetric] less_mult_imp_div_less)
  ultimately have e: "n div 65536 = n div 256 div 256"
    "n div 16777216 mod 256 = n div 256 div 256 div 256"
    by simp_all
  show ?thesis
    unfolding e
    using mult_div_mod_eq [of 256 n] mult_div_mod_eq [of 256 "n div 256"]
      mult_div_mod_eq [of 256 "n div 256 div 256"]
    by linarith
qed

lemma word_of_byte_of:
  "word_of_bytes (byte_of 0 w) (byte_of 1 w) (byte_of 2 w) (byte_of 3 w) = w"
proof -
  have "unat w < 2 ^ LENGTH(32)"
    by (rule unsigned_less)
  then have "unat w < 4294967296" by simp
  have pow: "(256::nat) ^ 0 = 1" "(256::nat) ^ 1 = 256" "(256::nat) ^ 2 = 65536"
      "(256::nat) ^ 3 = 16777216"
    by simp_all
  from base_256 [OF \<open>unat w < 4294967296\<close>]
  have "of_char (byte_of 0 w) + 256 * of_char (byte_of 1 w) + 65536 * of_char (byte_of 2 w)
      + 16777216 * of_char (byte_of 3 w) = unat w"
    unfolding byte_of_def of_char_of pow div_by_1 .
  then show ?thesis
    unfolding word_of_bytes_def by (simp only: of_nat_unat ucast_id)
qed

lemma mem_word_bytes [simp]: "mem_word order (mem_bytes order w) = w"
  using word_of_byte_of [of w] by (cases order) (simp_all add: mem_word_def mem_bytes_def)

lemma length_mem_bytes [simp]: "length (mem_bytes order w) = 4"
  by (cases order) (simp_all add: mem_bytes_def)

lemma low_high:
  fixes a m x :: nat
  assumes "a < m"
  shows "(a + m * x) div m = x"
  using assms by simp

lemma byte_of_word_of_bytes:
  shows "byte_of 0 (word_of_bytes a b c d) = a" and "byte_of 1 (word_of_bytes a b c d) = b"
    and "byte_of 2 (word_of_bytes a b c d) = c" and "byte_of 3 (word_of_bytes a b c d) = d"
proof -
  let ?a = "of_char a :: nat" and ?b = "of_char b :: nat"
  let ?c = "of_char c :: nat" and ?d = "of_char d :: nat"
  let ?n = "?a + 256 * ?b + 65536 * ?c + 16777216 * ?d"
  have r: "?a < 256" "?b < 256" "?c < 256" "?d < 256"
    by simp_all
  have "?n < 2 ^ LENGTH(32)"
    unfolding len_num1 len_bit0 using r by (simp, linarith)
  then have u: "unat (word_of_bytes a b c d) = ?n"
    unfolding word_of_bytes_def unat_of_nat by (rule mod_less)
  have pow: "(256::nat) ^ 0 = 1" "(256::nat) ^ 1 = 256" "(256::nat) ^ 2 = 65536"
      "(256::nat) ^ 3 = 16777216"
    by simp_all
  have cut: "char_of (of_char e + 256 * x :: nat) = e" for e x
    by (simp add: char_of_eq_iff take_bit_eq_mod)
  have n0: "?n = ?a + 256 * (?b + 256 * ?c + 65536 * ?d)" by simp
  show "byte_of 0 (word_of_bytes a b c d) = a"
    unfolding byte_of_def u pow div_by_1 n0 by (rule cut)
  have n1: "?n div 256 = ?b + 256 * (?c + 256 * ?d)"
    unfolding n0 low_high [OF r(1)] by simp
  show "byte_of 1 (word_of_bytes a b c d) = b"
    unfolding byte_of_def u pow n1 by (rule cut)
  have n2: "?n div 65536 = ?c + 256 * ?d"
    using low_high [of "?a + 256 * ?b" 65536 "?c + 256 * ?d"] r by simp
  show "byte_of 2 (word_of_bytes a b c d) = c"
    unfolding byte_of_def u pow n2 by (rule cut)
  have lt: "?a + 256 * ?b + 65536 * ?c < 16777216"
    using r by linarith
  have n3: "?n div 16777216 = ?d + 256 * 0"
    unfolding low_high [OF lt] by simp
  show "byte_of 3 (word_of_bytes a b c d) = d"
    unfolding byte_of_def u pow n3 by (rule cut)
qed

lemma length_4: "length bs = 4 \<Longrightarrow> \<exists>a b c d. bs = [a, b, c, d]"
  by (auto simp: length_Suc_conv eval_nat_numeral)

lemma mem_bytes_word:
  assumes "length bs = 4"
  shows "mem_bytes order (mem_word order bs) = bs"
proof -
  obtain a b c d where "bs = [a, b, c, d]"
    using length_4 [OF assms] by blast
  then show ?thesis
    by (cases order) (simp_all only: mem_word_def mem_bytes_def byte_of_word_of_bytes byte_order.case list.case)
qed

text \<open>What goes over the wire is big-endian, and the receiver gets the integer back, on any host.\<close>

lemma mem_bytes_htonl [simp]: "mem_bytes order (htonl order w) = mem_bytes Big w"
  by (simp add: htonl_def mem_bytes_word)

lemma ntohl_mem_word [simp]: "ntohl order (mem_word order (mem_bytes Big w)) = w"
  by (simp add: ntohl_def mem_bytes_word)

section \<open>Sockets\<close>

text \<open>
  What a connection still delivers: chunks of bytes, each of them what is there when
  \<^verbatim>\<open>recv\<close> is called, and failing calls; when nothing is left the peer has closed.
  \<^verbatim>\<open>recv\<close> returns at most the number of bytes asked for, \<open>None\<close> for -1.
\<close>

datatype recv_event = Bytes string | Fail

type_synonym incoming = "recv_event list"

fun sock_recv :: "nat \<Rightarrow> incoming \<Rightarrow> string option \<times> incoming" where
  "sock_recv n [] = (Some [], [])"
| "sock_recv n (Fail # es) = (None, es)"
| "sock_recv n (Bytes c # es) =
     (Some (take n c), if length c \<le> n then es else Bytes (drop n c) # es)"

text \<open>A chunk put back in front, dropped when it is empty.\<close>

definition chunk :: "string \<Rightarrow> incoming \<Rightarrow> incoming" where
  "chunk c es = (if c = [] then es else Bytes c # es)"

lemma sock_recv_prefix: "sock_recv (length x) (Bytes (x @ y) # es) = (Some x, chunk y es)"
  by (simp add: chunk_def)

lemma sock_recv_chunk: "x \<noteq> [] \<Longrightarrow> sock_recv (length x) (chunk (x @ y) es) = (Some x, chunk y es)"
  by (simp add: chunk_def)

text \<open>
  A connection over which the pieces \<open>fields\<close> were sent and which was then closed by the
  peer: the network may have joined neighbouring pieces into one chunk, but it has split
  none of them. An empty piece leaves no trace.
\<close>

fun delivers :: "string list \<Rightarrow> incoming \<Rightarrow> bool" where
  "delivers [] es \<longleftrightarrow> es = []"
| "delivers (f # fs) es \<longleftrightarrow>
     (if f = [] then delivers fs es
      else
        (case es of
           Bytes c # es' \<Rightarrow> take (length f) c = f \<and> delivers fs (chunk (drop (length f) c) es')
         | _ \<Rightarrow> False))"

lemma delivers_no_empty: "\<not> delivers fs (Bytes [] # es)" and delivers_no_fail: "\<not> delivers fs (Fail # es)"
  by (induction fs) auto

text \<open>In other words, the chunks are groups of neighbouring pieces.\<close>

lemma chunk_groups:
  "[] \<notin> set g \<Longrightarrow> chunk (concat g) (map (\<lambda>g. Bytes (concat g)) gs)
     = map (\<lambda>g. Bytes (concat g)) (if g = [] then gs else g # gs)"
  by (cases g) (auto simp: chunk_def)

lemma groups_delivers:
  assumes "[] \<notin> set gs" and "concat gs = filter (\<lambda>f. f \<noteq> []) fields"
  shows "delivers fields (map (\<lambda>g. Bytes (concat g)) gs)"
  using assms
proof (induction fields arbitrary: gs)
  case Nil
  then show ?case by (cases gs) auto
next
  case (Cons f fs)
  show ?case
  proof (cases "f = []")
    case True
    with Cons show ?thesis by simp
  next
    case False
    obtain g gs' where gs: "gs = (f # g) # gs'" and rest: "g @ concat gs' = filter (\<lambda>f. f \<noteq> []) fs"
      using Cons.prems False by (cases gs; cases "hd gs") auto
    have "set g \<subseteq> set (filter (\<lambda>f. f \<noteq> []) fs)"
      unfolding rest [symmetric] by simp
    then have g: "[] \<notin> set g" by auto
    have "delivers fs (map (\<lambda>g. Bytes (concat g)) (if g = [] then gs' else g # gs'))"
      using Cons.prems(1) rest by (intro Cons.IH) (auto simp: gs)
    then show ?thesis
      using False by (simp add: gs chunk_groups [OF g])
  qed
qed

lemma delivers_groups:
  assumes "delivers fields es"
  shows "\<exists>gs. [] \<notin> set gs \<and> concat gs = filter (\<lambda>f. f \<noteq> []) fields \<and> es = map (\<lambda>g. Bytes (concat g)) gs"
  using assms
proof (induction fields es rule: delivers.induct)
  case (2 f fs es)
  show ?case
  proof (cases "f = []")
    case True
    with 2 show ?thesis by simp
  next
    case False
    then obtain c es' where es: "es = Bytes c # es'" "take (length f) c = f" "delivers fs (chunk (drop (length f) c) es')"
      using "2.prems" by (auto split: list.splits recv_event.splits)
    obtain d where c: "c = f @ d"
      using es(2) by (metis append_take_drop_id)
    have "delivers fs (chunk (drop (length f) c) es') \<Longrightarrow> \<exists>gs. [] \<notin> set gs \<and>
        concat gs = filter (\<lambda>f. f \<noteq> []) fs \<and> chunk (drop (length f) c) es' = map (\<lambda>g. Bytes (concat g)) gs"
      using "2.IH"(2) [OF False es(1) refl] .
    then obtain gs where gs: "[] \<notin> set gs" "concat gs = filter (\<lambda>f. f \<noteq> []) fs"
      "chunk d es' = map (\<lambda>g. Bytes (concat g)) gs"
      using es(3) by (auto simp: c)
    show ?thesis
    proof (cases "d = []")
      case True
      then show ?thesis
        using gs False by (intro exI [of _ "[f] # gs"]) (simp add: es(1) c chunk_def)
    next
      case d: False
      then obtain g gs' where "gs = g # gs'" "d = concat g" "es' = map (\<lambda>g. Bytes (concat g)) gs'"
        using gs(3) by (cases gs) (auto simp: chunk_def)
      then show ?thesis
        using gs False by (intro exI [of _ "(f # g) # gs'"]) (simp add: es(1) c)
    qed
  qed
qed simp

lemma delivers_one_chunk: "delivers fields (chunk (concat fields) [])"
proof (induction fields)
  case (Cons f fs)
  have "f \<noteq> [] \<Longrightarrow> chunk (f @ concat fs) [] = [Bytes (f @ concat fs)]"
    by (simp add: chunk_def)
  then show ?case
    using Cons by (cases "f = []") simp_all
qed (simp add: chunk_def)

text \<open>\<^verbatim>\<open>recv\<close> for the length of the next piece takes exactly this piece.\<close>

lemma delivers_recv:
  assumes "delivers (f # fs) es"
  shows "\<exists>es'. sock_recv (length f) es = (Some f, es') \<and> delivers fs es'"
proof (cases "f = []")
  case True
  then show ?thesis
    using assms delivers_no_empty [of fs] delivers_no_fail [of fs]
    by (cases "(0::nat, es)" rule: sock_recv.cases) auto
next
  case False
  then obtain c es' where es: "es = Bytes c # es'" "take (length f) c = f" "delivers fs (chunk (drop (length f) c) es')"
    using assms by (auto split: list.splits recv_event.splits)
  then show ?thesis by (auto simp: chunk_def)
qed

text \<open>
  The bytes still to come, and a measure for the receive loops: every call that returns
  a byte or an error makes it smaller.
\<close>

fun event_size :: "recv_event \<Rightarrow> nat" where
  "event_size (Bytes c) = Suc (length c)"
| "event_size Fail = 1"

definition incoming_size :: "incoming \<Rightarrow> nat" where
  "incoming_size es = sum_list (map event_size es)"

lemma sock_recv_size: "incoming_size (snd (sock_recv n es)) \<le> incoming_size es"
  by (cases "(n, es)" rule: sock_recv.cases) (simp_all add: incoming_size_def)

lemma sock_recv_size_less:
  "fst (sock_recv n es) = Some bs \<Longrightarrow> bs \<noteq> [] \<Longrightarrow> incoming_size (snd (sock_recv n es)) < incoming_size es"
  by (cases "(n, es)" rule: sock_recv.cases) (auto simp: incoming_size_def)

lemma sock_recv_length: "fst (sock_recv n es) = Some bs \<Longrightarrow> length bs \<le> n"
  by (cases "(n, es)" rule: sock_recv.cases) auto

section \<open>Length-prefixed frames\<close>

text \<open>
  \<^verbatim>\<open>int length = htonl(message.size())\<close>, sent as the four bytes of the variable, then
  the characters.
\<close>

definition frame_head :: "byte_order \<Rightarrow> string \<Rightarrow> string" where
  "frame_head order msg = mem_bytes order (htonl order (of_nat (length msg)))"

text \<open>
  The receiver's length variable: the bytes that arrived over what its memory held
  before (\<open>junk\<close>), converted by \<^verbatim>\<open>ntohl\<close> and read as a signed \<^verbatim>\<open>int\<close>.
\<close>

definition length_field :: "byte_order \<Rightarrow> string \<Rightarrow> string option \<Rightarrow> int" where
  "length_field order junk received =
     (let bs = (case received of None \<Rightarrow> [] | Some bs \<Rightarrow> bs)
      in to_int32 (uint (ntohl order (mem_word order (bs @ drop (length bs) junk)))))"

text \<open>Not empty, no zero byte, and a length that leaves room for the terminator in an \<^verbatim>\<open>int\<close>.\<close>

definition sendable :: "string \<Rightarrow> bool" where
  "sendable msg \<longleftrightarrow> msg \<noteq> [] \<and> NUL \<notin> set msg \<and> length msg + 1 < 2 ^ 31"

lemma length_frame_head [simp]: "length (frame_head order msg) = 4"
  by (simp add: frame_head_def)

lemma frame_head_nonempty [simp]: "frame_head order msg \<noteq> []"
  using length_frame_head [of order msg] by (metis list.size(3) zero_neq_numeral)

lemma length_field_head:
  assumes "length msg < 2 ^ 31" and "length junk = 4"
  shows "length_field order junk (Some (frame_head order' msg)) = int (length msg)"
proof -
  have u: "unat (of_nat (length msg) :: 32 word) = length msg"
    using assms(1) by (simp add: unat_of_nat)
  then have "uint (of_nat (length msg) :: 32 word) = int (length msg)"
    by (simp add: uint_nat)
  then show ?thesis
    using assms by (simp add: length_field_def frame_head_def)
qed

text \<open>Receiving \<open>n\<close> messages in a row.\<close>

fun receive_n ::
  "(incoming \<Rightarrow> string option \<times> incoming) \<Rightarrow> nat \<Rightarrow> incoming \<Rightarrow> string option list \<times> incoming" where
  "receive_n receive 0 es = ([], es)"
| "receive_n receive (Suc n) es =
     (let (m, es') = receive es; (ms, es'') = receive_n receive n es' in (m # ms, es''))"

text \<open>
  The contract between a sender, which sends the pieces \<open>fields m\<close> of a message, and a
  receiver of such frames: from a connection whose next pieces are those of an acceptable
  message, none of them split, the receiver takes exactly that message.
\<close>

locale framing =
  fixes fields :: "string \<Rightarrow> string list"
    and receive :: "incoming \<Rightarrow> string option \<times> incoming"
    and acceptable :: "string \<Rightarrow> bool"
  assumes receive_fields:
    "acceptable m \<Longrightarrow> delivers (fields m @ fs) es \<Longrightarrow> \<exists>es'. receive es = (Some m, es') \<and> delivers fs es'"
begin

lemma receive_n_fields:
  "\<forall>m \<in> set ms. acceptable m \<Longrightarrow> delivers (concat (map fields ms) @ fs) es \<Longrightarrow>
     \<exists>es'. receive_n receive (length ms) es = (map Some ms, es') \<and> delivers fs es'"
proof (induction ms arbitrary: es)
  case (Cons m ms)
  obtain es1 where es1: "receive es = (Some m, es1)" "delivers (concat (map fields ms) @ fs) es1"
    using receive_fields [of m "concat (map fields ms) @ fs" es] Cons.prems by auto
  obtain es' where "receive_n receive (length ms) es1 = (map Some ms, es')" "delivers fs es'"
    using Cons.IH [OF _ es1(2)] Cons.prems(1) by auto
  then show ?case
    using es1(1) by simp
qed simp

end

end
