(* ===== verification/File_Streams.thy ===== *)
theory File_Streams
  imports Cxx_Strings Wire
begin

text \<open>
  The programs of \<^verbatim>\<open>cpp/file_management/\<close>: file streams with their position and state
  flags, the loops \<^verbatim>\<open>while (file.good())\<close>, and the person that is written to a binary
  file and read back.
\<close>

section \<open>Streams\<close>

record stream =
  content :: string
  pos :: nat
  eofbit :: bool
  failbit :: bool

definition open_stream :: "string \<Rightarrow> stream" where
  "open_stream c = \<lparr>content = c, pos = 0, eofbit = False, failbit = False\<rparr>"

definition good :: "stream \<Rightarrow> bool" where
  "good s \<longleftrightarrow> \<not> eofbit s \<and> \<not> failbit s"

text \<open>Writing at the position (over what is there), and \<^verbatim>\<open>put\<close>.\<close>

definition stream_write :: "string \<Rightarrow> stream \<Rightarrow> stream" where
  "stream_write bs s =
     (if good s
      then s\<lparr>content := take (pos s) (content s) @ bs @ drop (pos s + length bs) (content s),
             pos := pos s + length bs\<rparr>
      else s\<lparr>failbit := True\<rparr>)"

text \<open>In append mode every write goes to the end.\<close>

definition stream_append :: "string \<Rightarrow> stream \<Rightarrow> stream" where
  "stream_append bs s =
     (if good s then s\<lparr>content := content s @ bs, pos := length (content s @ bs)\<rparr>
      else s\<lparr>failbit := True\<rparr>)"

definition seekg :: "nat \<Rightarrow> stream \<Rightarrow> stream" where
  "seekg p s = (if failbit s then s\<lparr>eofbit := False\<rparr> else s\<lparr>eofbit := False, pos := p\<rparr>)"

text \<open>\<^verbatim>\<open>tellg\<close> fails, with -1, on a stream that is at its end or has failed.\<close>

definition tellg :: "stream \<Rightarrow> int \<times> stream" where
  "tellg s = (if good s then (int (pos s), s) else (- 1, s\<lparr>failbit := True\<rparr>))"

text \<open>\<^verbatim>\<open>getline\<close> into a string that held \<open>line\<close>.\<close>

definition stream_getline :: "string \<Rightarrow> stream \<Rightarrow> string \<times> stream" where
  "stream_getline line s =
     (if \<not> good s then (line, s\<lparr>failbit := True\<rparr>)
      else
        let rest = drop (pos s) (content s);
            l = takeWhile (\<lambda>c. c \<noteq> NL) rest
        in if length l < length rest
           then (l, s\<lparr>pos := pos s + length l + 1\<rparr>)
           else (l, s\<lparr>pos := pos s + length l, eofbit := True, failbit := (l = [])\<rparr>))"

text \<open>\<^verbatim>\<open>get\<close> into a character that held \<open>ch\<close>.\<close>

definition stream_get :: "char \<Rightarrow> stream \<Rightarrow> char \<times> stream" where
  "stream_get ch s =
     (if \<not> good s then (ch, s\<lparr>failbit := True\<rparr>)
      else if pos s < length (content s) then (content s ! pos s, s\<lparr>pos := pos s + 1\<rparr>)
      else (ch, s\<lparr>eofbit := True, failbit := True\<rparr>))"

text \<open>\<^verbatim>\<open>read\<close> of \<open>n\<close> bytes over a memory that held \<open>old\<close>.\<close>

definition stream_read :: "nat \<Rightarrow> string \<Rightarrow> stream \<Rightarrow> string \<times> stream" where
  "stream_read n old s =
     (if \<not> good s then (old, s\<lparr>failbit := True\<rparr>)
      else
        let bs = take n (drop (pos s) (content s))
        in (bs @ drop (length bs) old,
            if length bs < n then s\<lparr>pos := pos s + length bs, eofbit := True, failbit := True\<rparr>
            else s\<lparr>pos := pos s + length bs\<rparr>))"

text \<open>A measure for the loops: what is left to read, nothing when the stream is not good.\<close>

definition left :: "stream \<Rightarrow> nat" where
  "left s = (if good s then Suc (length (content s) - pos s) else 0)"

lemma getline_left: "good s \<Longrightarrow> left (snd (stream_getline line s)) < left s"
proof -
  assume g: "good s"
  let ?rest = "drop (pos s) (content s)"
  show ?thesis
  proof (cases "length (takeWhile (\<lambda>c. c \<noteq> NL) ?rest) < length ?rest")
    case True
    then show ?thesis
      using g by (auto simp: stream_getline_def left_def good_def Let_def)
  next
    case False
    then show ?thesis
      using g by (auto simp: stream_getline_def left_def good_def Let_def)
  qed
qed

lemma get_left: "good s \<Longrightarrow> left (snd (stream_get ch s)) < left s"
  by (auto simp: stream_get_def left_def good_def)

section \<open>Text files\<close>

text \<open>
  \<^verbatim>\<open>while (file.good()) { getline(file, line); cout << line << endl; }\<close>: the lines printed.
\<close>

function show_lines :: "string \<Rightarrow> stream \<Rightarrow> string list" where
  "show_lines line s =
     (if good s
      then (let (line', s') = stream_getline line s in line' # show_lines line' s')
      else [])"
  by pat_completeness auto
termination
proof (relation "measure (\<lambda>(line, s). left s)", goal_cases)
  case 1
  then show ?case by simp
next
  case (2 line s x line' s')
  then show ?case
    using getline_left [of s line] by (metis case_prod_conv in_measure snd_conv)
qed

declare show_lines.simps [simp del]

text \<open>\<^verbatim>\<open>output_file.cpp\<close>, \<^verbatim>\<open>read_file.cpp\<close> and \<^verbatim>\<open>fstream.cpp\<close>: what is printed, and the file.\<close>

definition open_error :: "string list" where
  "open_error = [''error while opening the file'']"

definition output_file_main :: "bool \<Rightarrow> string option \<Rightarrow> string list \<times> string option" where
  "output_file_main opened old =
     (if \<not> opened then (open_error, old)
      else
        let s = stream_write (''This is 2nd Line'' @ [NL])
                  (stream_write (''Leading File system'' @ [NL]) (open_stream []))
        in ([''Successfully written to the file''], Some (content s)))"

definition read_file_main :: "string option \<Rightarrow> string list" where
  "read_file_main c = (case c of None \<Rightarrow> open_error | Some t \<Rightarrow> show_lines [] (open_stream t))"

definition fstream_main :: "bool \<Rightarrow> string \<Rightarrow> string list \<times> string" where
  "fstream_main opened old =
     (if \<not> opened then (open_error, old)
      else
        let s = seekg 0 (stream_append (''Writing on file'' @ [NL]) (open_stream old))
        in (show_lines [] s, content s))"

definition file_mngmnt_main :: "bool \<Rightarrow> string option \<Rightarrow> string list \<times> string option" where
  "file_mngmnt_main opened old =
     (if \<not> opened then (open_error, old) else ([''file opened successfully''], Some []))"

text \<open>\<^verbatim>\<open>stream_position.cpp\<close>: both positions and the line from the third byte on.\<close>

definition stream_position_main :: "string option \<Rightarrow> int option \<times> string \<times> int option" where
  "stream_position_main c =
     (case c of
        None \<Rightarrow> (None, ''error'', None)
      | Some t \<Rightarrow>
          let (p0, s0) = tellg (open_stream t);
              (line, s1) = stream_getline [] (seekg 3 s0);
              (p1, _) = tellg s1
          in (Some p0, line, Some p1))"

section \<open>A file of characters\<close>

text \<open>\<^verbatim>\<open>binary_files.cpp\<close>: the string with its terminator, character by character.\<close>

fun put_all :: "string \<Rightarrow> stream \<Rightarrow> stream" where
  "put_all [] s = s"
| "put_all (c # cs) s = put_all cs (stream_write [c] s)"

function show_chars :: "char \<Rightarrow> stream \<Rightarrow> string" where
  "show_chars ch s =
     (if good s then (let (ch', s') = stream_get ch s in ch' # show_chars ch' s') else [])"
  by pat_completeness auto
termination
proof (relation "measure (\<lambda>(ch, s). left s)", goal_cases)
  case 1
  then show ?case by simp
next
  case (2 ch s x ch' s')
  then show ?case
    using get_left [of s ch] by (metis case_prod_conv in_measure snd_conv)
qed

declare show_chars.simps [simp del]

definition binary_files_main :: "bool \<Rightarrow> char \<Rightarrow> string" where
  "binary_files_main opened junk =
     (if \<not> opened then ''error while opening file'' @ [NL]
      else show_chars junk (seekg 0 (put_all (''Learning cpp file system'' @ [NUL]) (open_stream []))))"

section \<open>Persons\<close>

record person =
  p_name :: string
  p_age :: "32 word"

text \<open>
  The default constructor, over an array that held \<open>junk\<close>; and the other one, which copies
  at most 79 characters, fills up with zeros and terminates.
\<close>

definition person_default :: "string \<Rightarrow> person" where
  "person_default junk = \<lparr>p_name = ''noname'' @ [NUL] @ drop 7 junk, p_age = 0\<rparr>"

definition strncpy_79 :: "string \<Rightarrow> string" where
  "strncpy_79 src = (let c = take 79 (c_string src) in c @ replicate (79 - length c) NUL)"

definition person_new :: "string \<Rightarrow> 32 word \<Rightarrow> person" where
  "person_new name age = \<lparr>p_name = strncpy_79 name @ [NUL], p_age = age\<rparr>"

definition whoAreYou :: "person \<Rightarrow> string" where
  "whoAreYou p =
     ''Hi, I am '' @ c_string (p_name p) @ '' and I am '' @
     (if sint (p_age p) < 0 then CHR ''-'' # dec (nat (- sint (p_age p))) else dec (nat (sint (p_age p))))
     @ '' years old.'' @ [NL]"

definition writeToFile :: "byte_order \<Rightarrow> person \<Rightarrow> stream \<Rightarrow> stream" where
  "writeToFile order p s = stream_write (mem_bytes order (p_age p)) (stream_write (p_name p) s)"

definition readFromFile :: "byte_order \<Rightarrow> person \<Rightarrow> stream \<Rightarrow> person \<times> stream" where
  "readFromFile order p s =
     (let (name, s1) = stream_read 80 (p_name p) s;
          (age, s2) = stream_read 4 (mem_bytes order (p_age p)) s1
      in (\<lparr>p_name = name, p_age = mem_word order age\<rparr>, s2))"

text \<open>\<^verbatim>\<open>main\<close> of \<^verbatim>\<open>bin_file_methods.cpp\<close>: what is printed, and the exit status.\<close>

definition person_main :: "byte_order \<Rightarrow> bool \<Rightarrow> string \<Rightarrow> string list \<times> int" where
  "person_main order opened junk =
     (let veet = person_new ''Veet'' 24 in
      if \<not> opened then ([''Error opening file!'' @ [NL]], 1)
      else
        let s = seekg 0 (writeToFile order veet (open_stream []));
            (test, _) = readFromFile order (person_default junk) s
        in ([whoAreYou veet, whoAreYou test], 0))"

section \<open>What the loops show\<close>

lemma stream_getline_stop:
  assumes "good s" and "drop (pos s) (content s) = l @ NL # r" and "NL \<notin> set l"
  shows "stream_getline line s = (l, s\<lparr>pos := pos s + length l + 1\<rparr>)"
  using assms by (simp add: stream_getline_def takeWhile_append_stop)

lemma stream_getline_end:
  assumes "good s" and "NL \<notin> set (drop (pos s) (content s))"
  shows "stream_getline line s = (drop (pos s) (content s),
    s\<lparr>pos := pos s + length (drop (pos s) (content s)), eofbit := True,
      failbit := (drop (pos s) (content s) = [])\<rparr>)"
  using assms(1) by (simp add: stream_getline_def Let_def takeWhile_no_stop [OF assms(2)])

lemma show_lines_read:
  "good s \<Longrightarrow> drop (pos s) (content s) = rest \<Longrightarrow>
     show_lines line s = read_lines rest @ (if rest = [] \<or> last rest = NL then [[]] else [])"
proof (induction rest arbitrary: s line rule: length_induct)
  case (1 rest)
  show ?case
  proof (cases "NL \<in> set rest")
    case True
    then obtain l r where lr: "rest = l @ NL # r" "NL \<notin> set l"
      using split_list_first by metis
    let ?s = "s\<lparr>pos := pos s + length l + 1\<rparr>"
    have "drop (pos ?s) (content ?s) = drop (length l + 1) (drop (pos s) (content s))"
      by (simp add: add.commute)
    also have "\<dots> = r"
      unfolding 1(3) lr(1) by simp
    finally have "show_lines l ?s = read_lines r @ (if r = [] \<or> last r = NL then [[]] else [])"
      using 1 lr by (simp add: good_def)
    moreover have "show_lines line s = l # show_lines l ?s"
      using stream_getline_stop [OF 1(2) _ lr(2)] 1(2,3) lr(1) by (subst show_lines.simps) simp
    ultimately show ?thesis
      using lr by simp
  next
    case False
    let ?s = "s\<lparr>pos := pos s + length rest, eofbit := True, failbit := (rest = [])\<rparr>"
    have "show_lines line s = rest # show_lines rest ?s"
      using stream_getline_end [OF 1(2), of line] 1(2,3) False by (subst show_lines.simps) simp
    also have "show_lines rest ?s = []"
      by (subst show_lines.simps) (simp add: good_def)
    finally show ?thesis
      using False read_lines_last [of rest] by (cases "rest = []") (auto dest: last_in_set)
  qed
qed

lemma put_all_writes:
  "good s \<Longrightarrow> pos s = length (content s) \<Longrightarrow>
     put_all cs s = s\<lparr>content := content s @ cs, pos := length (content s) + length cs\<rparr>"
  by (induction cs arbitrary: s) (simp_all add: stream_write_def good_def)

lemma show_chars_read:
  "good s \<Longrightarrow> drop (pos s) (content s) = rest \<Longrightarrow>
     show_chars ch s = rest @ [if rest = [] then ch else last rest]"
proof (induction rest arbitrary: s ch)
  case Nil
  then have "show_chars ch s = ch # show_chars ch (s\<lparr>eofbit := True, failbit := True\<rparr>)"
    by (subst show_chars.simps) (simp add: stream_get_def)
  then show ?case
    by (simp add: show_chars.simps [of _ "s\<lparr>eofbit := True, failbit := True\<rparr>"] good_def)
next
  case (Cons c rest)
  let ?s = "s\<lparr>pos := pos s + 1\<rparr>"
  have p: "pos s < length (content s)" "content s ! pos s = c"
    using Cons.prems(2) by (metis drop_eq_Nil list.distinct(1) not_le, metis Cons.prems(2) nth_via_drop)
  have "drop (pos ?s) (content ?s) = rest"
    using Cons.prems(2) tl_drop [of "pos s" "content s"] by (simp add: drop_Suc)
  then have "show_chars c ?s = rest @ [if rest = [] then c else last rest]"
    using Cons by (simp add: good_def)
  moreover have "show_chars ch s = c # show_chars c ?s"
    using Cons.prems(1) p by (subst show_chars.simps) (simp add: stream_get_def)
  ultimately show ?case by simp
qed

section \<open>Properties\<close>

text \<open>
  The loops that test \<^verbatim>\<open>good()\<close> before they read show too much. Reading a text file
  shows its lines and, when it is empty or ends with a newline, one more empty line; so
  does the program that appends a line first; and the character loop shows the last
  character, the terminator, twice.
\<close>

lemma good_loops_show_too_much:
  "read_file_main (Some t) = read_lines t @ (if t = [] \<or> last t = NL then [[]] else [])
   \<and> fstream_main True t = (read_lines (t @ ''Writing on file'' @ [NL]) @ [[]], t @ ''Writing on file'' @ [NL])
   \<and> binary_files_main True junk = ''Learning cpp file system'' @ [NUL, NUL]"
proof (intro conjI)
  have g: "good (open_stream c)" and d: "drop (pos (open_stream c)) (content (open_stream c)) = c" for c
    by (simp_all add: good_def open_stream_def)
  show "read_file_main (Some t) = read_lines t @ (if t = [] \<or> last t = NL then [[]] else [])"
    unfolding read_file_main_def option.case by (rule show_lines_read [OF g d])
  let ?t = "t @ ''Writing on file'' @ [NL]"
  have a: "seekg 0 (stream_append (''Writing on file'' @ [NL]) (open_stream t)) = open_stream ?t"
    by (simp add: seekg_def stream_append_def open_stream_def good_def)
  have l: "last ?t = NL"
    by simp
  have "show_lines [] (open_stream ?t) = read_lines ?t @ [[]]"
    unfolding show_lines_read [OF g d] l by (simp only: simp_thms if_True)
  moreover have "content (open_stream ?t) = ?t"
    by (simp add: open_stream_def)
  ultimately show "fstream_main True t = (read_lines ?t @ [[]], ?t)"
    unfolding fstream_main_def a by (simp only: not_True_eq_False if_False Let_def)
  let ?input = "''Learning cpp file system'' @ [NUL]"
  have "seekg 0 (put_all ?input (open_stream [])) = open_stream ?input"
    using put_all_writes [OF g, of "[]" ?input] by (simp add: open_stream_def seekg_def)
  then show "binary_files_main True junk = ''Learning cpp file system'' @ [NUL, NUL]"
    unfolding binary_files_main_def using show_chars_read [OF g d, of junk ?input] by simp
qed

lemma good_loops_show_too_much_witness:
  "snd (fstream_main True ''a'') = ''a'' @ ''Writing on file'' @ [NL]"
  using good_loops_show_too_much [of "''a''" NUL] by (metis snd_conv)

lemma person_name_length: "length (p_name (person_new name age)) = 80"
  by (simp add: person_new_def strncpy_79_def)

lemma person_name_kept: "c_string (p_name (person_new name age)) = take 79 (c_string name)"
proof -
  let ?c = "take 79 (c_string name)"
  have "NUL \<notin> set ?c"
    using nul_notin_c_string [of name] by (meson in_set_takeD)
  moreover have "p_name (person_new name age) = ?c @ NUL # replicate (79 - length ?c) NUL"
    by (simp add: person_new_def strncpy_79_def replicate_append_same)
  ultimately show ?thesis
    by (metis c_string_append_nul)
qed

lemma person_read_back:
  assumes "length (p_name p) = 80" and "length (p_name q) = 80"
  shows "fst (readFromFile order q (seekg 0 (writeToFile order p (open_stream [])))) = p"
proof -
  let ?file = "p_name p @ mem_bytes order (p_age p)"
  have "seekg 0 (writeToFile order p (open_stream []))
      = \<lparr>content = ?file, pos = 0, eofbit = False, failbit = False\<rparr>"
    by (simp add: writeToFile_def stream_write_def open_stream_def good_def seekg_def)
  moreover have "stream_read 80 (p_name q) \<lparr>content = ?file, pos = 0, eofbit = False, failbit = False\<rparr>
      = (p_name p, \<lparr>content = ?file, pos = 80, eofbit = False, failbit = False\<rparr>)"
    using assms by (simp add: stream_read_def good_def Let_def)
  moreover have "stream_read 4 (mem_bytes order (p_age q)) \<lparr>content = ?file, pos = 80, eofbit = False, failbit = False\<rparr>
      = (mem_bytes order (p_age p), \<lparr>content = ?file, pos = 84, eofbit = False, failbit = False\<rparr>)"
    using assms by (simp add: stream_read_def good_def Let_def)
  ultimately show ?thesis
    by (simp add: readFromFile_def)
qed

text \<open>
  The programs on \<^verbatim>\<open>veet.txt\<close> one after the other: it is written, shown, appended to and
  shown, and read from the third byte on.
\<close>

lemma text_file_programs:
  "snd (output_file_main True old) = Some (''Leading File system'' @ [NL] @ ''This is 2nd Line'' @ [NL])
   \<and> read_file_main (snd (output_file_main True old)) = [''Leading File system'', ''This is 2nd Line'', []]
   \<and> stream_position_main (snd (output_file_main True old)) = (Some 0, ''ding File system'', Some 20)
   \<and> snd (file_mngmnt_main True old) = Some [] \<and> read_file_main (snd (file_mngmnt_main True old)) = [[]]"
proof -
  let ?t = "''Leading File system'' @ [NL] @ ''This is 2nd Line'' @ [NL]"
  have w: "snd (output_file_main True old) = Some ?t"
    by (simp add: output_file_main_def stream_write_def open_stream_def good_def)
  have "read_lines ?t = [''Leading File system'', ''This is 2nd Line'']"
    by code_simp
  then have "read_file_main (Some ?t) = [''Leading File system'', ''This is 2nd Line'', []]"
    using good_loops_show_too_much [of ?t NUL] by simp
  moreover have "stream_position_main (Some ?t) = (Some 0, ''ding File system'', Some 20)"
    by code_simp
  moreover have "snd (file_mngmnt_main True old) = Some []"
    by (simp add: file_mngmnt_main_def)
  moreover have "read_file_main (Some []) = [[]]"
    using good_loops_show_too_much [of "[]" NUL] by simp
  ultimately show ?thesis using w by simp
qed

text \<open>
  C33: A person read back from the file is the person written, on every host and whatever
  the object read into held; a person made from a name introduces itself with the first 79
  characters of it; and the program prints the same line twice.
\<close>

theorem person_roundtrip:
  assumes "length (p_name p) = 80" and "length (p_name q) = 80" and "length junk = 80"
  shows "fst (readFromFile order q (seekg 0 (writeToFile order p (open_stream [])))) = p
    \<and> c_string (p_name (person_new name age)) = take 79 (c_string name)
    \<and> length (p_name (person_new name age)) = 80
    \<and> person_main order True junk = (replicate 2 (''Hi, I am Veet and I am 24 years old.'' @ [NL]), 0)"
proof (intro conjI)
  show "fst (readFromFile order q (seekg 0 (writeToFile order p (open_stream [])))) = p"
    by (rule person_read_back [OF assms(1,2)])
  show "c_string (p_name (person_new name age)) = take 79 (c_string name)"
    "length (p_name (person_new name age)) = 80"
    by (rule person_name_kept person_name_length)+
  have "length (p_name (person_default junk)) = 80"
    using assms(3) by (simp add: person_default_def)
  from person_read_back [OF person_name_length this, of order "''Veet''" 24]
  have "person_main order True junk = (replicate 2 (whoAreYou (person_new ''Veet'' 24)), 0)"
    by (simp add: person_main_def split_beta Let_def numeral_2_eq_2)
  also have "whoAreYou (person_new ''Veet'' 24) = ''Hi, I am Veet and I am 24 years old.'' @ [NL]"
    by code_simp
  finally show "person_main order True junk = (replicate 2 (''Hi, I am Veet and I am 24 years old.'' @ [NL]), 0)" .
qed

theorem person_roundtrip_witness:
  "fst (readFromFile Little (person_new ''x'' 1) (seekg 0 (writeToFile Little (person_new ''Veet'' 24) (open_stream []))))
     = person_new ''Veet'' 24
   \<and> person_main Little True (replicate 80 NUL) = (replicate 2 (''Hi, I am Veet and I am 24 years old.'' @ [NL]), 0)"
  using person_roundtrip [OF person_name_length [of "''Veet''" 24] person_name_length [of "''x''" 1] length_replicate [of 80 NUL],
      of Little] by blast

end
