(* ===== verification/Console_Programs.thy ===== *)
theory Console_Programs
  imports File_Streams
begin

text \<open>
  Programs that read the console: \<^verbatim>\<open>cpp/file_management/main.cpp\<close>, which echoes a line, and
  those of \<^verbatim>\<open>cpp/memory_management/\<close>, an array of numbers, an object and two pointers that
  are allocated, used and released. \<^verbatim>\<open>std::cin\<close> is a stream with its state flags.
\<close>

section \<open>Reading an int\<close>

definition unread :: "stream \<Rightarrow> string" where
  "unread s = drop (pos s) (content s)"

definition int_max :: int where "int_max = 2 ^ 31 - 1"
definition int_min :: int where "int_min = - (2 ^ 31)"

text \<open>
  \<^verbatim>\<open>cin >> v\<close> for an \<^verbatim>\<open>int\<close> that held \<open>old\<close>: a stream that is not good, or holds only white
  space, leaves it as it is; without digits it becomes 0, and a value that does not fit the
  nearest one that does, both with the fail flag. A read that looks behind the last
  character sets the end flag.
\<close>

definition stream_get_int :: "int \<Rightarrow> stream \<Rightarrow> int \<times> stream" where
  "stream_get_int old s =
     (if \<not> good s then (old, s\<lparr>failbit := True\<rparr>)
      else
        let rest = dropWhile is_space (unread s) in
        if rest = [] then (old, s\<lparr>pos := length (content s), eofbit := True, failbit := True\<rparr>)
        else
          let signed = hd rest \<in> {CHR ''-'', CHR ''+''};
              digits = takeWhile is_digit (if signed then tl rest else rest);
              behind = dropWhile is_digit (if signed then tl rest else rest);
              v = (if hd rest = CHR ''-'' then - int (dec_value 0 digits) else int (dec_value 0 digits));
              fits = (int_min \<le> v \<and> v \<le> int_max)
          in (if digits = [] then 0 else if fits then v else if v < 0 then int_min else int_max,
              s\<lparr>pos := length (content s) - length behind, eofbit := (behind = []),
                failbit := (digits = [] \<or> \<not> fits)\<rparr>))"

lemma decimal_forms:
  "\<exists>ds. ds \<noteq> [] \<and> (\<forall>c \<in> set ds. is_digit c) \<and> dec_value 0 ds = nat \<bar>v\<bar> \<and>
    decimal v = (if v < 0 then CHR ''-'' # ds else ds)"
  by (intro exI [of _ "dec (nat \<bar>v\<bar>)"]) (auto simp: decimal_def dest: dec_digits)

text \<open>A number that was printed is read back, and what follows it is left.\<close>

lemma get_int_decimal:
  assumes "good s" and "unread s = ws @ decimal v @ tail" and "\<forall>c \<in> set ws. is_space c"
    and "tail = [] \<or> \<not> is_digit (hd tail)" and "int_min \<le> v" and "v \<le> int_max"
  shows "\<exists>s'. stream_get_int old s = (v, s') \<and> unread s' = tail \<and>
    eofbit s' = (tail = []) \<and> \<not> failbit s'"
proof -
  obtain ds where ds: "ds \<noteq> []" "\<forall>c \<in> set ds. is_digit c" "dec_value 0 ds = nat \<bar>v\<bar>"
    "decimal v = (if v < 0 then CHR ''-'' # ds else ds)"
    using decimal_forms by blast
  have cut: "takeWhile is_digit (ds @ tail) = ds" "dropWhile is_digit (ds @ tail) = tail"
    using ds(2) assms(4) by (cases tail; simp add: takeWhile_append2 dropWhile_append2)+
  have first: "is_digit (hd (ds @ tail))"
    using ds(1,2) by (cases ds) auto
  have space: "\<not> is_space (hd (decimal v @ tail))"
    using ds(1,4) first is_digit_not_space by (auto simp: is_space_def split: if_splits)
  have "dropWhile is_space (decimal v @ tail) = decimal v @ tail"
    using space ds(1,4) by (cases "decimal v") (auto split: if_splits)
  then have rest: "dropWhile is_space (unread s) = decimal v @ tail"
    using assms(2,3) by (simp add: dropWhile_append2)
  have d: "drop (length (content s) - length tail) (content s) = tail"
  proof -
    have "content s = take (pos s) (content s) @ ws @ decimal v @ tail"
      using assms(2) unfolding unread_def by (metis append_take_drop_id)
    then obtain pre where "content s = pre @ tail" by (metis append.assoc)
    then show ?thesis by simp
  qed
  have sign: "hd (ds @ tail) \<noteq> CHR ''-''" "hd (ds @ tail) \<noteq> CHR ''+''"
    using is_digit_not_sign [OF first] by auto
  show ?thesis
  proof (cases "v < 0")
    case True
    then show ?thesis
      using assms(1,5,6) ds(1,3,4) rest cut d
      by (simp add: stream_get_int_def Let_def unread_def del: dropWhile_eq_Nil_conv)
  next
    case False
    then show ?thesis
      using assms(1,5,6) ds(1,3,4) rest cut d sign
      by (simp add: stream_get_int_def Let_def unread_def del: dropWhile_eq_Nil_conv)
  qed
qed

section \<open>The array\<close>

text \<open>The loop that reads the cells, which hold what \<^verbatim>\<open>new\<close> found in memory.\<close>

fun read_cells :: "int list \<Rightarrow> stream \<Rightarrow> int list \<times> stream" where
  "read_cells [] s = ([], s)"
| "read_cells (old # cells) s =
     (let (v, s') = stream_get_int old s; (vs, s'') = read_cells cells s' in (v # vs, s''))"

text \<open>
  \<^verbatim>\<open>main\<close> of \<^verbatim>\<open>dynamic_arr.cpp\<close>: \<open>num\<close> is the uninitialised variable, \<open>memory\<close> what the new
  array holds, \<open>allocates\<close> tells which sizes can be allocated; \<open>None\<close> when \<^verbatim>\<open>new\<close> throws,
  which ends the program.
\<close>

definition dynamic_arr_main ::
  "int \<Rightarrow> (nat \<Rightarrow> int) \<Rightarrow> (nat \<Rightarrow> bool) \<Rightarrow> string \<Rightarrow> string option" where
  "dynamic_arr_main num memory allocates input =
     (let (num, s) = stream_get_int num (open_stream input) in
      if num < 0 \<or> \<not> allocates (nat num) then None
      else
        let cells = fst (read_cells (map memory [0..<nat num]) s)
        in Some (concat (map (\<lambda>v. decimal v @ '' '') cells) @ [NL]))"

lemma read_cells_bad: "\<not> good s \<Longrightarrow> fst (read_cells cells s) = cells"
proof (induction cells arbitrary: s)
  case (Cons c cells)
  have "\<not> good (s\<lparr>failbit := True\<rparr>)" by (simp add: good_def)
  then show ?case
    using Cons by (simp add: stream_get_int_def split_beta)
qed simp

definition listed :: "int list \<Rightarrow> string" where
  "listed xs = concat (map (\<lambda>x. '' '' @ decimal x) xs)"

lemma listed_head: "listed xs = [] \<or> \<not> is_digit (hd (listed xs))"
  by (cases xs) (simp_all add: listed_def is_digit_def)

lemma listed_Nil_iff: "listed xs = [] \<longleftrightarrow> xs = []"
  by (cases xs) (simp_all add: listed_def)

lemma read_cells_listed:
  assumes "unread s = listed xs" and "eofbit s = (xs = [])" and "\<not> failbit s"
    and "\<forall>x \<in> set xs. int_min \<le> x \<and> x \<le> int_max" and "length xs \<le> length cells"
  shows "fst (read_cells cells s) = xs @ drop (length xs) cells"
  using assms
proof (induction xs arbitrary: s cells)
  case Nil
  then show ?case by (simp add: read_cells_bad good_def)
next
  case (Cons x xs)
  obtain old rest where cells: "cells = old # rest"
    using Cons.prems(5) by (cases cells) auto
  have g: "good s"
    using Cons.prems(2,3) by (simp add: good_def)
  have u: "unread s = '' '' @ decimal x @ listed xs"
    using Cons.prems(1) by (simp add: listed_def)
  obtain s' where "stream_get_int old s = (x, s')" "unread s' = listed xs" "eofbit s' = (listed xs = [])"
    "\<not> failbit s'"
    using get_int_decimal [OF g u _ listed_head, of old] Cons.prems(4) by (auto simp: is_space_def)
  then show ?case
    using Cons.IH [of s' rest] Cons.prems(4,5) by (simp add: cells split_beta listed_Nil_iff)
qed

text \<open>
  The numbers announced are printed back; those that are missing in the input are printed
  as whatever the new array held.
\<close>

lemma array_program_echoes:
  assumes "length xs \<le> n" and "int n \<le> int_max" and "allocates n"
    and "\<forall>x \<in> set xs. int_min \<le> x \<and> x \<le> int_max"
  shows "dynamic_arr_main num memory allocates (decimal (int n) @ listed xs) =
    Some (concat (map (\<lambda>v. decimal v @ '' '') (xs @ map memory [length xs..<n])) @ [NL])"
proof -
  let ?s = "open_stream (decimal (int n) @ listed xs)"
  have s: "good ?s" "unread ?s = [] @ decimal (int n) @ listed xs"
    by (simp_all add: open_stream_def good_def unread_def)
  have "int_min \<le> int n" by (simp add: int_min_def)
  then obtain s' where s': "stream_get_int num ?s = (int n, s')" "unread s' = listed xs"
    "eofbit s' = (listed xs = [])" "\<not> failbit s'"
    using get_int_decimal [OF s _ listed_head _ assms(2), of num] by auto
  have "fst (read_cells (map memory [0..<n]) s') = xs @ map memory [length xs..<n]"
    using read_cells_listed [OF s'(2) _ s'(4) assms(4), of "map memory [0..<n]"] s'(3) assms(1)
    by (simp add: listed_Nil_iff drop_map)
  then show ?thesis
    using s'(1) assms(3) by (simp add: dynamic_arr_main_def Let_def)
qed

lemma array_program_negative:
  assumes "v < 0" and "int_min \<le> v"
  shows "dynamic_arr_main num memory allocates (decimal v) = None"
proof -
  let ?s = "open_stream (decimal v)"
  have s: "good ?s" "unread ?s = [] @ decimal v @ []"
    by (simp_all add: open_stream_def good_def unread_def)
  have "v \<le> int_max" using assms(1) by (simp add: int_max_def)
  then obtain s' where "stream_get_int num ?s = (v, s')"
    using get_int_decimal [OF s _ _ assms(2), of num] by auto
  then show ?thesis
    using assms(1) by (simp add: dynamic_arr_main_def)
qed

section \<open>The object\<close>

record student = student_age :: int

definition student_new :: student where "student_new = \<lparr>student_age = 12\<rparr>"

definition get_age :: "student \<Rightarrow> string" where
  "get_age st = ''Age = '' @ decimal (student_age st) @ [NL]"

text \<open>
  \<^verbatim>\<open>main\<close> of \<^verbatim>\<open>dynamic_obj.cpp\<close> on a heap of students, with the free address \<open>ptr\<close> that
  \<^verbatim>\<open>new\<close> returns: what is printed, and the heap.
\<close>

definition dynamic_obj_main ::
  "nat \<Rightarrow> (nat \<rightharpoonup> student) \<Rightarrow> (string \<times> (nat \<rightharpoonup> student)) option" where
  "dynamic_obj_main ptr heap =
     (let heap1 = heap(ptr \<mapsto> student_new)
      in case heap1 ptr of None \<Rightarrow> None | Some st \<Rightarrow> Some (get_age st, heap1(ptr := None)))"

lemma dynamic_obj_no_leak:
  "heap ptr = None \<Longrightarrow> dynamic_obj_main ptr heap = Some (''Age = 12'' @ [NL], heap)"
proof -
  have "decimal 12 = ''12''" by code_simp
  then show "heap ptr = None \<Longrightarrow> dynamic_obj_main ptr heap = Some (''Age = 12'' @ [NL], heap)"
    by (simp add: dynamic_obj_main_def Let_def get_age_def student_new_def fun_upd_idem)
qed

section \<open>The pointers\<close>

text \<open>
  Numbers of the types \<^verbatim>\<open>double\<close> and \<^verbatim>\<open>float\<close> are fractions here. \<open>round_bits w\<close> is the nearest
  one with \<open>w\<close> significant bits, to even in the middle, of a fraction that is at least 1 and
  below \<open>2 ^ w\<close>.
\<close>

fun log2_floor :: "nat \<Rightarrow> nat" where
  "log2_floor n = (if n < 2 then 0 else Suc (log2_floor (n div 2)))"

declare log2_floor.simps [simp del]

definition round_div :: "nat \<Rightarrow> nat \<Rightarrow> nat" where
  "round_div a b =
     (let q = a div b; r = a mod b in if b < 2 * r \<or> b = 2 * r \<and> odd q then q + 1 else q)"

definition round_bits :: "nat \<Rightarrow> nat \<times> nat \<Rightarrow> nat \<times> nat" where
  "round_bits w v =
     (let (a, b) = v; k = w - 1 - log2_floor (a div b) in (round_div (a * 2 ^ k) b, 2 ^ k))"

text \<open>What \<^verbatim>\<open>operator<<\<close> shows of a fraction from 1 up to a million: six digits, without zeros at the end.\<close>

definition show_float :: "nat \<times> nat \<Rightarrow> string" where
  "show_float v =
     (let (a, b) = v;
          k = 6 - length (dec (a div b));
          s = dec (round_div (a * 10 ^ k) b);
          fraction = rev (dropWhile (\<lambda>c. c = CHR ''0'') (rev (drop (length s - k) s)))
      in take (length s - k) s @ (if fraction = [] then [] else CHR ''.'' # fraction))"

fun hex :: "nat \<Rightarrow> string" where
  "hex n =
     (let d = (if n mod 16 < 10 then digit_char (n mod 16) else char_of (n mod 16 + 87))
      in if n < 16 then [d] else hex (n div 16) @ [d])"

declare hex.simps [simp del]

text \<open>Of a pointer it shows the address.\<close>

definition show_pointer :: "nat \<Rightarrow> string" where
  "show_pointer p = (if p = 0 then ''0'' else ''0x'' @ hex p)"

datatype cell = Int_cell int | Float_cell "nat \<times> nat"

text \<open>
  \<^verbatim>\<open>main\<close> of \<^verbatim>\<open>memory_management/main.cpp\<close>: \<open>ptr_int\<close> is the uninitialised pointer, \<open>a\<close> and
  \<open>b\<close> are the addresses that \<^verbatim>\<open>new\<close> returns. The literal is a \<^verbatim>\<open>double\<close>. What is printed, and
  the heap.
\<close>

definition memory_main :: "nat \<Rightarrow> nat \<Rightarrow> nat \<Rightarrow> (nat \<rightharpoonup> cell) \<Rightarrow> (string list \<times> (nat \<rightharpoonup> cell)) option" where
  "memory_main ptr_int a b heap =
     (let heap1 = heap(a \<mapsto> Int_cell 45);
          heap2 = heap1(b \<mapsto> Float_cell (round_bits 24 (round_bits 53 (236, 10))))
      in case (heap1 a, heap2 b) of
           (Some (Int_cell i), Some (Float_cell v)) \<Rightarrow>
             Some ([show_pointer ptr_int @ [NL], decimal i @ [NL], show_pointer b @ [NL], show_float v @ [NL]],
                   heap2(a := None, b := None))
         | _ \<Rightarrow> None)"

lemma float_literal: "round_bits 24 (round_bits 53 (236, 10)) = (12373197, 2 ^ 19)"
proof -
  have l: "log2_floor 23 = 4"
    by (simp add: log2_floor.simps)
  have "round_bits 53 (236, 10) = (6642809450371482, 2 ^ 48)"
    by (simp add: round_bits_def l round_div_def)
  moreover have "round_bits 24 (6642809450371482, 2 ^ 48) = (12373197, 2 ^ 19)"
    by (simp add: round_bits_def l round_div_def)
  ultimately show ?thesis by simp
qed

lemma float_shown: "show_float (12373197, 2 ^ 19) = ''23.6''"
proof -
  have r: "round_div (12373197 * 10 ^ 4) (2 ^ 19) = 236000"
    by (simp add: round_div_def)
  have "digit_char 0 = CHR ''0''" "digit_char 2 = CHR ''2''" "digit_char 3 = CHR ''3''" "digit_char 6 = CHR ''6''"
    by code_simp+
  then have "dec 236000 = ''236000''" and "dec 23 = ''23''"
    by (simp_all add: dec.simps [of "numeral k" for k])
  then show ?thesis using r by (simp add: show_float_def)
qed

text \<open>
  The literal is not a \<^verbatim>\<open>float\<close>, but what is shown is its text; both objects are released, and
  what is shown first is whatever the pointer held.
\<close>

lemma memory_program:
  assumes "heap a = None" and "heap b = None" and "a \<noteq> b"
  shows "memory_main ptr_int a b heap =
    Some ([show_pointer ptr_int @ [NL], ''45'' @ [NL], show_pointer b @ [NL], ''23.6'' @ [NL]], heap)"
proof -
  have "decimal 45 = ''45''"
    by code_simp
  moreover have "heap(a := None, b := None) = heap"
    using assms by auto
  ultimately show ?thesis
    using assms(3) by (simp add: memory_main_def float_literal float_shown [simplified] fun_upd_twist)
qed

lemma show_pointer_example: "show_pointer 255 = ''0xff''" "show_pointer 0 = ''0''"
  by code_simp+

section \<open>The line\<close>

text \<open>\<^verbatim>\<open>main\<close> of \<^verbatim>\<open>file_management/main.cpp\<close>.\<close>

definition echo_line_main :: "string \<Rightarrow> string" where
  "echo_line_main input = fst (stream_getline [] (open_stream input)) @ [NL]"

lemma echo_line_first: "NL \<notin> set l \<Longrightarrow> echo_line_main (l @ NL # rest) = l @ [NL]"
  by (simp add: echo_line_main_def stream_getline_def open_stream_def good_def Let_def takeWhile_append_stop)

lemma echo_line_last: "NL \<notin> set l \<Longrightarrow> echo_line_main l = l @ [NL]"
  by (simp add: echo_line_main_def stream_getline_def open_stream_def good_def Let_def takeWhile_no_stop)

end
