(* ===== verification/KV_Shell.thy ===== *)
theory KV_Shell
  imports KV_Store Console_Programs
begin

text \<open>
  The interactive shell over the store, \<^verbatim>\<open>simple-kv-cpp/tests/developer_test.cpp\<close>: the
  choice of an engine from the arguments, the parsing of a command line, and the loop that
  reads lines from the console. The in-memory engine prints the lines of its scope logger to
  the same output; the shell therefore copies what a call adds to the engine's log into its
  own output, before the answer to the call.
\<close>

section \<open>Commands\<close>

datatype shell_command = Sh_exit | Sh_op kv_op | Sh_list | Sh_unknown

text \<open>
  The value of \<^verbatim>\<open>put\<close> is the rest of the line without one leading blank; a word that is
  missing is empty.
\<close>

definition put_value :: "string \<Rightarrow> string" where
  "put_value rest =
     (let value = (case getline rest of None \<Rightarrow> [] | Some (l, _) \<Rightarrow> l)
      in if value \<noteq> [] \<and> hd value = SPC then tl value else value)"

definition shell_parse :: "string \<Rightarrow> shell_command" where
  "shell_parse command =
     (let (cmd, rest) = next_token command; (key, rest') = next_token rest
      in if cmd = ''exit'' then Sh_exit
         else if cmd = ''put'' then Sh_op (Put key (put_value rest'))
         else if cmd = ''get'' then Sh_op (Get key)
         else if cmd = ''remove'' then Sh_op (Remove key)
         else if cmd = ''list'' then Sh_list
         else Sh_unknown)"

fun shell_reply :: "kv_op \<Rightarrow> kv_result \<Rightarrow> string" where
  "shell_reply (Put key value) r =
     (if r = Done True then ''Stored: '' @ key @ '' = '' @ value else ''Failed to store (empty key?)'') @ [NL]"
| "shell_reply (Get key) r =
     (case r of Value (Some v) \<Rightarrow> key @ '' = '' @ v | _ \<Rightarrow> ''Key not found: '' @ key) @ [NL]"
| "shell_reply (Remove key) r =
     (if r = Done True then ''Removed: '' @ key else ''Key not found: '' @ key) @ [NL]"

definition list_text :: string where
  "list_text = ''List command not implemented in current API.'' @ NL #
     ''To list keys, you'd need to extend the interface.'' @ [NL]"

definition unknown_text :: string where
  "unknown_text = ''Unknown command. Try: put, get, remove, list, exit'' @ [NL]"

section \<open>The loop\<close>

record 's kv_shell =
  sh_in :: stream
  sh_command :: string
  sh_store :: "'s key_value_store"
  sh_log :: "'s \<Rightarrow> string list"
  sh_out :: "string list"

text \<open>Lines on the console, and the ones an engine with the log \<open>f\<close> has printed between two states.\<close>

definition lines_out :: "string list \<Rightarrow> string list" where
  "lines_out ls = map (\<lambda>l. l @ [NL]) ls"

definition printed :: "('s \<Rightarrow> string list) \<Rightarrow> 's \<Rightarrow> 's \<Rightarrow> string list" where
  "printed f e e' = lines_out (drop (length (f e)) (f e'))"

definition shell_execute :: "'s kv_shell \<Rightarrow> bool \<times> 's kv_shell" where
  "shell_execute sh =
     (if sh_command sh = [] then (True, sh)
      else
        (case shell_parse (sh_command sh) of
           Sh_exit \<Rightarrow> (False, sh)
         | Sh_op x \<Rightarrow>
             (let (r, st) = kvs_step (sh_store sh) x
              in (True, sh\<lparr>sh_store := st,
                    sh_out := sh_out sh @ printed (sh_log sh) (kvs_engine (sh_store sh)) (kvs_engine st)
                      @ [shell_reply x r]\<rparr>))
         | Sh_list \<Rightarrow> (True, sh\<lparr>sh_out := sh_out sh @ [list_text]\<rparr>)
         | Sh_unknown \<Rightarrow> (True, sh\<lparr>sh_out := sh_out sh @ [unknown_text]\<rparr>)))"

text \<open>One pass of \<^verbatim>\<open>while (true)\<close>; the result tells whether the loop goes on.\<close>

definition shell_pass :: "'s kv_shell \<Rightarrow> bool \<times> 's kv_shell" where
  "shell_pass sh =
     (let (command, s) = stream_getline (sh_command sh) (sh_in sh)
      in shell_execute (sh\<lparr>sh_in := s, sh_command := command, sh_out := sh_out sh @ [''> '']\<rparr>))"

text \<open>At most \<open>n\<close> passes; \<open>True\<close> when the loop has not been left by then.\<close>

fun shell_loop :: "nat \<Rightarrow> 's kv_shell \<Rightarrow> bool \<times> 's kv_shell" where
  "shell_loop 0 sh = (True, sh)"
| "shell_loop (Suc n) sh =
     (let (goes_on, sh') = shell_pass sh in if goes_on then shell_loop n sh' else (False, sh'))"

section \<open>The program\<close>

datatype engine_choice = Wrong_arguments "string list" | In_memory "string list" | In_file string "string list"

definition choose_engine :: "string list \<Rightarrow> engine_choice" where
  "choose_engine argv =
     (if length argv < 2
      then Wrong_arguments [''Usage: '' @ argv ! 0 @ '' <storage_type> [file_path]'' @ [NL],
             ''Storage types: memory, file'' @ [NL],
             ''For file storage, provide the file path as second argument.'' @ [NL]]
      else if argv ! 1 = ''memory'' then In_memory [''Using in-memory storage.'' @ [NL]]
      else if argv ! 1 = ''file''
      then (if length argv < 3 then Wrong_arguments [''File path required for file storage.'' @ [NL]]
            else In_file (argv ! 2) [''Using file-based storage: '' @ quoted (argv ! 2) @ [NL]])
      else Wrong_arguments [''Invalid storage type. Use 'memory' or 'file'.'' @ [NL]])"

definition shell_banner :: "string list" where
  "shell_banner = [''Key-Value Store Developer Test Utility'' @ [NL],
     ''Commands: put <key> <value>, get <key>, remove <key>, list, exit'' @ [NL]]"

definition shell_start :: "'s engine_vtable \<Rightarrow> ('s \<Rightarrow> string list) \<Rightarrow> 's \<Rightarrow> string \<Rightarrow> 's kv_shell" where
  "shell_start vt f e input =
     \<lparr>sh_in = open_stream input, sh_command = [], sh_store = \<lparr>kvs_vtable = vt, kvs_engine = e\<rparr>,
      sh_log = f, sh_out = shell_banner\<rparr>"

text \<open>What the engines print to \<^verbatim>\<open>std::cout\<close>: the file-based one nothing.\<close>

definition file_cout :: "file_engine \<Rightarrow> string list" where
  "file_cout e = []"

text \<open>Whether \<^verbatim>\<open>main\<close> has returned within \<open>n\<close> passes, with which status, and what it printed.\<close>

definition shell_finish :: "bool \<times> 's kv_shell \<Rightarrow> int option \<times> string list" where
  "shell_finish r =
     (if fst r then (None, sh_out (snd r)) else (Some 0, sh_out (snd r) @ [''Goodbye!'' @ [NL]]))"

text \<open>The file of the disk that a path names.\<close>

definition open_at :: "(string \<Rightarrow> disk_file) \<Rightarrow> string \<Rightarrow> disk_file" where
  "open_at disk path = (disk path)\<lparr>file_path := path\<rparr>"

lemma open_at_contents [simp]: "file_contents (file_new (open_at disk path)) = file_contents (file_new (disk path))"
  by (simp add: open_at_def file_contents_def file_new_store open_read_def)

definition developer_main ::
  "nat \<Rightarrow> ((string \<times> string) list \<Rightarrow> (string \<times> string) list) \<Rightarrow> (string \<Rightarrow> disk_file) \<Rightarrow>
    string list \<Rightarrow> string \<Rightarrow> int option \<times> string list" where
  "developer_main n iter disk argv input =
     (case choose_engine argv of
        Wrong_arguments out \<Rightarrow> (Some 1, out)
      | In_memory out \<Rightarrow>
          (let (status, out') = shell_finish (shell_loop n (shell_start memory_vtable me_cout mem_new input))
           in (status, out @ out'))
      | In_file path out \<Rightarrow>
          (let (status, out') =
             shell_finish (shell_loop n (shell_start (file_vtable iter) file_cout (file_new (open_at disk path)) input))
           in (status, out @ out')))"

section \<open>The shell over the abstract map\<close>

text \<open>
  What the lines before \<^verbatim>\<open>exit\<close> should print, with the lines \<open>noise x\<close> that the engine prints
  during the call \<open>x\<close>.
\<close>

fun shell_spec :: "(kv_op \<Rightarrow> string list) \<Rightarrow> (string \<rightharpoonup> string) \<Rightarrow> string list \<Rightarrow> string list" where
  "shell_spec noise m [] = []"
| "shell_spec noise m (l # ls) =
     ''> '' #
     (if l = [] then shell_spec noise m ls
      else
        (case shell_parse l of
           Sh_exit \<Rightarrow> []
         | Sh_op x \<Rightarrow>
             (let (r, m') = spec_step m x
              in lines_out (noise x) @ shell_reply x r # shell_spec noise m' ls)
         | Sh_list \<Rightarrow> list_text # shell_spec noise m ls
         | Sh_unknown \<Rightarrow> unknown_text # shell_spec noise m ls))"

definition silent :: "kv_op \<Rightarrow> string list" where
  "silent x = []"

definition ended :: "string list \<Rightarrow> string" where
  "ended ls = concat (map (\<lambda>l. l @ [NL]) ls)"

lemma ended_simps [simp]: "ended [] = []" "ended (l # ls) = l @ NL # ended ls"
  by (simp_all add: ended_def)

lemma shell_pass_line:
  assumes "good (sh_in sh)" and "unread (sh_in sh) = l @ NL # rest" and "NL \<notin> set l"
  obtains s where "shell_pass sh = shell_execute (sh\<lparr>sh_in := s, sh_command := l, sh_out := sh_out sh @ [''> '']\<rparr>)"
    and "good s" and "unread s = rest"
proof
  let ?s = "sh_in sh\<lparr>pos := pos (sh_in sh) + length l + 1\<rparr>"
  show "shell_pass sh = shell_execute (sh\<lparr>sh_in := ?s, sh_command := l, sh_out := sh_out sh @ [''> '']\<rparr>)"
    using stream_getline_stop [OF assms(1) assms(2) [unfolded unread_def] assms(3)] by (simp add: shell_pass_def)
  show "good ?s" using assms(1) by (simp add: good_def)
  have "drop (length l + 1) (unread (sh_in sh)) = rest"
    using assms(2) by simp
  then show "unread ?s = rest"
    by (simp add: unread_def add.commute)
qed

text \<open>An engine whose log grows by what is known of each call.\<close>

locale printing_engine = storage_engine vt contents inv
  for vt :: "'s engine_vtable" and contents :: "'s \<Rightarrow> (string \<rightharpoonup> string)" and inv :: "'s \<Rightarrow> bool" +
  fixes cout :: "'s \<Rightarrow> string list"
    and noise :: "kv_op \<Rightarrow> string list"
  assumes step_log:
    "kvs_vtable st = vt \<Longrightarrow> cout (kvs_engine (snd (kvs_step st x))) = cout (kvs_engine st) @ noise x"
begin

definition over :: "'s kv_shell \<Rightarrow> bool" where
  "over sh \<longleftrightarrow> kvs_vtable (sh_store sh) = vt \<and> inv (kvs_engine (sh_store sh)) \<and> sh_log sh = cout"

lemma step_printed:
  "kvs_vtable st = vt \<Longrightarrow> printed cout (kvs_engine st) (kvs_engine (snd (kvs_step st x))) = lines_out (noise x)"
  by (simp add: printed_def step_log)

lemma execute_refines:
  assumes "over sh" and "sh_command sh = [] \<or> shell_parse (sh_command sh) \<noteq> Sh_exit"
  shows "\<exists>sh'. shell_execute sh = (True, sh') \<and> over sh' \<and> sh_in sh' = sh_in sh \<and>
    (\<forall>ls. sh_out sh' @ shell_spec noise (contents (kvs_engine (sh_store sh'))) ls
       = sh_out sh @ tl (shell_spec noise (contents (kvs_engine (sh_store sh))) (sh_command sh # ls)))"
proof (cases "sh_command sh = []")
  case True
  then show ?thesis
    using assms(1) by (intro exI [of _ sh]) (simp_all add: shell_execute_def)
next
  case False
  show ?thesis
  proof (cases "shell_parse (sh_command sh)")
    case (Sh_op x)
    let ?st = "snd (kvs_step (sh_store sh) x)"
    let ?sh = "sh\<lparr>sh_store := ?st, sh_out := sh_out sh @ lines_out (noise x)
      @ [shell_reply x (fst (kvs_step (sh_store sh) x))]\<rparr>"
    have o: "kvs_vtable (sh_store sh) = vt" "inv (kvs_engine (sh_store sh))"
      and c: "sh_log sh = cout"
      using assms(1) by (simp_all add: over_def)
    note r = step_refines [OF o, of x]
    show ?thesis
    proof (intro exI [of _ ?sh] conjI allI)
      show "shell_execute sh = (True, ?sh)"
        using False Sh_op by (simp add: shell_execute_def split_beta c step_printed [OF o(1)])
      show "over ?sh"
        using o r(3) c by (simp add: over_def)
      show "sh_out ?sh @ shell_spec noise (contents (kvs_engine (sh_store ?sh))) ls
          = sh_out sh @ tl (shell_spec noise (contents (kvs_engine (sh_store sh))) (sh_command sh # ls))" for ls
        using False Sh_op by (simp add: split_beta r(1,2))
    qed simp
  next
    case Sh_list
    then show ?thesis
      using assms(1) False
      by (intro exI [of _ "sh\<lparr>sh_out := sh_out sh @ [list_text]\<rparr>"]) (simp_all add: shell_execute_def over_def)
  next
    case Sh_unknown
    then show ?thesis
      using assms(1) False
      by (intro exI [of _ "sh\<lparr>sh_out := sh_out sh @ [unknown_text]\<rparr>"]) (simp_all add: shell_execute_def over_def)
  qed (use assms(2) False in simp)
qed

text \<open>The lines before \<^verbatim>\<open>exit\<close>, and the one that leaves the loop.\<close>

lemma loop_refines:
  assumes "over sh" and "good (sh_in sh)" and "unread (sh_in sh) = ended ls @ rest"
    and "\<forall>l \<in> set ls. NL \<notin> set l \<and> (l = [] \<or> shell_parse l \<noteq> Sh_exit)"
  shows "\<exists>sh'. shell_loop (length ls + n) sh = shell_loop n sh' \<and> over sh' \<and> good (sh_in sh') \<and>
    unread (sh_in sh') = rest \<and>
    (\<forall>xs. sh_out sh' @ shell_spec noise (contents (kvs_engine (sh_store sh'))) xs
       = sh_out sh @ shell_spec noise (contents (kvs_engine (sh_store sh))) (ls @ xs))"
  using assms
proof (induction ls arbitrary: sh)
  case Nil
  then show ?case by auto
next
  case (Cons l ls)
  obtain s where p: "shell_pass sh = shell_execute (sh\<lparr>sh_in := s, sh_command := l, sh_out := sh_out sh @ [''> '']\<rparr>)"
    and s: "good s" "unread s = ended ls @ rest"
    using shell_pass_line [OF Cons.prems(2), of l "ended ls @ rest"] Cons.prems(3,4) by auto
  let ?sh = "sh\<lparr>sh_in := s, sh_command := l, sh_out := sh_out sh @ [''> '']\<rparr>"
  have ov: "over ?sh"
    using Cons.prems(1) by (simp add: over_def)
  have ex: "sh_command ?sh = [] \<or> shell_parse (sh_command ?sh) \<noteq> Sh_exit"
    using Cons.prems(4) by auto
  obtain sh1 where e: "shell_execute ?sh = (True, sh1)" "over sh1" "sh_in sh1 = sh_in ?sh"
    "\<forall>ls. sh_out sh1 @ shell_spec noise (contents (kvs_engine (sh_store sh1))) ls
       = sh_out ?sh @ tl (shell_spec noise (contents (kvs_engine (sh_store ?sh))) (sh_command ?sh # ls))"
    using execute_refines [OF ov ex] by blast
  obtain sh' where "shell_loop (length ls + n) sh1 = shell_loop n sh'" "over sh'" "good (sh_in sh')"
    "unread (sh_in sh') = rest"
    "\<forall>xs. sh_out sh' @ shell_spec noise (contents (kvs_engine (sh_store sh'))) xs
       = sh_out sh1 @ shell_spec noise (contents (kvs_engine (sh_store sh1))) (ls @ xs)"
    using Cons.IH [OF e(2)] e(3) s Cons.prems(4) by auto
  then show ?case
    using p e(1) e(4) by (intro exI [of _ sh']) simp
qed

lemma exits:
  assumes "over sh" and "good (sh_in sh)" and "unread (sh_in sh) = ended (ls @ [l]) @ rest"
    and "\<forall>l \<in> set ls. NL \<notin> set l \<and> (l = [] \<or> shell_parse l \<noteq> Sh_exit)"
    and "NL \<notin> set l" and "l \<noteq> []" and "shell_parse l = Sh_exit"
  shows "\<exists>sh'. shell_loop (length ls + 1 + k) sh = (False, sh') \<and>
    sh_out sh' = sh_out sh @ shell_spec noise (contents (kvs_engine (sh_store sh))) ls @ [''> '']"
proof -
  have "unread (sh_in sh) = ended ls @ (l @ NL # rest)"
    using assms(3) by (simp add: ended_def)
  then obtain sh1 where sh1: "shell_loop (length ls + Suc k) sh = shell_loop (Suc k) sh1" "good (sh_in sh1)"
    "unread (sh_in sh1) = l @ NL # rest"
    "\<forall>xs. sh_out sh1 @ shell_spec noise (contents (kvs_engine (sh_store sh1))) xs
       = sh_out sh @ shell_spec noise (contents (kvs_engine (sh_store sh))) (ls @ xs)"
    using loop_refines [OF assms(1,2) _ assms(4), of "l @ NL # rest" "Suc k"] by blast
  obtain s where "shell_pass sh1 = shell_execute (sh1\<lparr>sh_in := s, sh_command := l, sh_out := sh_out sh1 @ [''> '']\<rparr>)"
    using shell_pass_line [OF sh1(2,3) assms(5)] by blast
  then show ?thesis
    using sh1(1) spec [OF sh1(4), of "[]"] assms(6,7) by (simp add: shell_execute_def)
qed

text \<open>Once the input has ended a pass executes the last command again.\<close>

lemma loop_repeats:
  assumes "over sh" and "\<not> good (sh_in sh)" and "sh_command sh = l" and "l = [] \<or> shell_parse l \<noteq> Sh_exit"
  shows "\<exists>sh'. shell_loop n sh = (True, sh') \<and>
    sh_out sh' = sh_out sh @ shell_spec noise (contents (kvs_engine (sh_store sh))) (replicate n l)"
  using assms
proof (induction n arbitrary: sh)
  case (Suc n)
  let ?sh = "sh\<lparr>sh_in := sh_in sh\<lparr>failbit := True\<rparr>, sh_command := l, sh_out := sh_out sh @ [''> '']\<rparr>"
  have p: "shell_pass sh = shell_execute ?sh"
    using Suc.prems(2,3) by (simp add: shell_pass_def stream_getline_def)
  have ov: "over ?sh"
    using Suc.prems(1) by (simp add: over_def)
  obtain sh1 where e: "shell_execute ?sh = (True, sh1)" "over sh1" "sh_in sh1 = sh_in ?sh"
    "\<forall>ls. sh_out sh1 @ shell_spec noise (contents (kvs_engine (sh_store sh1))) ls
       = sh_out ?sh @ tl (shell_spec noise (contents (kvs_engine (sh_store ?sh))) (sh_command ?sh # ls))"
    using execute_refines [OF ov] Suc.prems(4) by auto
  have c: "sh_command sh1 = l"
    using e(1) by (auto simp: shell_execute_def split: if_splits shell_command.splits prod.splits)
  have "\<not> good (sh_in sh1)"
    by (simp add: e(3) good_def)
  then obtain sh' where "shell_loop n sh1 = (True, sh')"
    "sh_out sh' = sh_out sh1 @ shell_spec noise (contents (kvs_engine (sh_store sh1))) (replicate n l)"
    using Suc.IH [OF e(2) _ c Suc.prems(4)] by blast
  then show ?case
    using p e(1) spec [OF e(4), of "replicate n l"] by (intro exI [of _ sh']) simp
qed simp

lemma end_repeats:
  assumes "over sh" and "good (sh_in sh)" and "unread (sh_in sh) = l" and "NL \<notin> set l"
    and "l = [] \<or> shell_parse l \<noteq> Sh_exit"
  shows "\<exists>sh'. shell_loop n sh = (True, sh') \<and>
    sh_out sh' = sh_out sh @ shell_spec noise (contents (kvs_engine (sh_store sh))) (replicate n l)"
proof (cases n)
  case (Suc k)
  let ?s = "sh_in sh\<lparr>pos := pos (sh_in sh) + length l, eofbit := True, failbit := (l = [])\<rparr>"
  let ?sh = "sh\<lparr>sh_in := ?s, sh_command := l, sh_out := sh_out sh @ [''> '']\<rparr>"
  have p: "shell_pass sh = shell_execute ?sh"
    using stream_getline_end [OF assms(2), of "sh_command sh"] assms(4)
    unfolding assms(3) [unfolded unread_def] by (simp add: shell_pass_def)
  have ov: "over ?sh"
    using assms(1) by (simp add: over_def)
  obtain sh1 where e: "shell_execute ?sh = (True, sh1)" "over sh1" "sh_in sh1 = sh_in ?sh"
    "\<forall>ls. sh_out sh1 @ shell_spec noise (contents (kvs_engine (sh_store sh1))) ls
       = sh_out ?sh @ tl (shell_spec noise (contents (kvs_engine (sh_store ?sh))) (sh_command ?sh # ls))"
    using execute_refines [OF ov] assms(5) by auto
  have c: "sh_command sh1 = l"
    using e(1) by (auto simp: shell_execute_def split: if_splits shell_command.splits prod.splits)
  have "\<not> good (sh_in sh1)"
    by (simp add: e(3) good_def)
  then obtain sh' where "shell_loop k sh1 = (True, sh')"
    "sh_out sh' = sh_out sh1 @ shell_spec noise (contents (kvs_engine (sh_store sh1))) (replicate k l)"
    using loop_repeats [OF e(2) _ c assms(5)] by blast
  then show ?thesis
    using Suc p e(1) spec [OF e(4), of "replicate k l"] by (intro exI [of _ sh']) simp
qed simp

lemma start_over: "inv e \<Longrightarrow> over (shell_start vt cout e input)"
  by (simp add: over_def shell_start_def)

text \<open>The shell from its start: with a line \<^verbatim>\<open>exit\<close>, and without one.\<close>

lemma shell_exits:
  assumes "inv e" and "\<forall>l \<in> set ls. NL \<notin> set l \<and> (l = [] \<or> shell_parse l \<noteq> Sh_exit)"
    and "NL \<notin> set l" and "l \<noteq> []" and "shell_parse l = Sh_exit" and "length ls < n"
  shows "shell_finish (shell_loop n (shell_start vt cout e (ended (ls @ [l]) @ rest))) =
    (Some 0, shell_banner @ shell_spec noise (contents e) ls @ [''> '', ''Goodbye!'' @ [NL]])"
proof -
  let ?sh = "shell_start vt cout e (ended (ls @ [l]) @ rest)"
  have s: "good (sh_in ?sh)" "unread (sh_in ?sh) = ended (ls @ [l]) @ rest"
    by (simp_all add: shell_start_def open_stream_def good_def unread_def)
  obtain k where "n = length ls + 1 + k"
    using assms(6) less_eqE [of "length ls + 1" n] by auto
  then show ?thesis
    using exits [OF start_over [OF assms(1)] s assms(2-5), of k]
    by (auto simp: shell_finish_def) (simp_all add: shell_start_def)
qed

lemma shell_goes_on:
  assumes "inv e" and "\<forall>l \<in> set (ls @ [l]). NL \<notin> set l \<and> (l = [] \<or> shell_parse l \<noteq> Sh_exit)"
  shows "shell_finish (shell_loop (length ls + n) (shell_start vt cout e (ended ls @ l))) =
    (None, shell_banner @ shell_spec noise (contents e) (ls @ replicate n l))"
proof -
  let ?sh = "shell_start vt cout e (ended ls @ l)"
  have s: "good (sh_in ?sh)" "unread (sh_in ?sh) = ended ls @ l"
    by (simp_all add: shell_start_def open_stream_def good_def unread_def)
  have ls: "\<forall>l \<in> set ls. NL \<notin> set l \<and> (l = [] \<or> shell_parse l \<noteq> Sh_exit)"
    and l: "NL \<notin> set l" "l = [] \<or> shell_parse l \<noteq> Sh_exit"
    using assms(2) by auto
  obtain sh1 where sh1: "shell_loop (length ls + n) ?sh = shell_loop n sh1" "over sh1" "good (sh_in sh1)"
    "unread (sh_in sh1) = l"
    "\<forall>xs. sh_out sh1 @ shell_spec noise (contents (kvs_engine (sh_store sh1))) xs
       = sh_out ?sh @ shell_spec noise (contents (kvs_engine (sh_store ?sh))) (ls @ xs)"
    using loop_refines [OF start_over [OF assms(1)] s ls, of n] by blast
  obtain sh' where "shell_loop n sh1 = (True, sh')"
    "sh_out sh' = sh_out sh1 @ shell_spec noise (contents (kvs_engine (sh_store sh1))) (replicate n l)"
    using end_repeats [OF sh1(2-4) l] by blast
  then show ?thesis
    using sh1(1) spec [OF sh1(5), of "replicate n l"]
    by (simp add: shell_finish_def) (simp add: shell_start_def)
qed

end

interpretation shm: printing_engine memory_vtable mem_contents mem_inv me_cout op_log
  by unfold_locales (rule mem_step_log)

lemma file_step_log: "file_cout (kvs_engine (snd (kvs_step st x))) = file_cout (kvs_engine st) @ silent x"
  by (simp add: file_cout_def silent_def)

interpretation shf: printing_engine "file_vtable iter" file_contents file_inv file_cout silent
  for iter :: "(string \<times> string) list \<Rightarrow> (string \<times> string) list"
  by unfold_locales (rule file_step_log)

section \<open>Writing commands\<close>

text \<open>A call as the line that asks for it; keys are words, values end with their line.\<close>

fun shell_line :: "kv_op \<Rightarrow> string" where
  "shell_line (Put key value) = ''put '' @ key @ '' '' @ value"
| "shell_line (Get key) = ''get '' @ key"
| "shell_line (Remove key) = ''remove '' @ key"

definition word_key :: "string \<Rightarrow> bool" where
  "word_key key \<longleftrightarrow> key \<noteq> [] \<and> list_all (\<lambda>c. \<not> is_space c) key"

fun typeable :: "kv_op \<Rightarrow> bool" where
  "typeable (Put key value) \<longleftrightarrow> word_key key \<and> NL \<notin> set value"
| "typeable (Get key) \<longleftrightarrow> word_key key"
| "typeable (Remove key) \<longleftrightarrow> word_key key"

lemma next_token_all: "word_key w \<Longrightarrow> next_token w = (w, [])"
  by (cases w) (auto simp: next_token_def word_key_def Let_def list_all_iff takeWhile_eq_all_conv)

lemma next_token_blank: "word_key w \<Longrightarrow> next_token (w @ SPC # rest) = (w, SPC # rest)"
  by (rule next_token_word) (auto simp: word_key_def list_all_iff is_space_def)

lemma shell_parse_line: "typeable x \<Longrightarrow> shell_parse (shell_line x) = Sh_op x"
proof (cases x)
  case (Put key val)
  assume "typeable x"
  then have k: "word_key key" and nl: "NL \<notin> set val" by (simp_all add: Put)
  have "word_key ''put''" by (simp add: word_key_def is_space_def)
  then have "next_token (shell_line x) = (''put'', SPC # key @ SPC # val)"
    using next_token_blank [of "''put''" "key @ SPC # val"] by (simp add: Put)
  moreover have "next_token (SPC # key @ SPC # val) = (key, SPC # val)"
    using next_token_blank [OF k] by (simp add: next_token_space is_space_def)
  moreover have "put_value (SPC # val) = val"
    using nl by (simp add: put_value_def getline_def takeWhile_no_stop)
  ultimately show ?thesis by (simp add: shell_parse_def Put)
next
  case (Get key)
  assume "typeable x"
  then have k: "word_key key" by (simp add: Get)
  have "word_key ''get''" by (simp add: word_key_def is_space_def)
  then have "next_token (shell_line x) = (''get'', SPC # key)"
    using next_token_blank [of "''get''" key] by (simp add: Get)
  moreover have "next_token (SPC # key) = (key, [])"
    using next_token_all [OF k] by (simp add: next_token_space is_space_def)
  ultimately show ?thesis by (simp add: shell_parse_def Get)
next
  case (Remove key)
  assume "typeable x"
  then have k: "word_key key" by (simp add: Remove)
  have "word_key ''remove''" by (simp add: word_key_def is_space_def)
  then have "next_token (shell_line x) = (''remove'', SPC # key)"
    using next_token_blank [of "''remove''" key] by (simp add: Remove)
  moreover have "next_token (SPC # key) = (key, [])"
    using next_token_all [OF k] by (simp add: next_token_space is_space_def)
  ultimately show ?thesis by (simp add: shell_parse_def Remove)
qed

lemma shell_spec_calls:
  "list_all typeable xs \<Longrightarrow> shell_spec noise m (map shell_line xs) =
    concat (map2 (\<lambda>x r. ''> '' # lines_out (noise x) @ [shell_reply x r]) xs (fst (spec_run m xs)))"
proof (induction xs arbitrary: m)
  case (Cons x xs)
  have "shell_line x \<noteq> []" by (cases x) simp_all
  then show ?case
    using Cons shell_parse_line [of x] by (simp add: split_beta)
qed simp

section \<open>Properties\<close>

text \<open>
  C13: the shell. For lines that do not ask to exit, followed by \<^verbatim>\<open>exit\<close>, the program returns
  0 and prints for each line what the abstract map answers: over memory the map that is empty
  at first, over a file the one that the file holds; nothing behind \<^verbatim>\<open>exit\<close> is read. Over memory
  the two lines of the scope logger come before the answer to each call; a file prints
  nothing of its own. When the lines are those of calls, the answers are the results of the
  calls.
\<close>

theorem shell_refines_map:
  assumes "\<forall>l \<in> set ls. NL \<notin> set l \<and> (l = [] \<or> shell_parse l \<noteq> Sh_exit)" and "length ls < n"
  shows "developer_main n iter disk [prog, ''memory''] (ended (ls @ [''exit'']) @ rest) =
      (Some 0, (''Using in-memory storage.'' @ [NL]) # shell_banner @ shell_spec op_log Map.empty ls
        @ [''> '', ''Goodbye!'' @ [NL]]) \<and>
    developer_main n iter disk [prog, ''file'', path] (ended (ls @ [''exit'']) @ rest) =
      (Some 0, (''Using file-based storage: '' @ quoted path @ [NL]) # shell_banner
        @ shell_spec silent (file_contents (file_new (disk path))) ls @ [''> '', ''Goodbye!'' @ [NL]]) \<and>
    (list_all typeable xs \<longrightarrow> shell_spec noise m (map shell_line xs) =
      concat (map2 (\<lambda>x r. ''> '' # lines_out (noise x) @ [shell_reply x r]) xs (fst (spec_run m xs))))"
proof -
  have e: "shell_parse ''exit'' = Sh_exit" by code_simp
  have n: "NL \<notin> set ''exit''" "''exit'' \<noteq> []" by simp_all
  show ?thesis
    using shm.shell_exits [OF mem_new_inv assms(1) n e assms(2), where rest = rest]
      shf.shell_exits [OF file_new_inv [of "open_at disk path"] assms(1) n e assms(2), where rest = rest and iter = iter]
      shell_spec_calls [of xs noise m]
    by (simp add: developer_main_def choose_engine_def mem_new_contents)
qed

lemma shell_refines_map_witness:
  "developer_main 3 rev (\<lambda>_. \<lparr>file_path = ''db'', bytes = None, readable = True, writable = True\<rparr>) [''kv'', ''memory''] (ended ([''put k  v'', ''get k''] @ [''exit'']) @ ''get k'') =
    (Some 0, [''Using in-memory storage.'' @ [NL]] @ shell_banner
      @ [''> '', ''[ENTER] InMemoryStorageEngine::write'' @ [NL], ''[EXIT ] InMemoryStorageEngine::write'' @ [NL],
         ''Stored: k =  v'' @ [NL],
         ''> '', ''[ENTER] InMemoryStorageEngine::read'' @ [NL], ''[EXIT ] InMemoryStorageEngine::read'' @ [NL],
         ''k =  v'' @ [NL], ''> '', ''Goodbye!'' @ [NL]])"
proof -
  have p: "shell_parse ''put k  v'' = Sh_op (Put ''k'' '' v'')" "shell_parse ''get k'' = Sh_op (Get ''k'')"
    by code_simp+
  then have "\<forall>l \<in> set [''put k  v'', ''get k'']. NL \<notin> set l \<and> (l = [] \<or> shell_parse l \<noteq> Sh_exit)"
    by simp
  moreover have "length [''put k  v'', ''get k''] < 3" by simp
  ultimately show ?thesis
    using shell_refines_map [of "[''put k  v'', ''get k'']" 3 rev "\<lambda>_. \<lparr>file_path = ''db'', bytes = None, readable = True, writable = True\<rparr>" "''kv''" "''get k''"] p
    by (simp add: lines_out_def scope_pair_def scope_enter_def scope_exit_def)
qed

text \<open>
  The end of the input. Without \<^verbatim>\<open>exit\<close> the program never returns: it executes the last
  line again and again when that has no newline, and otherwise prints prompts for ever.
\<close>

lemma shell_repeats_last_line:
  assumes "\<forall>l \<in> set (ls @ [l]). NL \<notin> set l \<and> (l = [] \<or> shell_parse l \<noteq> Sh_exit)"
  shows "developer_main (length ls + n) iter disk [prog, ''memory''] (ended ls @ l) =
      (None, (''Using in-memory storage.'' @ [NL]) # shell_banner
        @ shell_spec op_log Map.empty (ls @ replicate n l)) \<and>
    developer_main (length ls + n) iter disk [prog, ''file'', path] (ended ls @ l) =
      (None, (''Using file-based storage: '' @ quoted path @ [NL]) # shell_banner
        @ shell_spec silent (file_contents (file_new (disk path))) (ls @ replicate n l))"
  using shm.shell_goes_on [OF mem_new_inv assms, where n = n]
    shf.shell_goes_on [OF file_new_inv [of "open_at disk path"] assms, where n = n and iter = iter]
  by (simp add: developer_main_def choose_engine_def mem_new_contents)

lemma shell_repeats_last_line_witness:
  "fst (developer_main (length [''list''] + 5) rev (\<lambda>_. \<lparr>file_path = ''db'', bytes = None, readable = True, writable = True\<rparr>) [''kv'', ''file'', ''db''] (ended [''list''] @ ''get k'')) = None"
proof -
  have "shell_parse ''list'' = Sh_list" "shell_parse ''get k'' = Sh_op (Get ''k'')"
    by code_simp+
  then have "\<forall>l \<in> set ([''list''] @ [''get k'']). NL \<notin> set l \<and> (l = [] \<or> shell_parse l \<noteq> Sh_exit)"
    by simp
  then show ?thesis
    by (subst shell_repeats_last_line [THEN conjunct2]) simp_all
qed

text \<open>Without a storage type, with an unknown one, or without a path the program returns 1.\<close>

lemma developer_main_refuses:
  "length argv < 2 \<or> argv ! 1 \<notin> {''memory'', ''file''} \<or> argv ! 1 = ''file'' \<and> length argv < 3 \<Longrightarrow>
    fst (developer_main n iter disk argv input) = Some 1"
  by (auto simp: developer_main_def choose_engine_def)

end
