(* ===== verification/KV_Tests.thy ===== *)
theory KV_Tests
  imports KV_Store
begin

text \<open>
  The repository's tests of the key-value store
  (\<^verbatim>\<open>simple-kv-cpp/tests/kvstore_test.cpp\<close>): each test is the calls it makes with the results it
  expects, and the model meets them all; the tests of the store on either engine.
\<close>

section \<open>The tests\<close>

text \<open>
  One call and what \<^verbatim>\<open>EXPECT_TRUE\<close>, \<^verbatim>\<open>EXPECT_FALSE\<close> or \<^verbatim>\<open>EXPECT_EQ\<close> say of its result. The
  tests that read several keys before they look at the values do so here in the same order.
\<close>

type_synonym kv_test = "(kv_op \<times> kv_result) list"

abbreviation puts :: "string \<Rightarrow> string \<Rightarrow> kv_op \<times> kv_result" where
  "puts k v \<equiv> (Put k v, Done True)"

abbreviation finds :: "string \<Rightarrow> string \<Rightarrow> kv_op \<times> kv_result" where
  "finds k v \<equiv> (Get k, Value (Some v))"

abbreviation misses :: "string \<Rightarrow> kv_op \<times> kv_result" where
  "misses k \<equiv> (Get k, Value None)"

definition three_keys :: kv_test where
  "three_keys =
     [puts ''key1'' ''value1'', puts ''key2'' ''value2'', puts ''key3'' ''value3'',
      finds ''key1'' ''value1'', finds ''key2'' ''value2'', finds ''key3'' ''value3'']"

definition large_key_value_test :: kv_test where
  "large_key_value_test =
     (let large_key = replicate 1000 CHR ''a''; large_value = replicate 10000 CHR ''b''
      in [puts large_key large_value, finds large_key large_value])"

definition key_value_store_tests :: "(string \<times> kv_test) list" where
  "key_value_store_tests =
     [(''BasicPutGet'', [puts ''name'' ''veet'', finds ''name'' ''veet'']),
      (''UpdateValue'', [puts ''key1'' ''value1'', puts ''key1'' ''updated_value'', finds ''key1'' ''updated_value'']),
      (''GetNonExistentKey'', [misses ''nonexistent'']),
      (''RemoveKey'', [puts ''key1'' ''value1'', (Remove ''key1'', Done True), misses ''key1'']),
      (''RemoveNonExistentKey'', [(Remove ''nonexistent'', Done False)]),
      (''EmptyKeyPut'', [(Put [] ''value'', Done False)]),
      (''EmptyKeyGet'', [misses []]),
      (''EmptyKeyRemove'', [(Remove [], Done False)]),
      (''MultipleKeys'', three_keys),
      (''EmptyValue'', [puts ''key'' [], finds ''key'' []]),
      (''LargeKeyValue'', large_key_value_test),
      (''SpecialCharacters'', [puts ''key@#$%'' ''value!@#$'', finds ''key@#$%'' ''value!@#$'']),
      (''RemoveAndReAdd'', [puts ''key'' ''value1'', (Remove ''key'', Done True), misses ''key'',
         puts ''key'' ''value2'', finds ''key'' ''value2''])]"

text \<open>The tests of an engine call its virtual functions.\<close>

fun engine_step :: "'s engine_vtable \<Rightarrow> 's \<Rightarrow> kv_op \<Rightarrow> kv_result \<times> 's" where
  "engine_step vt e (Put k v) = (let (b, e') = vt_write vt e k v in (Done b, e'))"
| "engine_step vt e (Get k) = (let (r, e') = vt_read vt e k in (Value r, e'))"
| "engine_step vt e (Remove k) = (let (b, e') = vt_erase vt e k in (Done b, e'))"

fun engine_run :: "'s engine_vtable \<Rightarrow> 's \<Rightarrow> kv_op list \<Rightarrow> kv_result list \<times> 's" where
  "engine_run vt e [] = ([], e)"
| "engine_run vt e (x # xs) =
     (let (r, e') = engine_step vt e x; (rs, e'') = engine_run vt e' xs in (r # rs, e''))"

definition in_memory_tests :: "(string \<times> kv_test) list" where
  "in_memory_tests =
     [(''WriteRead'', [puts ''key'' ''value'', finds ''key'' ''value'']),
      (''WriteEmptyKey'', [(Put [] ''value'', Done False)]),
      (''ReadEmptyKey'', [misses []]),
      (''EraseEmptyKey'', [(Remove [], Done False)]),
      (''EraseNonExistent'', [(Remove ''nonexistent'', Done False)]),
      (''Overwrite'', [puts ''key'' ''value1'', puts ''key'' ''value2'', finds ''key'' ''value2''])]"

text \<open>Those of the file-based engine that do not open the file again.\<close>

definition file_based_tests :: "(string \<times> kv_test) list" where
  "file_based_tests =
     [(''WriteRead'', [puts ''key'' ''value'', finds ''key'' ''value'']),
      (''Erase'', [puts ''key'' ''value'', (Remove ''key'', Done True), misses ''key'']),
      (''EmptyKey'', [(Put [] ''value'', Done False), misses [], (Remove [], Done False)]),
      (''MultipleKeys'', three_keys)]"

text \<open>Those that do, part by part: an engine, and a store.\<close>

definition persistence_test :: "kv_test list" where
  "persistence_test = [[puts ''persistent'' ''data''], [finds ''persistent'' ''data'']]"

definition basic_operations_test :: "kv_test list" where
  "basic_operations_test =
     [[puts ''name'' ''Alice'', puts ''age'' ''30'', finds ''name'' ''Alice'', (Remove ''age'', Done True), misses ''age''],
      [finds ''name'' ''Alice'']]"

text \<open>The fixtures remove the temporary file, so that an engine starts without one.\<close>

definition no_file :: disk_file where
  "no_file = \<lparr>file_path = ''db'', bytes = None, readable = True, writable = True\<rparr>"

section \<open>They pass\<close>

definition passes :: "kv_result list \<Rightarrow> kv_test \<Rightarrow> bool" where
  "passes rs t \<longleftrightarrow> rs = map snd t"

lemma engine_run_store:
  "engine_run vt e xs =
     (fst (kvs_run \<lparr>kvs_vtable = vt, kvs_engine = e\<rparr> xs),
      kvs_engine (snd (kvs_run \<lparr>kvs_vtable = vt, kvs_engine = e\<rparr> xs)))"
proof (induction xs arbitrary: e)
  case (Cons x xs)
  have "kvs_step \<lparr>kvs_vtable = vt, kvs_engine = e\<rparr> x =
      (fst (engine_step vt e x), \<lparr>kvs_vtable = vt, kvs_engine = snd (engine_step vt e x)\<rparr>)"
    by (cases x) (simp_all add: kvs_defs split_beta Let_def)
  then show ?case
    by (simp add: Cons.IH split_beta Let_def)
qed simp

lemma memory_run: "fst (kvs_run \<lparr>kvs_vtable = memory_vtable, kvs_engine = mem_new\<rparr> xs) = fst (spec_run Map.empty xs)"
  using mem.run_refines [of "\<lparr>kvs_vtable = memory_vtable, kvs_engine = mem_new\<rparr>" xs]
  by (simp add: mem_new_inv mem_new_contents)

lemma no_file_empty: "file_contents (file_new no_file) = Map.empty"
  by (simp add: file_contents_def file_new_store open_read_def no_file_def)

lemma file_run: "fst (kvs_run \<lparr>kvs_vtable = file_vtable iter, kvs_engine = file_new no_file\<rparr> xs) = fst (spec_run Map.empty xs)"
  using fb.run_refines [of "\<lparr>kvs_vtable = file_vtable iter, kvs_engine = file_new no_file\<rparr>" iter xs]
  by (simp add: file_new_inv no_file_empty)

text \<open>What the tests ask of the abstract map.\<close>

lemma map_passes_large: "passes (fst (spec_run Map.empty (map fst large_key_value_test))) large_key_value_test"
proof -
  have "passes (fst (spec_run Map.empty (map fst [puts k v, finds k v]))) [puts k v, finds k v]"
    if "k \<noteq> []" for k v
    using that by (simp add: passes_def)
  then show ?thesis
    unfolding large_key_value_test_def Let_def by simp
qed

lemma map_passes_store_tests:
  "list_all (\<lambda>(n, t). passes (fst (spec_run Map.empty (map fst t))) t) key_value_store_tests"
  by (simp add: key_value_store_tests_def three_keys_def passes_def
      map_passes_large [unfolded passes_def])

lemma map_passes_engine_tests:
  "list_all (\<lambda>(n, t). passes (fst (spec_run Map.empty (map fst t))) t) (in_memory_tests @ file_based_tests)"
  by (simp add: in_memory_tests_def file_based_tests_def three_keys_def passes_def)

text \<open>The tests of \<^verbatim>\<open>KeyValueStore\<close> pass over either engine; the fixture uses the in-memory one.\<close>

lemma store_tests_pass:
  assumes "(n, t) \<in> set key_value_store_tests"
  shows "passes (fst (kvs_run \<lparr>kvs_vtable = memory_vtable, kvs_engine = mem_new\<rparr> (map fst t))) t"
    and "passes (fst (kvs_run \<lparr>kvs_vtable = file_vtable iter, kvs_engine = file_new no_file\<rparr> (map fst t))) t"
  using assms map_passes_store_tests by (auto simp: memory_run file_run list_all_iff)

text \<open>So do those of the engines, each over its own or the other.\<close>

lemma engine_tests_pass:
  assumes "(n, t) \<in> set (in_memory_tests @ file_based_tests)"
  shows "passes (fst (engine_run memory_vtable mem_new (map fst t))) t"
    and "passes (fst (engine_run (file_vtable iter) (file_new no_file) (map fst t))) t"
  using assms map_passes_engine_tests by (auto simp: engine_run_store memory_run file_run list_all_iff)

text \<open>The constructor with a null engine throws.\<close>

lemma null_engine_test: "kvs_new None = Inl Invalid_argument"
  by (simp add: kvs_new_def)

text \<open>The tests that open the file again pass, whatever the order in which the engine saves.\<close>

lemma restart_passes:
  assumes "visits_all iter" and "ts \<in> {persistence_test, basic_operations_test}"
  shows "passes (concat (fst (restart_run iter no_file (map (map fst) ts)))) (concat ts)"
proof -
  have ok: "list_all storable_op (concat (map (map fst) ts))"
    and r: "passes (fst (spec_run Map.empty (concat (map (map fst) ts)))) (concat ts)"
    using assms(2) by (auto simp: persistence_test_def basic_operations_test_def storable_def passes_def)
  have "readable no_file" "writable no_file" by (simp_all add: no_file_def)
  then show ?thesis
    using r restarts_refine [OF assms(1) _ _ ok, of no_file] by (simp add: no_file_empty)
qed

text \<open>The first of them is on the engine alone.\<close>

lemma persistence_passes:
  assumes "visits_all iter"
  shows "let (rs, e) = engine_run (file_vtable iter) (file_new no_file) (map fst (persistence_test ! 0));
             (rs', e') = engine_run (file_vtable iter) (file_new (fe_disk e)) (map fst (persistence_test ! 1))
         in passes (rs @ rs') (concat persistence_test)"
  using restart_passes [OF assms, of persistence_test]
  by (simp add: engine_run_store persistence_test_def split_beta Let_def)

end
