(* ===== verification/Chat_Message.thy ===== *)
theory Chat_Message
  imports Cxx_Strings
begin

text \<open>
  The frame of the chat room (\<^verbatim>\<open>chatroom-app/message.hpp\<close>): a fixed array of 516 bytes,
  four characters of decimal length and up to 512 bytes of body. Reads and writes
  outside an array and the exceptions of \<^verbatim>\<open>std::string\<close> are values of \<open>msg_fault\<close>.
\<close>

section \<open>The class Message\<close>

datatype msg_fault = Buffer_overflow | Over_read | Length_error | Out_of_range

record message =
  msg_data :: string
  msg_bodyLength :: nat

definition maxBytes :: nat where "maxBytes = 512"
definition header :: nat where "header = 4"

definition getNewBodyLength :: "nat \<Rightarrow> nat" where
  "getNewBodyLength newLength = (if newLength > maxBytes then maxBytes else newLength)"

text \<open>\<^verbatim>\<open>sprintf\<close> with \<^verbatim>\<open>%4d\<close>: decimal, padded with blanks on the left to four characters.\<close>

definition format_4d :: "int \<Rightarrow> string" where
  "format_4d i =
     (let s = (if i < 0 then CHR ''-'' # dec (nat (- i)) else dec (nat i))
      in replicate (4 - length s) SPC @ s)"

text \<open>
  \<^verbatim>\<open>new_header\<close> has room for four characters and the terminating zero; its first four
  bytes are copied to the front of the data.
\<close>

definition encodeHeader :: "message \<Rightarrow> msg_fault + message" where
  "encodeHeader m =
     (let s = format_4d (to_int32 (int (msg_bodyLength m)))
      in if header < length s then Inl Buffer_overflow
         else (case write_at (msg_data m) 0 (take header s) of
                 None \<Rightarrow> Inl Buffer_overflow
               | Some d \<Rightarrow> Inr (m\<lparr>msg_data := d\<rparr>)))"

text \<open>
  The constructor from a string. The array is not initialised: \<open>storage\<close> is what the
  memory held before.
\<close>

definition message_new :: "string \<Rightarrow> string \<Rightarrow> msg_fault + message" where
  "message_new storage str =
     (let n = getNewBodyLength (length str) in
      case encodeHeader \<lparr>msg_data = storage, msg_bodyLength = n\<rparr> of
        Inl f \<Rightarrow> Inl f
      | Inr m \<Rightarrow>
          (case write_at (msg_data m) header (take n str) of
             None \<Rightarrow> Inl Buffer_overflow
           | Some d \<Rightarrow> Inr (m\<lparr>msg_data := d\<rparr>)))"

text \<open>The default constructor leaves the array as it is.\<close>

definition message_default :: "string \<Rightarrow> message" where
  "message_default storage = \<lparr>msg_data = storage, msg_bodyLength = 0\<rparr>"

text \<open>\<^verbatim>\<open>strncpy\<close> of four bytes and \<^verbatim>\<open>atoi\<close>.\<close>

definition header_value :: "message \<Rightarrow> int" where
  "header_value m = atoi (c_string (take header (msg_data m)))"

definition decodeHeader :: "message \<Rightarrow> bool \<times> message" where
  "decodeHeader m =
     (let headerValue = header_value m in
      if headerValue > int maxBytes then (False, m\<lparr>msg_bodyLength := 0\<rparr>)
      else (True, m\<lparr>msg_bodyLength := to_size headerValue\<rparr>))"

text \<open>
  \<^verbatim>\<open>int length = header + bodyLength_\<close> is computed in \<^verbatim>\<open>size_t\<close> and cut to \<^verbatim>\<open>int\<close>;
  the string constructor throws on a negative length and reads past the array on a
  length above 516.
\<close>

definition getData :: "message \<Rightarrow> msg_fault + string" where
  "getData m =
     (let len = to_int32 (int ((header + msg_bodyLength m) mod 2 ^ 64)) in
      if len < 0 then Inl Length_error
      else if length (msg_data m) < nat len then Inl Over_read
      else Inr (take (nat len) (msg_data m)))"

definition getBody :: "message \<Rightarrow> msg_fault + string" where
  "getBody m =
     (case getData m of
        Inl f \<Rightarrow> Inl f
      | Inr dataStr \<Rightarrow>
          (case substr dataStr header (msg_bodyLength m) of
             None \<Rightarrow> Inl Out_of_range
           | Some b \<Rightarrow> Inr b))"

definition getBodyLength :: "message \<Rightarrow> nat" where
  "getBodyLength m = msg_bodyLength m"

text \<open>The line that \<^verbatim>\<open>printMessage\<close> prints.\<close>

definition printMessage :: "message \<Rightarrow> msg_fault + string" where
  "printMessage m =
     (case getData m of
        Inl f \<Rightarrow> Inl f
      | Inr message \<Rightarrow> Inr (''Message recieved: '' @ message))"

lemmas message_defs [model_defs] =
  maxBytes_def header_def getNewBodyLength_def getBodyLength_def

section \<open>Constructed messages\<close>

lemma getNewBodyLength_min: "getNewBodyLength n = min n 512"
  by (simp add: model_defs)

lemma format_4d_small:
  assumes "n < 10 ^ 4"
  shows "length (format_4d (int n)) = 4"
    and "format_4d (int n) = replicate (4 - length (dec n)) SPC @ dec n"
  using length_dec_le [OF assms] by (simp_all add: format_4d_def Let_def)

lemma encodeHeader_small:
  assumes "length (msg_data m) = 516" and "msg_bodyLength m \<le> 512"
  shows "encodeHeader m =
    Inr (m\<lparr>msg_data := format_4d (int (msg_bodyLength m)) @ drop 4 (msg_data m)\<rparr>)"
  using assms format_4d_small(1) [of "msg_bodyLength m"]
  by (simp add: encodeHeader_def write_at_def model_defs)

text \<open>What the constructor builds: header, body, and what was in memory behind it.\<close>

definition frame :: "string \<Rightarrow> string \<Rightarrow> string" where
  "frame storage str =
     format_4d (int (min (length str) 512)) @ take 512 str @ drop (4 + min (length str) 512) storage"

lemma message_new_frame:
  assumes "length storage = 516"
  shows "message_new storage str =
    Inr \<lparr>msg_data = frame storage str, msg_bodyLength = min (length str) 512\<rparr>"
proof -
  let ?n = "min (length str) 512"
  have f: "length (format_4d (int ?n)) = 4"
    by (rule format_4d_small) simp
  have t: "take ?n str = take 512 str" and l: "length (take 512 str) = ?n"
    by (simp_all add: min_def)
  have enc: "encodeHeader \<lparr>msg_data = storage, msg_bodyLength = ?n\<rparr> =
      Inr \<lparr>msg_data = format_4d (int ?n) @ drop 4 storage, msg_bodyLength = ?n\<rparr>"
    using assms by (simp add: encodeHeader_small)
  have "write_at (format_4d (int ?n) @ drop 4 storage) 4 (take ?n str) = Some (frame storage str)"
    unfolding write_at_def frame_def using assms f by (simp add: t l add.commute)
  then show ?thesis
    unfolding message_new_def getNewBodyLength_min Let_def enc by (simp add: header_def)
qed

lemma length_frame: "length storage = 516 \<Longrightarrow> length (frame storage str) = 516"
  using format_4d_small(1) [of "min (length str) 512"] by (simp add: frame_def)

text \<open>A message that carries the (clipped) string \<open>str\<close>.\<close>

definition carries :: "message \<Rightarrow> string \<Rightarrow> bool" where
  "carries m str \<longleftrightarrow> length (msg_data m) = 516 \<and> take 4 (msg_data m) = format_4d (int (min (length str) 512))
     \<and> take (min (length str) 512) (drop 4 (msg_data m)) = take 512 str"

lemma carries_new:
  assumes "length storage = 516"
  shows "carries \<lparr>msg_data = frame storage str, msg_bodyLength = b\<rparr> str"
proof -
  have f: "length (format_4d (int (min (length str) 512))) = 4"
    by (rule format_4d_small) simp
  have t: "take (min (length str) 512) str = take 512 str"
    by (simp add: min_def)
  show ?thesis
    using assms f length_frame [OF assms] by (simp add: carries_def frame_def t)
qed

lemma header_value_carries:
  assumes "carries m str"
  shows "header_value m = int (min (length str) 512)"
proof -
  let ?n = "min (length str) 512"
  have d: "take 4 (msg_data m) = replicate (4 - length (dec ?n)) SPC @ dec ?n"
    using assms format_4d_small(2) [of ?n] by (simp add: carries_def)
  have "NUL \<notin> set (dec ?n)"
    using dec_digits [of NUL ?n] is_digit_not_sign [of NUL] by auto
  then have "NUL \<notin> set (replicate (4 - length (dec ?n)) SPC @ dec ?n)"
    by auto
  from c_string_no_nul [OF this] show ?thesis
    unfolding header_value_def header_def d by (simp only: atoi_dec_padded)
qed

lemma decodeHeader_carries:
  "carries m str \<Longrightarrow> decodeHeader m = (True, m\<lparr>msg_bodyLength := min (length str) 512\<rparr>)"
  by (simp add: decodeHeader_def header_value_carries maxBytes_def to_size_small)

text \<open>Reading a body of a length that fits.\<close>

lemma getData_fits:
  assumes "length (msg_data m) = 516" and "msg_bodyLength m \<le> 512"
  shows "getData m = Inr (take (4 + msg_bodyLength m) (msg_data m))"
proof -
  have "(4 + msg_bodyLength m) mod 2 ^ 64 = 4 + msg_bodyLength m"
    using assms(2) by (intro mod_less) simp
  then show ?thesis
    using assms by (simp add: getData_def header_def nat_add_distrib)
qed

lemma getBody_fits:
  assumes "length (msg_data m) = 516" and "msg_bodyLength m \<le> 512"
  shows "getBody m = Inr (take (msg_bodyLength m) (drop 4 (msg_data m)))"
  using assms by (simp add: getBody_def getData_fits substr_def header_def drop_take)

lemma getBody_carries:
  assumes "carries m str"
  shows "getBody (m\<lparr>msg_bodyLength := min (length str) 512\<rparr>) = Inr (take 512 str)"
  using assms by (simp add: getBody_fits carries_def)

text \<open>A negative header value makes the body unreadable.\<close>

lemma getBody_negative:
  assumes "v < 0" and "- 1000 < v"
  shows "\<exists>f. getBody (m\<lparr>msg_bodyLength := to_size v\<rparr>) = Inl f"
proof -
  let ?m = "m\<lparr>msg_bodyLength := to_size v\<rparr>"
  have v: "int (to_size v) = v + 2 ^ 64"
    using assms by (simp add: to_size_def mod_neg_int)
  have sum: "int ((4 + to_size v) mod 2 ^ 64) = (4 + v) mod 2 ^ 64"
    unfolding zmod_int of_nat_add v by (simp only: add.assoc [symmetric] of_nat_numeral of_nat_power mod_add_self2)
  show ?thesis
  proof (cases "v < - 4")
    case True
    have "(4 + v) mod 2 ^ 64 = 4 + v + 2 ^ 64"
      using True assms(2) by (simp add: mod_neg_int)
    moreover have "to_int32 (4 + v + 2 ^ 64) = 4 + v"
      unfolding to_int32_size using True assms(2) by (intro to_int32_negative) auto
    ultimately have "getData ?m = Inl Length_error"
      using True unfolding getData_def header_def by (simp add: sum [simplified])
    then show ?thesis by (simp add: getBody_def)
  next
    case False
    have "(4 + v) mod 2 ^ 64 = 4 + v"
      using False assms(1) by simp
    then have d: "getData ?m = (if length (msg_data m) < nat (4 + v) then Inl Over_read
        else Inr (take (nat (4 + v)) (msg_data m)))"
      using False assms(1) unfolding getData_def header_def by (simp add: sum [simplified])
    have "nat (4 + v) < 4" using assms(1) by simp
    then show ?thesis
      by (auto simp: getBody_def d substr_def header_def)
  qed
qed

lemma message_roundtrip_body:
  assumes "length storage = 516"
  shows "\<exists>m. message_new storage str = Inr m \<and> decodeHeader m = (True, m)
     \<and> getBody m = Inr (take 512 str) \<and> getBodyLength m = min (length str) 512"
proof -
  let ?m = "\<lparr>msg_data = frame storage str, msg_bodyLength = min (length str) 512\<rparr>"
  have c: "carries ?m str"
    using carries_new [OF assms] .
  show ?thesis
    using decodeHeader_carries [OF c] getBody_carries [OF c]
    by (simp add: message_new_frame [OF assms] getBodyLength_def)
qed

section \<open>Properties\<close>

text \<open>
  C31: Frame round trip. Whatever the uninitialised array held, a message built from a
  string decodes its own header, and its body is the string cut to 512 bytes (embedded
  zero bytes included).
\<close>

theorem message_roundtrip:
  assumes "length storage = 516"
  shows "\<exists>m. message_new storage str = Inr m \<and> decodeHeader m = (True, m)
     \<and> getBody m = Inr (take 512 str) \<and> getBodyLength m = min (length str) 512"
  using assms by (rule message_roundtrip_body)

theorem message_roundtrip_witness:
  "\<exists>m. message_new (replicate 516 CHR ''?'') ''hello'' = Inr m \<and> decodeHeader m = (True, m)
     \<and> getBody m = Inr ''hello'' \<and> getBodyLength m = length ''hello''"
  using message_roundtrip [of "replicate 516 CHR ''?''" "''hello''"] by simp

text \<open>
  What \<^verbatim>\<open>printMessage\<close> prints: of a message built from a string its header and its body, of
  an empty one the first four bytes of the memory it lies in.
\<close>

lemma printMessage_prints:
  assumes "length storage = 516"
  shows "\<exists>m. message_new storage str = Inr m
     \<and> printMessage m = Inr (''Message recieved: '' @ format_4d (int (min (length str) 512)) @ take 512 str)"
    and "printMessage (message_default storage) = Inr (''Message recieved: '' @ take 4 storage)"
proof -
  have "length (frame storage str) = 516" and "4 + min (length str) 512 \<le> 516"
    and "take (4 + min (length str) 512) (frame storage str) = format_4d (int (min (length str) 512)) @ take 512 str"
    using assms format_4d_small(1) [of "min (length str) 512"] by (auto simp: frame_def min_def)
  then show "\<exists>m. message_new storage str = Inr m
     \<and> printMessage m = Inr (''Message recieved: '' @ format_4d (int (min (length str) 512)) @ take 512 str)"
    by (simp add: message_new_frame [OF assms] printMessage_def getData_fits)
  show "printMessage (message_default storage) = Inr (''Message recieved: '' @ take 4 storage)"
    using assms by (simp add: printMessage_def message_default_def getData_fits)
qed

text \<open>
  What \<^verbatim>\<open>decodeHeader\<close> guards. On any 516 bytes it refuses exactly the lengths above
  512; of the accepted ones the body can be read exactly when the length is not negative,
  since the test has no lower bound.
\<close>

lemma decodeHeader_guard:
  assumes "length (msg_data m) = 516"
  shows "fst (decodeHeader m) = (header_value m \<le> 512)
     \<and> (fst (decodeHeader m) \<longrightarrow>
         (\<exists>b. getBody (snd (decodeHeader m)) = Inr b) = (0 \<le> header_value m))"
proof -
  let ?v = "header_value m"
  have low: "- 1000 < ?v"
  proof -
    have "length (c_string (take header (msg_data m))) \<le> 4"
      using length_takeWhile_le [of "\<lambda>c. c \<noteq> NUL" "take header (msg_data m)"]
      by (simp add: c_string_def header_def)
    then show ?thesis
      unfolding header_value_def by (rule atoi_lower_bound)
  qed
  show ?thesis
  proof (cases "0 \<le> ?v \<and> ?v \<le> 512")
    case True
    then have "to_size ?v \<le> 512"
      by (simp add: to_size_small nat_le_iff)
    with True assms show ?thesis
      by (auto simp: decodeHeader_def maxBytes_def getBody_fits)
  next
    case False
    then show ?thesis
      using low getBody_negative [of ?v m]
      by (auto simp: decodeHeader_def maxBytes_def)
  qed
qed

lemma decodeHeader_guard_witness:
  "fst (decodeHeader \<lparr>msg_data = ''  -1'' @ replicate 512 CHR ''x'', msg_bodyLength = 0\<rparr>)
   \<and> \<not> (\<exists>b. getBody (snd (decodeHeader
        \<lparr>msg_data = ''  -1'' @ replicate 512 CHR ''x'', msg_bodyLength = 0\<rparr>)) = Inr b)"
proof -
  let ?m = "\<lparr>msg_data = ''  -1'' @ replicate 512 CHR ''x'', msg_bodyLength = 0\<rparr>"
  have l: "length (msg_data ?m) = 516" by simp
  have v: "header_value ?m = - 1"
    by (simp add: header_value_def header_def c_string_def atoi_def is_space_def is_digit_def)
  show ?thesis using decodeHeader_guard [OF l] unfolding v by simp
qed

end
