(* ===== verification/Chat_Room.thy ===== *)
theory Chat_Room
  imports Chat_Message
begin

text \<open>
  The chat server (\<^verbatim>\<open>chatroom-app/chatRoom.hpp\<close>, \<^verbatim>\<open>chatRoom.cpp\<close>): \<^verbatim>\<open>Room\<close>,
  \<^verbatim>\<open>Session\<close> and the completion handlers that the event loop runs one after the other.
  Boost.Asio is not part of the repository: a completed \<^verbatim>\<open>async_read_until\<close> is an event
  that carries the bytes it appended to the stream buffer and the count it passed to the
  handler, and \<^verbatim>\<open>async_write\<close> is recorded with its arguments.
\<close>

section \<open>State\<close>

text \<open>
  A participant is the pointer to its session. \<^verbatim>\<open>std::set\<close> keeps and visits pointers in
  the order of their addresses.
\<close>

datatype participant = Participant (address: nat)

instantiation participant :: linorder
begin

definition less_eq_participant :: "participant \<Rightarrow> participant \<Rightarrow> bool" where
  "less_eq_participant p q \<longleftrightarrow> address p \<le> address q"

definition less_participant :: "participant \<Rightarrow> participant \<Rightarrow> bool" where
  "less_participant p q \<longleftrightarrow> address p < address q"

instance
  by standard (auto simp: less_eq_participant_def less_participant_def intro: participant.expand)

end

record chat_session =
  s_buffer :: string
  s_queue :: "message list"

record chat_server =
  room_queue :: "message list"
  participants :: "participant list"
  sessions :: "participant \<Rightarrow> chat_session"
  writes :: "(participant \<times> string \<times> nat) list"
  srv_cout :: "string list"
  srv_cerr :: "string list"

definition session_new :: chat_session where
  "session_new = \<lparr>s_buffer = [], s_queue = []\<rparr>"

definition chat_init :: chat_server where
  "chat_init = \<lparr>room_queue = [], participants = [], sessions = (\<lambda>_. session_new), writes = [], srv_cout = [], srv_cerr = []\<rparr>"

definition print :: "string \<Rightarrow> chat_server \<Rightarrow> chat_server" where
  "print l srv = srv\<lparr>srv_cout := srv_cout srv @ [l]\<rparr>"

definition set_queue :: "participant \<Rightarrow> message list \<Rightarrow> chat_server \<Rightarrow> chat_server" where
  "set_queue p ms srv = srv\<lparr>sessions := (sessions srv)(p := (sessions srv p)\<lparr>s_queue := ms\<rparr>)\<rparr>"

definition set_buffer :: "participant \<Rightarrow> string \<Rightarrow> chat_server \<Rightarrow> chat_server" where
  "set_buffer p b srv = srv\<lparr>sessions := (sessions srv)(p := (sessions srv p)\<lparr>s_buffer := b\<rparr>)\<rparr>"

section \<open>Session\<close>

text \<open>The write that \<^verbatim>\<open>boost::asio::async_write\<close> is asked to do.\<close>

definition async_write :: "participant \<Rightarrow> string \<Rightarrow> nat \<Rightarrow> chat_server \<Rightarrow> chat_server" where
  "async_write p messageBody messageLength srv =
     srv\<lparr>writes := writes srv @ [(p, messageBody, messageLength)]\<rparr>"

text \<open>The loop of \<^verbatim>\<open>Session::write\<close>, which empties the session's queue.\<close>

function session_loop :: "participant \<Rightarrow> chat_server \<Rightarrow> msg_fault + chat_server" where
  "session_loop p srv =
     (case s_queue (sessions srv p) of
        [] \<Rightarrow> Inr srv
      | m # ms \<Rightarrow>
          (let srv' = set_queue p ms srv;
               (header_decode, m') = decodeHeader m
           in if header_decode
              then (case getBody m' of
                      Inl f \<Rightarrow> Inl f
                    | Inr body \<Rightarrow> session_loop p (async_write p body (getBodyLength m') srv'))
              else session_loop p (print ''Message length exceeds the max length'' srv')))"
  by pat_completeness auto
termination
  by (relation "measure (\<lambda>(p, srv). length (s_queue (sessions srv p)))")
    (auto simp: set_queue_def async_write_def print_def)

declare session_loop.simps [simp del]

definition session_write :: "participant \<Rightarrow> message \<Rightarrow> chat_server \<Rightarrow> msg_fault + chat_server" where
  "session_write p m srv = session_loop p (set_queue p (s_queue (sessions srv p) @ [m]) srv)"

section \<open>Room\<close>

definition room_join :: "participant \<Rightarrow> chat_server \<Rightarrow> chat_server" where
  "room_join p srv = srv\<lparr>participants := insort_insert p (participants srv)\<rparr>"

definition room_leave :: "participant \<Rightarrow> chat_server \<Rightarrow> chat_server" where
  "room_leave p srv = srv\<lparr>participants := filter (\<lambda>q. q \<noteq> p) (participants srv)\<rparr>"

text \<open>The inner loop of \<^verbatim>\<open>Room::deliver\<close>: every participant but the sender.\<close>

fun room_write_all ::
  "participant \<Rightarrow> message \<Rightarrow> participant list \<Rightarrow> chat_server \<Rightarrow> msg_fault + chat_server" where
  "room_write_all sender msg [] srv = Inr srv"
| "room_write_all sender msg (q # qs) srv =
     (if sender \<noteq> q
      then (case session_write q msg srv of
              Inl f \<Rightarrow> Inl f
            | Inr srv' \<Rightarrow> room_write_all sender msg qs srv')
      else room_write_all sender msg qs srv)"

lemma session_loop_room_queue:
  "session_loop p srv = Inr srv' \<Longrightarrow> room_queue srv' = room_queue srv"
proof (induction p srv rule: session_loop.induct)
  case (1 p srv)
  show ?case
  proof (cases "s_queue (sessions srv p)")
    case Nil
    with "1.prems" show ?thesis by (simp add: session_loop.simps [of p srv])
  next
    case (Cons m ms)
    obtain ok m' where d: "decodeHeader m = (ok, m')" by (cases "decodeHeader m")
    show ?thesis
      using "1.prems" "1.IH" [OF Cons refl d [symmetric] refl]
      by (auto simp: session_loop.simps [of p srv] Cons d set_queue_def async_write_def print_def
          Let_def split: if_splits sum.splits)
  qed
qed

lemma room_write_all_room_queue:
  "room_write_all sender msg qs srv = Inr srv' \<Longrightarrow> room_queue srv' = room_queue srv"
  by (induction qs arbitrary: srv)
    (auto simp: session_write_def set_queue_def dest!: session_loop_room_queue
      split: if_splits sum.splits)

text \<open>The outer loop of \<^verbatim>\<open>Room::deliver\<close>, which empties the room's queue.\<close>

function room_loop :: "participant \<Rightarrow> chat_server \<Rightarrow> msg_fault + chat_server" where
  "room_loop sender srv =
     (case room_queue srv of
        [] \<Rightarrow> Inr srv
      | msg # ms \<Rightarrow>
          (case room_write_all sender msg (participants srv) (srv\<lparr>room_queue := ms\<rparr>) of
             Inl f \<Rightarrow> Inl f
           | Inr srv' \<Rightarrow> room_loop sender srv'))"
  by pat_completeness auto
termination
  by (relation "measure (\<lambda>(sender, srv). length (room_queue srv))")
    (auto dest: room_write_all_room_queue)

declare room_loop.simps [simp del]

definition room_deliver :: "participant \<Rightarrow> message \<Rightarrow> chat_server \<Rightarrow> msg_fault + chat_server" where
  "room_deliver sender msg srv = room_loop sender (srv\<lparr>room_queue := room_queue srv @ [msg]\<rparr>)"

section \<open>Event handlers\<close>

text \<open>
  The handler of \<^verbatim>\<open>async_read_until\<close> on the persistent stream buffer: the first \<open>n\<close>
  bytes are the line, the rest stays in the buffer.
\<close>

definition take_line :: "string \<Rightarrow> string \<Rightarrow> nat \<Rightarrow> string \<times> string" where
  "take_line buf received n = (take n (buf @ received), drop n (buf @ received))"

text \<open>
  The success branch: consume the line, build a message of it (in memory that held
  \<open>storage\<close>) and deliver it to the room.
\<close>

definition on_line ::
  "participant \<Rightarrow> string \<Rightarrow> nat \<Rightarrow> string \<Rightarrow> chat_server \<Rightarrow> msg_fault + chat_server" where
  "on_line p received n storage srv =
     (let (line, rest) = take_line (s_buffer (sessions srv p)) received n;
          srv1 = print (''Received: '' @ line) (set_buffer p rest srv)
      in case message_new storage line of
           Inl f \<Rightarrow> Inl f
         | Inr m \<Rightarrow> room_deliver p m srv1)"

text \<open>The failure branch: leave the room. An error is the end of the stream or another, with its message.\<close>

datatype asio_error = Eof | Other_error string

definition on_read_error :: "participant \<Rightarrow> asio_error \<Rightarrow> chat_server \<Rightarrow> chat_server" where
  "on_read_error p ec srv =
     print (case ec of Eof \<Rightarrow> ''Connection closed by peer'' | Other_error msg \<Rightarrow> ''Read error: '' @ msg)
       (room_leave p srv)"

text \<open>The handler of \<^verbatim>\<open>async_write\<close>: \<open>None\<close> when all has been written.\<close>

definition write_handler :: "string option \<Rightarrow> chat_server \<Rightarrow> chat_server" where
  "write_handler ec srv =
     (case ec of
        None \<Rightarrow> print ''Data is written to the socket: '' srv
      | Some msg \<Rightarrow> srv\<lparr>srv_cerr := srv_cerr srv @ [''Write error: '' @ msg]\<rparr>)"

definition session_start :: "participant \<Rightarrow> chat_server \<Rightarrow> chat_server" where
  "session_start p srv = room_join p srv"

text \<open>
  The handler of \<^verbatim>\<open>async_accept\<close>: a new session object at address \<open>p\<close> is started. In
  both branches the acceptor is armed again, so further accept events follow.
\<close>

definition on_accept :: "participant \<Rightarrow> chat_server \<Rightarrow> chat_server" where
  "on_accept p srv = session_start p (srv\<lparr>sessions := (sessions srv)(p := session_new)\<rparr>)"

datatype chat_event =
    Accepted participant
  | Accept_failed
  | Line_read participant string nat string
  | Read_failed participant asio_error
  | Write_done participant "string option"

fun chat_step :: "chat_event \<Rightarrow> chat_server \<Rightarrow> msg_fault + chat_server" where
  "chat_step (Accepted p) srv = Inr (on_accept p srv)"
| "chat_step Accept_failed srv = Inr srv"
| "chat_step (Line_read p received n storage) srv = on_line p received n storage srv"
| "chat_step (Read_failed p ec) srv = Inr (on_read_error p ec srv)"
| "chat_step (Write_done p ec) srv = Inr (write_handler ec srv)"

fun chat_run :: "chat_event list \<Rightarrow> chat_server \<Rightarrow> msg_fault + chat_server" where
  "chat_run [] srv = Inr srv"
| "chat_run (ev # evs) srv =
     (case chat_step ev srv of Inl f \<Rightarrow> Inl f | Inr srv' \<Rightarrow> chat_run evs srv')"

lemmas room_defs [handler_defs] =
  room_join_def room_leave_def on_read_error_def session_start_def on_accept_def print_def
  set_queue_def set_buffer_def async_write_def write_handler_def

end
