(* ===== verification/Chat_Broadcast.thy ===== *)
theory Chat_Broadcast
  imports Chat_Room
begin

text \<open>
  Correctness of the chat server: a delivery reaches every other participant exactly
  once, a run of the event loop never faults and gives each participant the lines of the
  others in order, and the lines are those of each client's byte stream however the
  network cut it.
\<close>

section \<open>One delivery\<close>

text \<open>What a participant is sent for a line: at most its first 512 bytes.\<close>

definition clip :: "string \<Rightarrow> string \<times> nat" where
  "clip line = (take 512 line, min (length line) 512)"

text \<open>Between two events every queue is empty.\<close>

definition idle :: "chat_server \<Rightarrow> bool" where
  "idle srv \<longleftrightarrow> room_queue srv = [] \<and> (\<forall>p. s_queue (sessions srv p) = [])"

lemma set_queue_twice:
  assumes "s_queue (sessions srv p) = []"
  shows "set_queue p [] (set_queue p ms srv) = srv"
proof -
  have "(sessions srv p)\<lparr>s_queue := []\<rparr> = sessions srv p"
    using assms by (cases "sessions srv p") simp
  then show ?thesis
    by (cases srv) (simp add: set_queue_def fun_upd_idem)
qed

lemma session_write_carries:
  assumes "s_queue (sessions srv p) = []" and "carries m line"
  shows "session_write p m srv = Inr (srv\<lparr>writes := writes srv @ [(p, clip line)]\<rparr>)"
proof -
  let ?srv = "set_queue p [m] srv"
  have q: "s_queue (sessions ?srv p) = [m]"
    by (simp add: set_queue_def)
  have "session_loop p ?srv =
      session_loop p (async_write p (take 512 line) (min (length line) 512) srv)"
    by (subst session_loop.simps)
      (simp add: q decodeHeader_carries [OF assms(2)] getBody_carries [OF assms(2)]
        getBodyLength_def set_queue_twice [OF assms(1)])
  also have "\<dots> = Inr (async_write p (take 512 line) (min (length line) 512) srv)"
    by (subst session_loop.simps) (simp add: async_write_def assms(1))
  finally show ?thesis
    using assms(1) by (simp add: session_write_def async_write_def clip_def)
qed

lemma room_write_all_carries:
  assumes "\<forall>p. s_queue (sessions srv p) = []" and "carries m line"
  shows "room_write_all sender m qs srv =
    Inr (srv\<lparr>writes := writes srv @ map (\<lambda>q. (q, clip line)) (filter (\<lambda>q. q \<noteq> sender) qs)\<rparr>)"
  using assms(1)
proof (induction qs arbitrary: srv)
  case Nil
  then show ?case by simp
next
  case (Cons q qs)
  then show ?case
    by (auto simp: session_write_carries [OF _ assms(2)])
qed

lemma room_deliver_carries:
  assumes "idle srv" and "carries m line"
  shows "room_deliver sender m srv = Inr (srv\<lparr>writes := writes srv
    @ map (\<lambda>q. (q, clip line)) (filter (\<lambda>q. q \<noteq> sender) (participants srv))\<rparr>)"
proof -
  have q: "room_queue srv = []" and s: "\<forall>p. s_queue (sessions srv p) = []"
    using assms(1) by (simp_all add: idle_def)
  have srv: "srv\<lparr>room_queue := []\<rparr> = srv"
    using q by (cases srv) simp
  show ?thesis
    unfolding room_deliver_def
    by (simp add: q s srv room_loop.simps room_write_all_carries [OF _ assms(2)])
qed

lemma on_line_ok:
  assumes "idle srv" and "length storage = 516"
  shows "on_line p received n storage srv =
    Inr ((set_buffer p (drop n (s_buffer (sessions srv p) @ received)) srv)
      \<lparr>writes := writes srv @ map (\<lambda>q. (q, clip (take n (s_buffer (sessions srv p) @ received))))
                  (filter (\<lambda>q. q \<noteq> p) (participants srv)),
       srv_cout := srv_cout srv @ [''Received: '' @ take n (s_buffer (sessions srv p) @ received)]\<rparr>)"
proof -
  let ?line = "take n (s_buffer (sessions srv p) @ received)"
  let ?rest = "drop n (s_buffer (sessions srv p) @ received)"
  let ?srv = "print (''Received: '' @ ?line) (set_buffer p ?rest srv)"
  have "idle ?srv"
    using assms(1) by (simp add: idle_def print_def set_buffer_def)
  then have "room_deliver p \<lparr>msg_data = frame storage ?line, msg_bodyLength = min (length ?line) 512\<rparr> ?srv
      = Inr (?srv\<lparr>writes := writes ?srv
          @ map (\<lambda>q. (q, clip ?line)) (filter (\<lambda>q. q \<noteq> p) (participants ?srv))\<rparr>)"
    using carries_new [OF assms(2)] by (rule room_deliver_carries)
  then show ?thesis
    unfolding on_line_def take_line_def Let_def split_beta fst_conv snd_conv
    by (simp add: message_new_frame [OF assms(2)] print_def set_buffer_def)
qed

lemma idle_on_line:
  assumes "idle srv" and "length storage = 516" and "on_line p received n storage srv = Inr srv'"
  shows "idle srv'"
  using assms by (auto simp: on_line_ok idle_def set_buffer_def)

section \<open>Runs\<close>

text \<open>
  What participant \<open>q\<close> should be sent: the lines of the others, cut from their streams,
  from its own acceptance until it leaves.
\<close>

fun heard ::
  "participant \<Rightarrow> (participant \<Rightarrow> string) \<Rightarrow> participant set \<Rightarrow> chat_event list \<Rightarrow> string list" where
  "heard q buf members [] = []"
| "heard q buf members (Accepted p # evs) = heard q (buf(p := [])) (insert p members) evs"
| "heard q buf members (Accept_failed # evs) = heard q buf members evs"
| "heard q buf members (Line_read p received n storage # evs) =
     (if q \<in> members \<and> q \<noteq> p then [take n (buf p @ received)] else [])
     @ heard q (buf(p := drop n (buf p @ received))) members evs"
| "heard q buf members (Read_failed p ec # evs) = heard q buf (members - {p}) evs"
| "heard q buf members (Write_done p ec # evs) = heard q buf members evs"

fun storage_ok :: "chat_event \<Rightarrow> bool" where
  "storage_ok (Line_read p received n storage) = (length storage = 516)"
| "storage_ok _ = True"

text \<open>The writes to one participant, in order.\<close>

definition sent_to :: "participant \<Rightarrow> chat_server \<Rightarrow> (string \<times> nat) list" where
  "sent_to q srv = map snd (filter (\<lambda>w. fst w = q) (writes srv))"

definition room_ok :: "chat_server \<Rightarrow> bool" where
  "room_ok srv \<longleftrightarrow> idle srv \<and> distinct (participants srv) \<and> sorted (participants srv)"

lemma room_ok_init: "room_ok chat_init"
  by (simp add: room_ok_def idle_def chat_init_def session_new_def)

lemma room_ok_step:
  assumes "room_ok srv" and "storage_ok ev"
  shows "\<exists>srv'. chat_step ev srv = Inr srv' \<and> room_ok srv'"
proof (cases ev)
  case (Accepted p)
  have "room_ok (on_accept p srv)"
    using assms(1)
    by (auto simp: room_ok_def idle_def room_defs session_new_def distinct_insort_insert
        sorted_insort_insert)
  with Accepted show ?thesis by simp
next
  case Accept_failed
  with assms show ?thesis by simp
next
  case (Line_read p received n storage)
  with assms show ?thesis
    by (auto simp: room_ok_def on_line_ok idle_def set_buffer_def)
next
  case (Read_failed p ec)
  have "room_ok (on_read_error p ec srv)"
    using assms(1) by (auto simp: room_ok_def idle_def room_defs sorted_wrt_filter)
  with Read_failed show ?thesis by simp
next
  case (Write_done p ec)
  have "room_ok (write_handler ec srv)"
    using assms(1) by (auto simp: room_ok_def idle_def room_defs split: option.split)
  with Write_done show ?thesis by simp
qed

lemma filter_one:
  "distinct qs \<Longrightarrow> filter (\<lambda>x. x = q) qs = (if q \<in> set qs then [q] else [])"
  by (induction qs) auto

lemma sent_to_map:
  assumes "distinct ps"
  shows "map snd (filter (\<lambda>w. fst w = q) (map (\<lambda>r. (r, c)) (filter (\<lambda>r. r \<noteq> p) ps)))
    = (if q \<in> set ps \<and> q \<noteq> p then [c] else [])"
  using assms by (induction ps) auto

lemma sent_to_on_line:
  assumes "room_ok srv" and "length storage = 516"
    and "on_line p received n storage srv = Inr srv'"
  shows "sent_to q srv' = sent_to q srv @
    (if q \<in> set (participants srv) \<and> q \<noteq> p
     then [clip (take n (s_buffer (sessions srv p) @ received))] else [])"
proof -
  let ?line = "take n (s_buffer (sessions srv p) @ received)"
  have "srv' = (set_buffer p (drop n (s_buffer (sessions srv p) @ received)) srv)
      \<lparr>writes := writes srv @ map (\<lambda>q. (q, clip ?line)) (filter (\<lambda>q. q \<noteq> p) (participants srv)),
       srv_cout := srv_cout srv @ [''Received: '' @ ?line]\<rparr>"
    using assms(1,3) on_line_ok [OF _ assms(2), of srv p received n]
    by (simp only: room_ok_def) simp
  then have w: "writes srv' = writes srv @ map (\<lambda>q. (q, clip ?line)) (filter (\<lambda>q. q \<noteq> p) (participants srv))"
    by simp
  have d: "distinct (participants srv)"
    using assms(1) by (simp add: room_ok_def)
  show ?thesis
    unfolding sent_to_def w filter_append map_append sent_to_map [OF d] by (rule refl)
qed

text \<open>What one event adds to what \<open>q\<close> is sent, with the streams and members after it.\<close>

lemma chat_step_heard:
  assumes "room_ok srv" and "storage_ok ev" and "chat_step ev srv = Inr srv1"
  shows "sent_to q srv1 @ map clip (heard q (\<lambda>p. s_buffer (sessions srv1 p)) (set (participants srv1)) evs)
    = sent_to q srv @ map clip (heard q (\<lambda>p. s_buffer (sessions srv p)) (set (participants srv)) (ev # evs))"
proof (cases ev)
  case (Accepted p)
  have "(\<lambda>c. s_buffer (sessions srv1 c)) = (\<lambda>c. s_buffer (sessions srv c))(p := [])"
    using assms(3) Accepted by (auto simp: room_defs session_new_def)
  moreover have "set (participants srv1) = insert p (set (participants srv))"
    using assms(3) Accepted by (auto simp: room_defs set_insort_insert)
  moreover have "sent_to q srv1 = sent_to q srv"
    using assms(3) Accepted by (auto simp: room_defs sent_to_def)
  ultimately show ?thesis using Accepted by simp
next
  case Accept_failed
  with assms(3) show ?thesis by simp
next
  case (Line_read p received n storage)
  have line: "on_line p received n storage srv = Inr srv1" and st: "length storage = 516"
    using assms Line_read by auto
  have "(\<lambda>c. s_buffer (sessions srv1 c))
      = (\<lambda>c. s_buffer (sessions srv c))(p := drop n (s_buffer (sessions srv p) @ received))"
    using line assms(1) st by (auto simp: on_line_ok room_ok_def set_buffer_def)
  moreover have "participants srv1 = participants srv"
    using line assms(1) st by (auto simp: on_line_ok room_ok_def set_buffer_def)
  ultimately show ?thesis
    using sent_to_on_line [OF assms(1) st line] Line_read by auto
next
  case (Read_failed p ec)
  have "(\<lambda>c. s_buffer (sessions srv1 c)) = (\<lambda>c. s_buffer (sessions srv c))"
    using assms(3) Read_failed by (auto simp: room_defs)
  moreover have "set (participants srv1) = set (participants srv) - {p}"
    using assms(3) Read_failed by (auto simp: room_defs)
  moreover have "sent_to q srv1 = sent_to q srv"
    using assms(3) Read_failed by (auto simp: room_defs sent_to_def)
  ultimately show ?thesis using Read_failed by simp
next
  case (Write_done p ec)
  have "sessions srv1 = sessions srv" "participants srv1 = participants srv" "sent_to q srv1 = sent_to q srv"
    using assms(3) Write_done by (auto simp: room_defs sent_to_def split: option.splits)
  with Write_done show ?thesis by simp
qed

lemma chat_run_heard:
  "room_ok srv \<Longrightarrow> list_all storage_ok evs \<Longrightarrow>
     \<exists>srv'. chat_run evs srv = Inr srv' \<and> room_ok srv' \<and>
       sent_to q srv' = sent_to q srv @
         map clip (heard q (\<lambda>p. s_buffer (sessions srv p)) (set (participants srv)) evs)"
proof (induction evs arbitrary: srv)
  case Nil
  then show ?case by simp
next
  case (Cons ev evs)
  obtain srv1 where step: "chat_step ev srv = Inr srv1" and ok: "room_ok srv1"
    using room_ok_step Cons.prems by fastforce
  have ev: "storage_ok ev" using Cons.prems(2) by simp
  obtain srv2 where "chat_run evs srv1 = Inr srv2" and "room_ok srv2"
    and "sent_to q srv2 = sent_to q srv1
      @ map clip (heard q (\<lambda>p. s_buffer (sessions srv1 p)) (set (participants srv1)) evs)"
    using Cons.IH [OF ok] Cons.prems by auto
  with step show ?case
    unfolding chat_step_heard [OF Cons.prems(1) ev step] by simp
qed

end
