(* ===== verification/Chat_Stream.thy ===== *)
theory Chat_Stream
  imports Chat_Broadcast
begin

text \<open>
  Byte streams of the chat room: how the server's session, which keeps one stream buffer,
  cuts the bytes of a client into lines, what a run of the server sends to whom, and its
  \<^verbatim>\<open>main\<close>.
\<close>

section \<open>The contract of async\_read\_until\<close>

text \<open>
  The documented contract: the operation completes when the buffer holds the delimiter,
  and the count it reports is the number of bytes up to and including the first one. The
  buffer may hold more.
\<close>

definition read_until_ok :: "string \<Rightarrow> nat \<Rightarrow> bool" where
  "read_until_ok avail n = (case str_find avail NL of None \<Rightarrow> False | Some i \<Rightarrow> n = Suc i)"

text \<open>A session's successive reads: the bytes each added to the buffer, and its count.\<close>

fun read_all :: "string \<Rightarrow> (string \<times> nat) list \<Rightarrow> string list \<times> string" where
  "read_all buf [] = ([], buf)"
| "read_all buf ((received, n) # rs) =
     (let (line, rest) = take_line buf received n; (ls, rest') = read_all rest rs
      in (line # ls, rest'))"

fun reads_ok :: "string \<Rightarrow> (string \<times> nat) list \<Rightarrow> bool" where
  "reads_ok buf [] = True"
| "reads_ok buf ((received, n) # rs) =
     (read_until_ok (buf @ received) n \<and> reads_ok (snd (take_line buf received n)) rs)"

lemma read_until_okE:
  assumes "read_until_ok avail n"
  obtains l rest where "avail = l @ NL # rest" and "NL \<notin> set l" and "n = Suc (length l)"
  using assms by (auto simp: read_until_ok_def str_find_Some_iff split: option.splits)

text \<open>
  Reassembly: the lines that the reads cut off are the first lines of the whole stream,
  each with its newline, and the buffer holds the rest of the stream.
\<close>

lemma read_all_lines:
  assumes "reads_ok buf rs" and "read_all buf rs = (ls, rest)"
  shows "\<exists>lines. ls = map (\<lambda>l. l @ [NL]) lines \<and> length lines = length rs
     \<and> read_lines (buf @ concat (map fst rs)) = lines @ read_lines rest"
  using assms
proof (induction rs arbitrary: buf ls)
  case Nil
  then show ?case by simp
next
  case (Cons rn rs)
  obtain received n where rn: "rn = (received, n)" by (cases rn)
  from Cons.prems(1) have "read_until_ok (buf @ received) n"
    by (simp add: rn)
  then obtain l tail where avail: "buf @ received = l @ NL # tail" and l: "NL \<notin> set l"
    and n: "n = Suc (length l)"
    by (rule read_until_okE)
  have cut: "take_line buf received n = (l @ [NL], tail)"
    unfolding take_line_def avail n by simp
  obtain ls' where rec: "read_all tail rs = (ls', rest)" and ls: "ls = (l @ [NL]) # ls'"
    using Cons.prems(2) by (auto simp: rn cut split: prod.splits)
  have "reads_ok tail rs"
    using Cons.prems(1) by (simp add: rn cut)
  from Cons.IH [OF this rec] obtain lines where
    lines: "ls' = map (\<lambda>l. l @ [NL]) lines" "length lines = length rs"
      "read_lines (tail @ concat (map fst rs)) = lines @ read_lines rest"
    by blast
  have "buf @ concat (map fst (rn # rs)) = (buf @ received) @ concat (map fst rs)"
    by (simp add: rn)
  also have "\<dots> = l @ NL # (tail @ concat (map fst rs))"
    unfolding avail by simp
  finally have "read_lines (buf @ concat (map fst (rn # rs))) = l # lines @ read_lines rest"
    using read_lines_line [OF l, of "tail @ concat (map fst rs)"] lines(3) by (simp only:)
  with ls lines(1,2) show ?case
    by (intro exI [of _ "l # lines"]) simp
qed

text \<open>A client that speaks alone: its reads as events.\<close>

definition read_events :: "participant \<Rightarrow> string \<Rightarrow> (string \<times> nat) list \<Rightarrow> chat_event list" where
  "read_events p storage rs = map (\<lambda>(received, n). Line_read p received n storage) rs"

lemma read_events_storage: "length storage = 516 \<Longrightarrow> list_all storage_ok (read_events p storage rs)"
  by (induction rs) (auto simp: read_events_def)

lemma heard_read_events:
  "q \<in> members \<Longrightarrow> q \<noteq> p \<Longrightarrow>
     heard q buf members (read_events p storage rs) = fst (read_all (buf p) rs)"
  by (induction rs arbitrary: buf)
    (auto simp: read_events_def take_line_def split_beta Let_def)

lemma buffer_read_events:
  "room_ok srv \<Longrightarrow> length storage = 516 \<Longrightarrow> chat_run (read_events p storage rs) srv = Inr srv' \<Longrightarrow>
     s_buffer (sessions srv' p) = snd (read_all (s_buffer (sessions srv p)) rs)"
proof (induction rs arbitrary: srv)
  case Nil
  then show ?case by (simp add: read_events_def)
next
  case (Cons rn rs)
  obtain received n where rn: "rn = (received, n)" by (cases rn)
  obtain srv1 where step: "on_line p received n storage srv = Inr srv1"
    and run: "chat_run (read_events p storage rs) srv1 = Inr srv'"
    using Cons.prems(3) by (auto simp: read_events_def rn split: sum.splits)
  have ok: "room_ok srv1"
    using room_ok_step [OF Cons.prems(1), of "Line_read p received n storage"] step Cons.prems(2)
    by auto
  have "s_buffer (sessions srv1 p) = snd (take_line (s_buffer (sessions srv p)) received n)"
    using step Cons.prems(1,2) by (auto simp: on_line_ok room_ok_def set_buffer_def take_line_def)
  with Cons.IH [OF ok Cons.prems(2) run] show ?case
    by (simp add: rn split_beta Let_def)
qed

section \<open>The program\<close>

text \<open>
  How \<^verbatim>\<open>main\<close> ends or goes on after the completions \<open>evs\<close>; \<open>bound\<close> tells whether the
  acceptor could be opened on the port. Exceptions of \<^verbatim>\<open>std::string\<close> are caught; accesses
  outside an array are undefined.
\<close>

datatype chat_end = Usage | Caught_exception | Serving chat_server | Undefined

definition chat_main :: "string list \<Rightarrow> bool \<Rightarrow> chat_event list \<Rightarrow> chat_end" where
  "chat_main argv bound evs =
     (if length argv < 2 then Usage
      else if \<not> bound then Caught_exception
      else
        (case chat_run evs chat_init of
           Inl f \<Rightarrow> (if f = Length_error \<or> f = Out_of_range then Caught_exception else Undefined)
         | Inr srv \<Rightarrow> Serving srv))"

fun exit_status :: "chat_end \<Rightarrow> int option" where
  "exit_status Usage = Some 1"
| "exit_status Caught_exception = Some 0"
| "exit_status (Serving srv) = None"
| "exit_status Undefined = None"

text \<open>With a port it can open, the server is never ended by what its clients do.\<close>

lemma chat_main_serves:
  assumes "2 \<le> length argv" and "list_all storage_ok evs"
  shows "\<exists>srv. chat_main argv True evs = Serving srv \<and> room_ok srv"
proof -
  obtain srv where "chat_run evs chat_init = Inr srv" "room_ok srv"
    using chat_run_heard [OF room_ok_init assms(2)] by blast
  then show ?thesis
    using assms(1) by (simp add: chat_main_def)
qed

section \<open>Properties\<close>

text \<open>
  One delivery. From a server whose queues are empty, \<^verbatim>\<open>Room::deliver\<close> of a message
  that carries a line asks for exactly one write per participant other than the sender,
  in the order of the set, of the first 512 bytes of the line, and leaves every queue
  empty; nothing else changes.
\<close>

lemma deliver_to_others_once:
  assumes "idle srv" and "length storage = 516" and "message_new storage line = Inr m"
  shows "room_deliver sender m srv = Inr (srv\<lparr>writes := writes srv
    @ map (\<lambda>q. (q, take 512 line, min (length line) 512))
        (filter (\<lambda>q. q \<noteq> sender) (participants srv))\<rparr>)"
proof -
  have "carries m line"
    using assms(2,3) carries_new [OF assms(2)] by (auto simp: message_new_frame)
  then show ?thesis
    using room_deliver_carries [OF assms(1)] by (simp add: clip_def)
qed

lemma deliver_to_others_once_witness:
  "\<exists>m. message_new (replicate 516 NUL) ''hi'' = Inr m \<and>
     room_deliver (Participant 2) m (chat_init\<lparr>participants := [Participant 1, Participant 2, Participant 3]\<rparr>)
       = Inr (chat_init\<lparr>participants := [Participant 1, Participant 2, Participant 3], writes := [(Participant 1, ''hi'', 2), (Participant 3, ''hi'', 2)]\<rparr>)"
proof -
  have i: "idle (chat_init\<lparr>participants := [Participant 1, Participant 2, Participant 3]\<rparr>)"
    by (simp add: idle_def chat_init_def session_new_def)
  have s: "length (replicate 516 NUL) = 516" by simp
  have m: "message_new (replicate 516 NUL) ''hi'' =
      Inr \<lparr>msg_data = frame (replicate 516 NUL) ''hi'', msg_bodyLength = 2\<rparr>"
    by (simp add: message_new_frame)
  show ?thesis
    using m deliver_to_others_once [OF i s m, of "Participant 2"] by (simp add: chat_init_def)
qed

text \<open>
  C8: A run of the server. Whatever clients connect, send and disconnect, no handler
  ever overruns a message or lets an exception of the string operations escape (the lifetimes
  of the buffers of asynchronous writes are not modelled), and every participant is sent, once and in order, the first 512 bytes of
  each line that another client completed while it was in the room, and nothing else.
\<close>

theorem chat_run_broadcasts:
  assumes "list_all storage_ok evs"
  shows "\<exists>srv'. chat_run evs chat_init = Inr srv' \<and> idle srv'
     \<and> sent_to q srv' = map clip (heard q (\<lambda>_. []) {} evs)"
proof -
  have "(\<lambda>p. s_buffer (sessions chat_init p)) = (\<lambda>_. [])"
    by (simp add: chat_init_def session_new_def)
  moreover have "set (participants chat_init) = {}" and "sent_to q chat_init = []"
    by (simp_all add: chat_init_def sent_to_def)
  ultimately show ?thesis
    using chat_run_heard [OF room_ok_init assms, of q] by (auto simp: room_ok_def)
qed

theorem chat_run_broadcasts_witness:
  "\<exists>srv'. chat_run [Accepted (Participant 1), Accepted (Participant 2), Line_read (Participant 1) [CHR ''a'', NL, CHR ''b''] 2 (replicate 516 NUL),
        Line_read (Participant 1) [NL] 2 (replicate 516 NUL), Write_done (Participant 2) None, Read_failed (Participant 1) Eof] chat_init = Inr srv'
     \<and> sent_to (Participant 2) srv' = [([CHR ''a'', NL], 2), ([CHR ''b'', NL], 2)]"
  using chat_run_broadcasts [of "[Accepted (Participant 1), Accepted (Participant 2),
      Line_read (Participant 1) [CHR ''a'', NL, CHR ''b''] 2 (replicate 516 NUL),
      Line_read (Participant 1) [NL] 2 (replicate 516 NUL), Write_done (Participant 2) None, Read_failed (Participant 1) Eof]" "Participant 2"]
  by (auto simp: clip_def)

text \<open>
  C20: Reassembly. However the network cuts the bytes of a client, as long as each
  completed read obeys the contract of \<^verbatim>\<open>async_read_until\<close>, another participant is sent
  for each read one line of the client's byte stream, in order: its newline included, and of
  that the first 512 bytes, so that a line of 512 characters or more arrives cut and without
  its newline. What is not yet sent is exactly what the session's buffer still holds.
\<close>

theorem session_reassembles_stream:
  assumes "room_ok srv" and "length storage = 516" and "q \<in> set (participants srv)" and "q \<noteq> p"
    and "reads_ok (s_buffer (sessions srv p)) rs"
  shows "\<exists>srv' lines. chat_run (read_events p storage rs) srv = Inr srv'
     \<and> sent_to q srv' = sent_to q srv @ map (\<lambda>l. clip (l @ [NL])) lines
     \<and> length lines = length rs
     \<and> read_lines (s_buffer (sessions srv p) @ concat (map fst rs))
         = lines @ read_lines (s_buffer (sessions srv' p))"
proof -
  let ?buf = "s_buffer (sessions srv p)"
  obtain ls rest where ra: "read_all ?buf rs = (ls, rest)"
    by (cases "read_all ?buf rs")
  obtain lines where lines: "ls = map (\<lambda>l. l @ [NL]) lines" "length lines = length rs"
      "read_lines (?buf @ concat (map fst rs)) = lines @ read_lines rest"
    using read_all_lines [OF assms(5) ra] by blast
  obtain srv' where run: "chat_run (read_events p storage rs) srv = Inr srv'"
    and sent: "sent_to q srv' = sent_to q srv @
      map clip (heard q (\<lambda>p. s_buffer (sessions srv p)) (set (participants srv)) (read_events p storage rs))"
    using chat_run_heard [OF assms(1) read_events_storage [OF assms(2)]] by blast
  have "s_buffer (sessions srv' p) = rest"
    using buffer_read_events [OF assms(1,2) run] ra by simp
  then show ?thesis
    using run sent lines ra assms(3,4)
    by (intro exI [of _ srv'] exI [of _ lines]) (simp add: heard_read_events)
qed

theorem session_reassembles_stream_witness:
  "\<exists>srv' lines. chat_run (read_events (Participant 1) (replicate 516 NUL) [(''he'' @ [CHR ''y'', NL, CHR ''z''], 4)])
        (on_accept (Participant 2) (on_accept (Participant 1) chat_init)) = Inr srv'
     \<and> sent_to (Participant 2) srv' = map (\<lambda>l. clip (l @ [NL])) lines \<and> length lines = 1"
proof -
  let ?srv = "on_accept (Participant 2) (on_accept (Participant 1) chat_init)"
  have ok: "room_ok ?srv"
    using room_ok_step [OF room_ok_init, of "Accepted (Participant 1)"] room_ok_step [of "on_accept (Participant 1) chat_init" "Accepted (Participant 2)"]
    by simp
  have st: "length (replicate 516 NUL) = 516" by simp
  have mem: "Participant 2 \<in> set (participants ?srv)" and ne: "Participant 2 \<noteq> Participant 1"
    by (simp_all add: room_defs set_insort_insert)
  have buf: "s_buffer (sessions ?srv (Participant 1)) = []" and none: "sent_to (Participant 2) ?srv = []"
    by (simp_all add: room_defs chat_init_def session_new_def sent_to_def)
  have r: "reads_ok (s_buffer (sessions ?srv (Participant 1))) [(''he'' @ [CHR ''y'', NL, CHR ''z''], 4)]"
    unfolding buf by (simp add: read_until_ok_def take_line_def)
  show ?thesis
    using session_reassembles_stream [OF ok st mem ne r] none by auto
qed

text \<open>
  A line of 512 bytes or more loses its newline: the message cuts it off, and the
  bodies written for it and for the next line read as a single line at the receiver.
\<close>

lemma long_line_glued:
  assumes "512 \<le> length l1" and "NL \<notin> set l1" and "length l2 < 512" and "NL \<notin> set l2"
    and "length storage = 516"
  shows "\<exists>m1 m2 b1 b2. message_new storage (l1 @ [NL]) = Inr m1 \<and> getBody m1 = Inr b1
    \<and> message_new storage (l2 @ [NL]) = Inr m2 \<and> getBody m2 = Inr b2
    \<and> read_lines (b1 @ b2) = [take 512 l1 @ l2]"
proof -
  from message_roundtrip_body [OF assms(5), of "l1 @ [NL]"] obtain m1 where
    m1: "message_new storage (l1 @ [NL]) = Inr m1" "getBody m1 = Inr (take 512 l1)"
    using assms(1) by auto
  from message_roundtrip_body [OF assms(5), of "l2 @ [NL]"] obtain m2 where
    m2: "message_new storage (l2 @ [NL]) = Inr m2" "getBody m2 = Inr (l2 @ [NL])"
    using assms(3) by auto
  have "NL \<notin> set (take 512 l1 @ l2)"
    using assms(2,4) by (auto dest: in_set_takeD)
  from read_lines_line [OF this, of "[]"] show ?thesis
    using m1 m2 by simp
qed

lemma long_line_glued_witness:
  "\<exists>m1 m2 b1 b2. message_new (replicate 516 NUL) (replicate 600 CHR ''a'' @ [NL]) = Inr m1 \<and> getBody m1 = Inr b1
    \<and> message_new (replicate 516 NUL) (''b'' @ [NL]) = Inr m2 \<and> getBody m2 = Inr b2
    \<and> read_lines (b1 @ b2) = [take 512 (replicate 600 CHR ''a'') @ ''b'']"
  by (rule long_line_glued) simp_all

end
