(* ===== verification/Chat_Client.thy ===== *)
theory Chat_Client
  imports Chat_Stream
begin

text \<open>
  The chat client (\<^verbatim>\<open>chatroom-app/client.cpp\<close>): the handler of a read, which has a new
  stream buffer every time, the input thread, the event loop that runs what the thread
  posts, and both ends of the chat together.
\<close>

section \<open>Reading and typing\<close>

text \<open>
  \<^verbatim>\<open>async_read\<close> of the client makes a new stream buffer, so what a read returns is
  \<open>received\<close> alone; the handler prints its first line and drops the buffer.
\<close>

definition client_on_read :: "string \<Rightarrow> string" where
  "client_on_read received = (case getline received of None \<Rightarrow> [] | Some (l, _) \<Rightarrow> l)"

definition client_shown :: "(string \<times> nat) list \<Rightarrow> string list" where
  "client_shown rs = map (\<lambda>(received, n). client_on_read received) rs"

lemma client_on_read_line: "NL \<notin> set l \<Longrightarrow> client_on_read (l @ NL # rest) = l"
  by (simp add: client_on_read_def getline_def takeWhile_append_stop)

text \<open>
  The input thread, \<open>n\<close> iterations of \<^verbatim>\<open>while (true)\<close>: the result of \<^verbatim>\<open>getline\<close> is
  not looked at, so a failed read posts an empty line.
\<close>

fun client_posts :: "nat \<Rightarrow> string \<Rightarrow> string list" where
  "client_posts 0 input = []"
| "client_posts (Suc n) input =
     (case getline input of
        None \<Rightarrow> [NL] # client_posts n []
      | Some (data, rest) \<Rightarrow> (data @ [NL]) # client_posts n rest)"

lemma client_posts_eof: "client_posts n [] = replicate n [NL]"
  by (induction n) (simp_all add: getline_def)

lemma client_posts_lines:
  "client_posts (length (read_lines input) + k) input
     = map (\<lambda>l. l @ [NL]) (read_lines input) @ replicate k [NL]"
proof (induction input rule: read_lines.induct)
  case (1 input)
  show ?case
  proof (cases "getline input")
    case None
    then have "input = []" by (simp add: getline_def split: if_splits)
    then show ?thesis by (simp add: client_posts_eof)
  next
    case (Some lr)
    then obtain l r where lr: "getline input = Some (l, r)" by (cases lr) auto
    then have "read_lines input = l # read_lines r"
      by (simp add: read_lines.simps [of input])
    with lr "1.IH" [OF lr refl] show ?thesis by simp
  qed
qed

text \<open>
  The client loses lines that arrive together. For every read it shows one line, the
  first of the bytes received; if these hold a second complete line, that line is in the
  stream but is never shown.
\<close>

lemma client_drops_coalesced_line:
  assumes "NL \<notin> set l1" and "NL \<notin> set l2"
  shows "read_until_ok (l1 @ NL # l2 @ [NL]) (Suc (length l1))
     \<and> client_shown [(l1 @ NL # l2 @ [NL], Suc (length l1))] = [l1]
     \<and> read_lines (l1 @ NL # l2 @ [NL]) = [l1, l2]"
proof -
  have "read_lines (l2 @ [NL]) = [l2]"
    using read_lines_line [OF assms(2), of "[]"] by simp
  then show ?thesis
    using assms(1) by (simp add: read_until_ok_def str_find_append client_shown_def client_on_read_line)
qed

lemma client_drops_coalesced_line_witness:
  "client_shown [(''one'' @ NL # ''two'' @ [NL], Suc (length ''one''))] = [''one'']
   \<and> read_lines (''one'' @ NL # ''two'' @ [NL]) = [''one'', ''two'']"
proof -
  have "NL \<notin> set ''one''" and "NL \<notin> set ''two''" by simp_all
  from client_drops_coalesced_line [OF this] show ?thesis by simp
qed

text \<open>
  The client's input thread never stops: it posts every input line with a newline,
  and from the end of the input on it posts an empty line in every further iteration.
\<close>

lemma client_floods_after_eof:
  "client_posts (length (read_lines input) + k) input
     = map (\<lambda>l. l @ [NL]) (read_lines input) @ replicate k [NL]"
  by (rule client_posts_lines)

section \<open>The event loop\<close>

text \<open>
  \<open>c_posted\<close> holds the handlers that the input thread has posted and \<^verbatim>\<open>io_context.run\<close> has
  not run yet, by the data they will write; \<open>c_reading\<close> tells that an \<^verbatim>\<open>async_read_until\<close> is
  outstanding, \<open>c_stopped\<close> that \<^verbatim>\<open>run\<close> has returned, \<open>c_aborted\<close> that an exception left
  \<^verbatim>\<open>run\<close>, which nothing catches.
\<close>

record chat_client =
  c_input :: string
  c_prompts :: nat
  c_posted :: "string list"
  c_written :: "string list"
  c_shown :: "string list"
  c_reading :: bool
  c_stopped :: bool
  c_aborted :: bool

datatype client_event = Input_turn | Read_done string nat | Read_error | Write_posted | Write_throws | Run_returns

text \<open>One iteration of the thread.\<close>

definition input_turn :: "chat_client \<Rightarrow> chat_client" where
  "input_turn c =
     (let (data, rest) = (case getline (c_input c) of None \<Rightarrow> ([], []) | Some lr \<Rightarrow> lr)
      in c\<lparr>c_input := rest, c_prompts := c_prompts c + 1, c_posted := c_posted c @ [data @ [NL]]\<rparr>)"

text \<open>The synchronous write in a posted handler throws when the connection has failed.\<close>

fun client_step :: "client_event \<Rightarrow> chat_client \<Rightarrow> chat_client option" where
  "client_step Input_turn c = (if c_aborted c then None else Some (input_turn c))"
| "client_step (Read_done received n) c =
     (if c_aborted c \<or> c_stopped c \<or> \<not> c_reading c then None
      else Some (c\<lparr>c_shown := c_shown c @ [''Server: '' @ client_on_read received]\<rparr>))"
| "client_step Read_error c =
     (if c_aborted c \<or> c_stopped c \<or> \<not> c_reading c then None else Some (c\<lparr>c_reading := False\<rparr>))"
| "client_step Write_posted c =
     (if c_aborted c \<or> c_stopped c then None
      else
        (case c_posted c of
           [] \<Rightarrow> None
         | data # posted \<Rightarrow> Some (c\<lparr>c_posted := posted, c_written := c_written c @ [data]\<rparr>)))"
| "client_step Write_throws c =
     (if c_aborted c \<or> c_stopped c \<or> c_posted c = [] then None else Some (c\<lparr>c_aborted := True\<rparr>))"
| "client_step Run_returns c =
     (if c_aborted c \<or> c_stopped c \<or> c_reading c \<or> c_posted c \<noteq> [] then None
      else Some (c\<lparr>c_stopped := True\<rparr>))"

fun client_run :: "client_event list \<Rightarrow> chat_client \<Rightarrow> chat_client option" where
  "client_run [] c = Some c"
| "client_run (ev # evs) c = (case client_step ev c of None \<Rightarrow> None | Some c' \<Rightarrow> client_run evs c')"

text \<open>\<^verbatim>\<open>main\<close> until it waits; a failing \<^verbatim>\<open>connect\<close> throws, and nothing catches that either.\<close>

datatype client_begin = No_port | Not_connected | Connected chat_client

definition chat_client_main :: "string list \<Rightarrow> bool \<Rightarrow> string \<Rightarrow> client_begin" where
  "chat_client_main argv connects input =
     (if length argv < 2 then No_port
      else if \<not> connects then Not_connected
      else Connected \<lparr>c_input = input, c_prompts = 0, c_posted = [], c_written = [], c_shown = [],
        c_reading = True, c_stopped = False, c_aborted = False\<rparr>)"

text \<open>What is written is what was typed, in order; the rest is still posted.\<close>

lemma input_turn_posts:
  "c_written (input_turn c) @ c_posted (input_turn c) @ client_posts k (c_input (input_turn c))
     = c_written c @ c_posted c @ client_posts (Suc k) (c_input c)"
  by (auto simp: input_turn_def split: option.split prod.split)

lemma client_step_posts:
  assumes "client_step ev c = Some c'"
  shows "\<exists>d. c_prompts c' = c_prompts c + d \<and> (\<forall>k.
    c_written c' @ c_posted c' @ client_posts k (c_input c')
      = c_written c @ c_posted c @ client_posts (d + k) (c_input c))"
proof (cases ev)
  case Input_turn
  then have "c' = input_turn c" using assms by (simp split: if_splits)
  then show ?thesis
    using input_turn_posts [of c]
    by (intro exI [of _ 1]) (simp add: input_turn_def split: option.split prod.split)
qed (use assms in \<open>auto split: if_splits list.splits\<close>)

lemma client_run_posts:
  "client_run evs c = Some c' \<Longrightarrow> \<exists>d. c_prompts c' = c_prompts c + d \<and> (\<forall>k.
    c_written c' @ c_posted c' @ client_posts k (c_input c')
      = c_written c @ c_posted c @ client_posts (d + k) (c_input c))"
proof (induction evs arbitrary: c)
  case Nil
  then show ?case by (intro exI [of _ 0]) simp
next
  case (Cons ev evs)
  obtain c1 where c1: "client_step ev c = Some c1" "client_run evs c1 = Some c'"
    using Cons.prems by (auto split: option.splits)
  obtain d e where d: "c_prompts c1 = c_prompts c + d" "\<And>k.
      c_written c1 @ c_posted c1 @ client_posts k (c_input c1)
        = c_written c @ c_posted c @ client_posts (d + k) (c_input c)"
    and e: "c_prompts c' = c_prompts c1 + e" "\<And>k.
      c_written c' @ c_posted c' @ client_posts k (c_input c')
        = c_written c1 @ c_posted c1 @ client_posts (e + k) (c_input c1)"
    using client_step_posts [OF c1(1)] Cons.IH [OF c1(2)] by blast
  show ?case
    by (intro exI [of _ "d + e"]) (simp add: d(1) e(1) e(2) d(2) add.assoc)
qed

lemma client_main_posts:
  assumes "chat_client_main argv connects input = Connected c" and "client_run evs c = Some c'"
  shows "c_written c' @ c_posted c' = client_posts (c_prompts c') input"
proof -
  have c: "c_prompts c = 0" "c_written c = []" "c_posted c = []" "c_input c = input"
    using assms(1) by (auto simp: chat_client_main_def split: if_splits)
  show ?thesis
    using client_run_posts [OF assms(2)] c by (auto dest: spec [of _ 0])
qed

text \<open>
  When the connection is lost the client goes on reading its input for ever: after \<^verbatim>\<open>run\<close> has
  returned nothing is written any more, and the thread can always take another turn.
\<close>

lemma client_stopped_step:
  "client_step ev c = Some c' \<Longrightarrow> c_stopped c \<and> \<not> c_aborted c \<Longrightarrow>
    c_stopped c' \<and> \<not> c_aborted c' \<and> c_written c' = c_written c \<and> c_shown c' = c_shown c"
  by (cases ev) (auto simp: input_turn_def split: if_splits list.splits prod.splits)

lemma client_outlives_connection:
  assumes "client_run evs c = Some c'" and "c_stopped c" and "\<not> c_aborted c"
  shows "c_written c' = c_written c \<and> c_shown c' = c_shown c \<and>
    client_step Input_turn c' = Some (input_turn c')"
  using assms
proof (induction evs arbitrary: c)
  case (Cons ev evs)
  obtain c1 where "client_step ev c = Some c1" "client_run evs c1 = Some c'"
    using Cons.prems(1) by (auto split: option.splits)
  then show ?case
    using Cons.IH [of c1] client_stopped_step [of ev c c1] Cons.prems(2,3) by simp
qed simp

text \<open>A client that gets one line with each read shows them all.\<close>

lemma client_reads_lines:
  "c_reading d \<Longrightarrow> \<not> c_stopped d \<Longrightarrow> \<not> c_aborted d \<Longrightarrow> \<forall>l \<in> set ls. NL \<notin> set l \<Longrightarrow>
    \<exists>d'. client_run (map (\<lambda>l. Read_done (l @ [NL]) (length l + 1)) ls) d = Some d' \<and>
      c_shown d' = c_shown d @ map (\<lambda>l. ''Server: '' @ l) ls"
proof (induction ls arbitrary: d)
  case (Cons l ls)
  let ?d = "d\<lparr>c_shown := c_shown d @ [''Server: '' @ l]\<rparr>"
  have "client_step (Read_done (l @ [NL]) (length l + 1)) d = Some ?d"
    using Cons.prems client_on_read_line [of l "[]"] by simp
  then show ?case
    using Cons.IH [of ?d] Cons.prems by simp
qed simp

section \<open>Both ends\<close>

lemma heard_from:
  assumes "p \<noteq> q"
  shows "heard q (\<lambda>_. []) {} (Accepted p # Accepted q # read_events p storage rs) = fst (read_all [] rs)"
  using heard_read_events [of q "{q, p}" p "\<lambda>_. []" storage rs] assms by (simp add: fun_upd_idem)

text \<open>What the server of two clients sends to the second when the first types lines.\<close>

lemma lines_sent:
  assumes "p \<noteq> q" and "length storage = 516" and "reads_ok [] rs" and "length rs = length lines"
    and "concat (map fst rs) = concat (map (\<lambda>l. l @ [NL]) lines)" and "\<forall>l \<in> set lines. NL \<notin> set l"
  obtains srv where "chat_run (Accepted p # Accepted q # read_events p storage rs) chat_init = Inr srv"
    and "sent_to q srv = map (\<lambda>l. clip (l @ [NL])) lines"
proof -
  obtain ls rest where ra: "read_all [] rs = (ls, rest)"
    by (cases "read_all [] rs")
  obtain lines' where l': "ls = map (\<lambda>l. l @ [NL]) lines'" "length lines' = length rs"
    "read_lines (concat (map fst rs)) = lines' @ read_lines rest"
    using read_all_lines [OF assms(3) ra] by auto
  have "lines' @ read_lines rest = lines"
    using l'(3) assms(5) read_lines_concat [OF assms(6)] by simp
  then have "lines' = lines"
    using l'(2) assms(4) by (metis append_eq_append_conv append_Nil2)
  then have h: "heard q (\<lambda>_. []) {} (Accepted p # Accepted q # read_events p storage rs) = map (\<lambda>l. l @ [NL]) lines"
    using heard_from [OF assms(1)] ra l'(1) by simp
  have "list_all storage_ok (Accepted p # Accepted q # read_events p storage rs)"
    using read_events_storage [OF assms(2)] by simp
  then obtain srv where srv: "chat_run (Accepted p # Accepted q # read_events p storage rs) chat_init = Inr srv"
    "sent_to q srv = sent_to q chat_init @
      map clip (heard q (\<lambda>r. s_buffer (sessions chat_init r)) (set (participants chat_init))
        (Accepted p # Accepted q # read_events p storage rs))"
    using chat_run_heard [OF room_ok_init] by blast
  have "sent_to q srv = map clip (map (\<lambda>l. l @ [NL]) lines)"
    using srv(2) unfolding chat_init_def session_new_def by (simp add: sent_to_def h del: heard.simps)
  then show thesis
    using that srv(1) by (simp add: comp_def)
qed

text \<open>
  C9: from the keyboard to the screen. When a user types lines of fewer than 512
  characters, and all of them have been written to the server, then however the network cut
  their bytes the server sends them on, and another client that receives each write of the
  server with one read shows exactly these lines, in order.
\<close>

theorem chat_end_to_end:
  assumes "chat_client_main argv True (concat (map (\<lambda>l. l @ [NL]) lines)) = Connected c"
    and "client_run evs c = Some c'" and "c_prompts c' = length lines" and "c_posted c' = []"
    and "\<forall>l \<in> set lines. NL \<notin> set l \<and> length l < 512"
    and "reads_ok [] rs" and "concat (map fst rs) = concat (c_written c')" and "length rs = length lines"
    and "p \<noteq> q" and "length storage = 516" and "2 \<le> length port"
    and "chat_client_main argv' True input' = Connected d"
  shows "\<exists>srv d'. chat_main port True (Accepted p # Accepted q # read_events p storage rs) = Serving srv \<and>
    client_run (map (\<lambda>(bytes, n). Read_done bytes n) (sent_to q srv)) d = Some d' \<and>
    c_shown d' = map (\<lambda>l. ''Server: '' @ l) lines"
proof -
  have nl: "\<forall>l \<in> set lines. NL \<notin> set l"
    using assms(5) by blast
  have "c_written c' = client_posts (length lines) (concat (map (\<lambda>l. l @ [NL]) lines))"
    using client_main_posts [OF assms(1,2)] assms(3,4) by simp
  also have "\<dots> = map (\<lambda>l. l @ [NL]) lines"
    using client_posts_lines [of "concat (map (\<lambda>l. l @ [NL]) lines)" 0] read_lines_concat [OF nl] by simp
  finally have w: "concat (map fst rs) = concat (map (\<lambda>l. l @ [NL]) lines)"
    using assms(7) by simp
  obtain srv where srv: "chat_run (Accepted p # Accepted q # read_events p storage rs) chat_init = Inr srv"
    "sent_to q srv = map (\<lambda>l. clip (l @ [NL])) lines"
    using lines_sent [OF assms(9,10,6,8) w nl] by blast
  have "clip (l @ [NL]) = (l @ [NL], length l + 1)" if "l \<in> set lines" for l
    using assms(5) that by (auto simp: clip_def simp del: take_append intro: take_all)
  then have "map (\<lambda>(bytes, n). Read_done bytes n) (sent_to q srv)
      = map (\<lambda>l. Read_done (l @ [NL]) (length l + 1)) lines"
    by (simp add: srv(2))
  moreover have "c_reading d" "\<not> c_stopped d" "\<not> c_aborted d" "c_shown d = []"
    using assms(12) by (auto simp: chat_client_main_def split: if_splits)
  ultimately obtain d' where
    "client_run (map (\<lambda>(bytes, n). Read_done bytes n) (sent_to q srv)) d = Some d'"
    "c_shown d' = map (\<lambda>l. ''Server: '' @ l) lines"
    using client_reads_lines [of d lines] nl by auto
  then show ?thesis
    using srv(1) assms(11) by (auto simp: chat_main_def)
qed

lemma chat_end_to_end_witness:
  "\<exists>srv d d'. chat_main [''server'', ''9000''] True (Accepted (Participant 1) # Accepted (Participant 2)
      # read_events (Participant 1) (replicate 516 NUL) [([CHR ''a'', NL, CHR ''b''], 2), ([NL], 2)]) = Serving srv \<and>
    client_run (map (\<lambda>(bytes, n). Read_done bytes n) (sent_to (Participant 2) srv)) d = Some d' \<and>
    c_shown d' = [''Server: a'', ''Server: b'']"
proof -
  let ?input = "concat (map (\<lambda>l. l @ [NL]) [''a'', ''b''])"
  obtain c where c: "chat_client_main [''client'', ''9000''] True ?input = Connected c"
    by (simp add: chat_client_main_def)
  obtain c' where c': "client_run [Input_turn, Write_posted, Input_turn, Write_posted] c = Some c'"
    and f: "c_prompts c' = length [''a'', ''b'']" "c_posted c' = []" "c_written c' = [''a'' @ [NL], ''b'' @ [NL]]"
    using c by (auto simp: chat_client_main_def input_turn_def getline_def)
  have r: "reads_ok [] [([CHR ''a'', NL, CHR ''b''], 2), ([NL], 2)]"
    by (simp add: read_until_ok_def take_line_def)
  obtain d where d: "chat_client_main [''client'', ''9000''] True [] = Connected d"
    by (simp add: chat_client_main_def)
  have "\<exists>srv d'. chat_main [''server'', ''9000''] True (Accepted (Participant 1) # Accepted (Participant 2)
      # read_events (Participant 1) (replicate 516 NUL) [([CHR ''a'', NL, CHR ''b''], 2), ([NL], 2)]) = Serving srv \<and>
    client_run (map (\<lambda>(bytes, n). Read_done bytes n) (sent_to (Participant 2) srv)) d = Some d' \<and>
    c_shown d' = map (\<lambda>l. ''Server: '' @ l) [''a'', ''b'']"
    by (rule chat_end_to_end [OF c c' f(1,2) _ r _ _ _ _ _ d]) (simp_all add: f(3))
  then show ?thesis by auto
qed

end
