(* ===== verification/Http_Server.thy ===== *)
theory Http_Server
  imports Wire "HOL-Library.Sublist"
begin

text \<open>
  The static file server (\<^verbatim>\<open>http_server/\<close>): \<^verbatim>\<open>FileUtils\<close>, \<^verbatim>\<open>RequestHandler\<close> and
  \<^verbatim>\<open>HttpServer\<close>. The file system is the parameter \<open>fs\<close>: what reading the file that a
  path names gives, \<open>None\<close> when it cannot be opened. The results of the socket calls are
  arguments, and what a connection delivers is an \<open>incoming\<close> of \<open>Wire\<close>.
\<close>

section \<open>FileUtils\<close>

text \<open>\<^verbatim>\<open>str.compare(pos, n, suffix) == 0\<close> compares the suffix with the end of the string.\<close>

definition ends_with :: "string \<Rightarrow> string \<Rightarrow> bool" where
  "ends_with str suff \<longleftrightarrow>
     length suff \<le> length str \<and> substr str (length str - length suff) (length suff) = Some suff"

definition readFile :: "(string \<Rightarrow> string option) \<Rightarrow> string \<Rightarrow> string" where
  "readFile fs path = (case fs path of None \<Rightarrow> '''' | Some content \<Rightarrow> content)"

definition getMimeType :: "string \<Rightarrow> string" where
  "getMimeType path =
     (if ends_with path ''.html'' then ''text/html''
      else if ends_with path ''.css'' then ''text/css''
      else if ends_with path ''.js'' then ''application/javascript''
      else if ends_with path ''.png'' then ''image/png''
      else if ends_with path ''.jpg'' then ''image/jpeg''
      else if ends_with path ''.ico'' then ''image/x-icon''
      else ''text/plain'')"

section \<open>RequestHandler\<close>

definition CRLF :: string where "CRLF = [CR, NL]"

definition not_found :: string where
  "not_found = ''HTTP/1.1 404 Not Found'' @ CRLF @ ''Content-Type: text/plain'' @ CRLF @ CRLF
     @ ''File Not Found''"

definition ok_response :: "string \<Rightarrow> string \<Rightarrow> string" where
  "ok_response mime content =
     ''HTTP/1.1 200 OK'' @ CRLF @ ''Content-Type: '' @ mime @
     CRLF @ ''Content-Length: '' @ dec (length content) @
     CRLF @ CRLF @ content"

definition handle :: "(string \<Rightarrow> string option) \<Rightarrow> string \<Rightarrow> string" where
  "handle fs rawRequest =
     (let (req_method, ss1) = next_token rawRequest;
          (path, ss2) = next_token ss1;
          (http_version, ss3) = next_token ss2;
          path = (if path = ''/'' then ''/index.html'' else path);
          fullPath = ''static'' @ path;
          content = readFile fs fullPath
      in if content = [] then not_found
         else ok_response (getMimeType fullPath) content)"

section \<open>HttpServer\<close>

text \<open>
  One \<^verbatim>\<open>recv\<close> into 4095 of the 4096 bytes; a result that is not positive gives the empty
  string. The bytes are terminated and read back as a C string.
\<close>

definition recv_max :: nat where "recv_max = 4095"

definition read_request :: "incoming \<Rightarrow> string" where
  "read_request es =
     (case fst (sock_recv recv_max es) of
        None \<Rightarrow> ''''
      | Some bs \<Rightarrow> if 0 < length bs then c_string (bs @ [NUL]) else '''')"

datatype http_action = Send int string | Close int

definition handle_client ::
  "(string \<Rightarrow> string option) \<Rightarrow> int \<Rightarrow> incoming \<Rightarrow> http_action list" where
  "handle_client fs client_fd es =
     (let request = read_request es;
          response = handle fs request
      in [Send client_fd response, Close client_fd])"

text \<open>
  \<^verbatim>\<open>start\<close>: a failing call is reported and the method returns; otherwise a line is
  printed, and every non-negative result of \<^verbatim>\<open>accept\<close> gets a detached thread that runs
  \<open>handle_client\<close>.
\<close>

datatype http_start = Perror string | Running string "int list"

fun accept_loop :: "int list \<Rightarrow> int list" where
  "accept_loop [] = []"
| "accept_loop (client_fd # fds) =
     (if client_fd \<ge> 0 then client_fd # accept_loop fds else accept_loop fds)"

definition server_start :: "nat \<Rightarrow> int \<Rightarrow> int \<Rightarrow> int \<Rightarrow> int list \<Rightarrow> http_start" where
  "server_start port server_fd bind_result listen_result accepted =
     (if server_fd = - 1 then Perror ''socket''
      else if bind_result < 0 then Perror ''bind''
      else if listen_result < 0 then Perror ''listen''
      else Running (''HTTP server running on port '' @ dec port @ ''...'' @ [NL]) (accept_loop accepted))"

definition http_main :: "int \<Rightarrow> int \<Rightarrow> int \<Rightarrow> int list \<Rightarrow> http_start" where
  "http_main = server_start 8080"

section \<open>Suffixes and media types\<close>

lemma ends_with_suffix: "ends_with str suff \<longleftrightarrow> suffix suff str"
proof
  assume e: "ends_with str suff"
  then have "drop (length str - length suff) str = suff"
    by (simp add: ends_with_def substr_def split: if_splits)
  then have "str = take (length str - length suff) str @ suff"
    by (metis append_take_drop_id)
  then show "suffix suff str" by (rule suffixI)
next
  assume "suffix suff str"
  then obtain pre where "str = pre @ suff" by (auto simp: suffix_def)
  then show "ends_with str suff"
    by (simp add: ends_with_def substr_def)
qed

lemma ends_with_append [simp]: "ends_with (pre @ suff) suff"
  by (simp add: ends_with_suffix suffix_def)

definition mime_table :: "(string \<times> string) list" where
  "mime_table =
     [(''.html'', ''text/html''), (''.css'', ''text/css''), (''.js'', ''application/javascript''),
      (''.png'', ''image/png''), (''.jpg'', ''image/jpeg''), (''.ico'', ''image/x-icon'')]"

text \<open>Two different extensions of the table never end the same path.\<close>

lemma table_suffix:
  "\<forall>x \<in> set mime_table. \<forall>y \<in> set mime_table. suffix (fst x) (fst y) \<longrightarrow> snd x = snd y"
  by (simp add: mime_table_def suffix_to_prefix)

lemma table_exclusive:
  assumes "x \<in> set mime_table" and "y \<in> set mime_table"
    and "suffix (fst x) path" and "suffix (fst y) path"
  shows "snd x = snd y"
  using suffix_same_cases [OF assms(3,4)] table_suffix assms(1,2) by metis

lemma getMimeType_find:
  "getMimeType path =
     (case find (\<lambda>et. suffix (fst et) path) mime_table of
        None \<Rightarrow> ''text/plain'' | Some et \<Rightarrow> snd et)"
  by (simp only: getMimeType_def ends_with_suffix mime_table_def find.simps fst_conv snd_conv
      case_option_If option.case)

lemma getMimeType_hit:
  assumes "(e, t) \<in> set mime_table" and "suffix e path"
  shows "getMimeType path = t"
proof (cases "find (\<lambda>et. suffix (fst et) path) mime_table")
  case None
  then show ?thesis
    using assms by (auto simp: find_None_iff)
next
  case (Some et)
  then have "et \<in> set mime_table" and "suffix (fst et) path"
    by (auto simp: find_Some_iff)
  then have "snd et = t"
    using table_exclusive [of et "(e, t)" path] assms by simp
  with Some show ?thesis by (simp add: getMimeType_find)
qed

lemma getMimeType_miss:
  assumes "\<not> (\<exists>et \<in> set mime_table. suffix (fst et) path)"
  shows "getMimeType path = ''text/plain''"
proof -
  have "find (\<lambda>et. suffix (fst et) path) mime_table = None"
    using assms by (auto simp: find_None_iff)
  then show ?thesis by (simp add: getMimeType_find)
qed

section \<open>Requests\<close>

lemma is_space_SPC [simp]: "is_space SPC"
  by (simp add: is_space_def)

text \<open>What the request \<open>verb\<close>, \<open>path\<close> is answered with.\<close>

definition respond :: "(string \<Rightarrow> string option) \<Rightarrow> string \<Rightarrow> string" where
  "respond fs path =
     (let fullPath = ''static'' @ (if path = ''/'' then ''/index.html'' else path);
          content = readFile fs fullPath
      in if content = [] then not_found else ok_response (getMimeType fullPath) content)"

definition word :: "string \<Rightarrow> bool" where
  "word w \<longleftrightarrow> w \<noteq> [] \<and> (\<forall>c \<in> set w. \<not> is_space c)"

lemma next_token_of_word:
  "word w \<Longrightarrow> is_space b \<Longrightarrow> next_token (w @ b # rest) = (w, b # rest)"
  by (simp add: word_def next_token_word)

lemma handle_request_line:
  assumes "word verb" and "word path" and "is_space b"
  shows "handle fs (verb @ SPC # path @ b # rest) = respond fs path"
  using assms
  by (simp add: handle_def respond_def next_token_of_word next_token_space split_beta Let_def)

end
