(* ===== verification/Http_Response.thy ===== *)
theory Http_Response
  imports Http_Server
begin

text \<open>
  Correctness of the file server: its responses against a reader of HTTP responses,
  the choice between the two responses, the media types, and which files a request can
  name.
\<close>

section \<open>A reader of responses\<close>

text \<open>
  The reader splits the head into lines at CR LF up to the empty line and takes as many
  bytes of body as the \<^verbatim>\<open>Content-Length\<close> header says, all of them when there is none.
\<close>

fun split_crlf :: "string \<Rightarrow> (string \<times> string) option" where
  "split_crlf [] = None"
| "split_crlf [a] = None"
| "split_crlf (a # b # r) =
     (if a = CR \<and> b = NL then Some ([], r)
      else map_option (\<lambda>(l, rest). (a # l, rest)) (split_crlf (b # r)))"

lemma split_crlf_shorter: "split_crlf s = Some (l, r) \<Longrightarrow> length r < length s"
  by (induction s arbitrary: l rule: split_crlf.induct) (auto split: if_splits)

lemma split_crlf_line: "CR \<notin> set l \<Longrightarrow> split_crlf (l @ CRLF @ rest) = Some (l, rest)"
proof (induction l)
  case Nil
  then show ?case by (simp add: CRLF_def)
next
  case (Cons a l)
  then show ?case by (cases l) (auto simp: CRLF_def)
qed

function parse_head :: "string \<Rightarrow> (string list \<times> string) option" where
  "parse_head s =
     (case split_crlf s of
        None \<Rightarrow> None
      | Some (l, r) \<Rightarrow>
          if l = [] then Some ([], r)
          else map_option (\<lambda>(ls, body). (l # ls, body)) (parse_head r))"
  by pat_completeness auto
termination
  by (relation "measure length") (auto intro: split_crlf_shorter)

declare parse_head.simps [simp del]

definition content_length :: "string list \<Rightarrow> nat option" where
  "content_length hs =
     map_option (\<lambda>h. dec_value 0 (takeWhile is_digit (drop 16 h)))
       (find (\<lambda>h. prefix ''Content-Length: '' h) hs)"

definition http_parse :: "string \<Rightarrow> (string \<times> string list \<times> string) option" where
  "http_parse s =
     (case parse_head s of
        None \<Rightarrow> None
      | Some (ls, rest) \<Rightarrow>
          (case ls of
             [] \<Rightarrow> None
           | status # hs \<Rightarrow>
               Some (status, hs, (case content_length hs of None \<Rightarrow> rest | Some n \<Rightarrow> take n rest))))"

lemma parse_head_line:
  assumes "l \<noteq> []" and "CR \<notin> set l"
  shows "parse_head (l @ CRLF @ rest) = map_option (\<lambda>(ls, body). (l # ls, body)) (parse_head rest)"
  by (subst parse_head.simps) (simp add: split_crlf_line [OF assms(2)] assms(1))

lemma parse_head_end: "parse_head (CRLF @ rest) = Some ([], rest)"
  by (subst parse_head.simps) (simp add: split_crlf_line [of "[]", simplified])

lemma CR_notin_dec: "CR \<notin> set (dec n)"
  using dec_digits [of CR n] by (auto simp: is_digit_def)

text \<open>The length the header announces is the number of bytes of the content.\<close>

lemma http_parse_ok:
  assumes "CR \<notin> set mime"
  shows "http_parse (ok_response mime content @ extra) =
    Some (''HTTP/1.1 200 OK'',
      [''Content-Type: '' @ mime, ''Content-Length: '' @ dec (length content)], content)"
proof -
  let ?ct = "''Content-Type: '' @ mime" and ?cl = "''Content-Length: '' @ dec (length content)"
  have s: "CR \<notin> set ''HTTP/1.1 200 OK''" "''HTTP/1.1 200 OK'' \<noteq> []" by simp_all
  have t: "CR \<notin> set ?ct" "?ct \<noteq> []" using assms by simp_all
  have l: "CR \<notin> set ?cl" "?cl \<noteq> []" using CR_notin_dec by simp_all
  have "ok_response mime content @ extra =
      ''HTTP/1.1 200 OK'' @ CRLF @ ?ct @ CRLF @ ?cl @ CRLF @ CRLF @ content @ extra"
    by (simp add: ok_response_def)
  then have "parse_head (ok_response mime content @ extra) =
      Some ([''HTTP/1.1 200 OK'', ?ct, ?cl], content @ extra)"
    by (simp only: parse_head_line [OF s(2,1)] parse_head_line [OF t(2,1)]
        parse_head_line [OF l(2,1)] parse_head_end option.map prod.case)
  moreover have "content_length [?ct, ?cl] = Some (length content)"
    using dec_digits [of _ "length content"] by (simp add: content_length_def takeWhile_digits)
  ultimately show ?thesis
    by (simp add: http_parse_def)
qed

lemma CR_notin_mime: "CR \<notin> set (getMimeType path)"
  by (simp add: getMimeType_def)

lemma ok_response_not_404: "ok_response mime content \<noteq> not_found"
  by (simp add: ok_response_def not_found_def)

text \<open>The file a request asks for.\<close>

definition requested_file :: "string \<Rightarrow> string" where
  "requested_file rawRequest =
     (let path = fst (next_token (snd (next_token rawRequest)))
      in ''static'' @ (if path = ''/'' then ''/index.html'' else path))"

lemma handle_requested:
  "handle fs raw =
     (if readFile fs (requested_file raw) = [] then not_found
      else ok_response (getMimeType (requested_file raw)) (readFile fs (requested_file raw)))"
  by (simp add: handle_def requested_file_def split_beta Let_def)

lemma requested_file_line:
  assumes "word verb" and "word path" and "is_space b"
  shows "requested_file (verb @ SPC # path @ b # rest) =
    ''static'' @ (if path = ''/'' then ''/index.html'' else path)"
  using assms
  by (simp add: requested_file_def next_token_of_word next_token_space Let_def)

section \<open>Where a path leads\<close>

text \<open>
  The directory tree under the server's working directory is a map from lists of names;
  a path is resolved component by component.
\<close>

fun components :: "string \<Rightarrow> string list" where
  "components [] = [[]]"
| "components (c # cs) =
     (if c = CHR ''/'' then [] # components cs
      else (case components cs of [] \<Rightarrow> [[c]] | w # ws \<Rightarrow> (c # w) # ws))"

fun resolve :: "string list \<Rightarrow> string list \<Rightarrow> string list" where
  "resolve here [] = rev here"
| "resolve here (w # ws) =
     (if w = [] \<or> w = ''.'' then resolve here ws
      else if w = ''..'' then resolve (tl here) ws
      else resolve (w # here) ws)"

definition tree_fs :: "(string list \<rightharpoonup> string) \<Rightarrow> string \<Rightarrow> string option" where
  "tree_fs tree path = tree (resolve [] (components path))"

lemma components_nonempty [simp]: "components s \<noteq> []"
  by (induction s) (auto split: list.splits)

lemma components_name: "CHR ''/'' \<notin> set s \<Longrightarrow> components s = [s]"
  by (induction s) auto

lemma components_dir:
  "CHR ''/'' \<notin> set d \<Longrightarrow> components (d @ CHR ''/'' # s) = d # components s"
  by (induction d) auto

lemma resolve_inside:
  "''..'' \<notin> set ws \<Longrightarrow> \<exists>us. resolve here ws = rev here @ us"
proof (induction ws arbitrary: here)
  case Nil
  then show ?case by simp
next
  case (Cons w ws)
  then have "''..'' \<notin> set ws" by simp
  with Cons.IH [of here] Cons.IH [of "w # here"] Cons.prems show ?case by auto
qed

section \<open>Properties\<close>

text \<open>
  Serving a file. When a request line names a file that can be opened and is not
  empty, whatever the verb and the rest of the request, a reader of the response gets
  status 200, the media type of the file, a content length, and by it exactly the bytes
  of the file, also when more bytes follow on the connection.
\<close>

lemma request_gets_file:
  assumes "word verb" and "word path" and "is_space b" and "path \<noteq> ''/''"
    and "fs (''static'' @ path) = Some content" and "content \<noteq> []"
  shows "http_parse (handle fs (verb @ SPC # path @ b # rest) @ extra) =
    Some (''HTTP/1.1 200 OK'',
      [''Content-Type: '' @ getMimeType (''static'' @ path),
       ''Content-Length: '' @ dec (length content)], content)"
proof -
  have "handle fs (verb @ SPC # path @ b # rest) = ok_response (getMimeType (''static'' @ path)) content"
    using assms by (simp add: handle_request_line respond_def readFile_def)
  then show ?thesis
    using http_parse_ok [OF CR_notin_mime] by simp
qed

lemma request_gets_file_witness:
  "http_parse (handle [''static/a.css'' \<mapsto> ''x'' @ CRLF @ CRLF @ ''y'']
      (''POST'' @ SPC # ''/a.css'' @ SPC # ''HTTP/1.1'') @ ''next'') =
    Some (''HTTP/1.1 200 OK'',
      [''Content-Type: '' @ getMimeType (''static'' @ ''/a.css''),
       ''Content-Length: '' @ dec (length (''x'' @ CRLF @ CRLF @ ''y''))], ''x'' @ CRLF @ CRLF @ ''y'')"
  by (rule request_gets_file) (simp_all add: word_def is_space_def)

text \<open>
  The choice of the response. For every request, malformed ones included, the
  response is the 404 text exactly when the requested file is missing or empty, and a 200
  response with the file's bytes otherwise.
\<close>

lemma not_found_iff_no_content:
  "(handle fs raw = not_found) =
     (fs (requested_file raw) = None \<or> fs (requested_file raw) = Some [])
   \<and> (\<exists>content. handle fs raw = not_found \<or>
        fs (requested_file raw) = Some content \<and>
        handle fs raw = ok_response (getMimeType (requested_file raw)) content)"
  by (cases "fs (requested_file raw)") (auto simp: handle_requested readFile_def ok_response_not_404)

text \<open>
  Media types. \<^verbatim>\<open>getMimeType\<close> gives the type of the extension that ends the path,
  in whatever order the extensions are tried, and plain text when none of them does.
\<close>

lemma mime_type_by_extension:
  "(x \<in> set mime_table \<and> suffix (fst x) path \<longrightarrow> getMimeType path = snd x)
   \<and> ((\<exists>x \<in> set mime_table. suffix (fst x) path) \<or> getMimeType path = ''text/plain'')"
  using getMimeType_hit [of "fst x" "snd x" path] getMimeType_miss [of path] by auto

lemma mime_type_by_extension_example:
  "getMimeType ''static/a.min.js'' = ''application/javascript'' \<and> suffix ''.js'' ''static/a.min.js''"
proof -
  have "(''.js'', ''application/javascript'') \<in> set mime_table"
    and s: "suffix ''.js'' ''static/a.min.js''"
    by (simp_all add: mime_table_def suffix_to_prefix)
  then show ?thesis
    using mime_type_by_extension [of "(''.js'', ''application/javascript'')" "''static/a.min.js''"]
    by simp
qed

text \<open>
  Confinement without dot-dot. A path that starts with a slash and has no component
  \<^verbatim>\<open>..\<close> resolves to a file under the static directory.
\<close>

lemma plain_path_stays_in_static:
  assumes "''..'' \<notin> set (components path)"
    and "requested_file raw = ''static'' @ CHR ''/'' # path"
  shows "\<exists>us. resolve [] (components (requested_file raw)) = ''static'' # us"
  using assms resolve_inside [of "components path" "[''static'']"]
  by (simp add: components_dir [of "''static''", simplified])

lemma plain_path_stays_in_static_witness:
  "\<exists>us. resolve [] (components (requested_file (''GET'' @ SPC # ''/css/./a.css'' @ SPC # '''')))
     = ''static'' # us"
  by (rule plain_path_stays_in_static [where path = "''css/./a.css''"])
    (simp_all add: requested_file_def next_token_def is_space_def)

text \<open>
  Path traversal. A request for \<^verbatim>\<open>/../name\<close> is answered with the contents of the
  file \<^verbatim>\<open>name\<close> beside the static directory.
\<close>

lemma dotdot_escapes_static:
  assumes "word name" and "CHR ''/'' \<notin> set name" and "name \<noteq> ''.''" and "name \<noteq> ''..''"
    and "tree [name] = Some content" and "content \<noteq> []"
  shows "handle (tree_fs tree) (''GET'' @ SPC # (''/../'' @ name) @ SPC # ''HTTP/1.1'') =
    ok_response (getMimeType (''static/../'' @ name)) content"
proof -
  have p: "word (''/../'' @ name)"
    using assms(1) by (auto simp: word_def is_space_def)
  have "name \<noteq> []" using assms(1) by (simp add: word_def)
  then have "tree_fs tree (''static/../'' @ name) = Some content"
    using assms(2-5) by (simp add: tree_fs_def components_name)
  moreover have "requested_file (''GET'' @ SPC # (''/../'' @ name) @ SPC # ''HTTP/1.1'') = ''static/../'' @ name"
    by (subst requested_file_line [OF _ p]) (simp_all add: word_def is_space_def)
  ultimately show ?thesis
    using assms(6) by (simp only: handle_requested readFile_def option.case if_False)
qed

lemma dotdot_escapes_static_witness:
  "handle (tree_fs [[''main.cpp''] \<mapsto> ''secret'']) (''GET'' @ SPC # (''/../'' @ ''main.cpp'') @ SPC # ''HTTP/1.1'') =
    ok_response (getMimeType (''static/../'' @ ''main.cpp'')) ''secret''"
  by (rule dotdot_escapes_static) (simp_all add: word_def is_space_def)

section \<open>The server\<close>

lemma accept_loop_filter: "accept_loop accepted = filter (\<lambda>fd. 0 \<le> fd) accepted"
  by (induction accepted) simp_all

text \<open>A request whose request line comes in the first chunk and fits into the buffer.\<close>

lemma read_request_line:
  assumes "NUL \<notin> set line" and "length line \<le> recv_max" and "line \<noteq> []"
  shows "\<exists>rest'. read_request (Bytes (line @ rest) # es) = line @ rest'"
proof -
  let ?got = "take (recv_max - length line) rest"
  have recv: "fst (sock_recv recv_max (Bytes (line @ rest) # es)) = Some (line @ ?got)"
    using assms(2) by simp
  have "c_string ((line @ ?got) @ [NUL]) = line @ c_string (?got @ [NUL])"
    using assms(1) unfolding c_string_def append_assoc by (intro takeWhile_append2) auto
  then show ?thesis
    using assms(3) recv by (auto simp: read_request_def simp del: append_assoc)
qed

text \<open>
  C14: The server answers. When its start succeeds, every accepted client has a thread, as
  often as it was accepted. A client whose request line is in the first bytes that arrive,
  fits into the buffer and names a file that is not empty gets one response, from which a reader
  takes status 200 and exactly the file, and its connection is closed.
\<close>

theorem server_answers_clients:
  assumes "fd \<in> set accepted" and "0 \<le> fd" and "server_fd \<noteq> - 1" and "0 \<le> bind_result" and "0 \<le> listen_result"
    and "word verb" and "word path" and "is_space b" and "path \<noteq> ''/''" and "NUL \<notin> set (verb @ path @ [b])"
    and "length (verb @ path) + 2 \<le> recv_max"
    and "fs (''static'' @ path) = Some content" and "content \<noteq> []"
  shows "\<exists>line fds response. http_main server_fd bind_result listen_result accepted = Running line fds
    \<and> count_list fds fd = count_list accepted fd \<and> fd \<in> set fds
    \<and> handle_client fs fd (Bytes (verb @ SPC # path @ b # rest) # es) = [Send fd response, Close fd]
    \<and> http_parse response = Some (''HTTP/1.1 200 OK'',
        [''Content-Type: '' @ getMimeType (''static'' @ path), ''Content-Length: '' @ dec (length content)], content)"
proof -
  let ?line = "verb @ SPC # path @ [b]"
  obtain rest' where r: "read_request (Bytes (?line @ rest) # es) = ?line @ rest'"
    using read_request_line [of ?line rest es] assms(10,11) by auto
  have "handle_client fs fd (Bytes (verb @ SPC # path @ b # rest) # es)
      = [Send fd (handle fs (verb @ SPC # path @ b # rest')), Close fd]"
    using r by (simp add: handle_client_def)
  moreover have "count_list (accept_loop accepted) fd = count_list accepted fd"
    unfolding accept_loop_filter using assms(2) by (induction accepted) simp_all
  ultimately show ?thesis
    using assms(1-5) http_parse_ok [OF CR_notin_mime, of "''static'' @ path" content "[]"] assms(6-9,12,13)
    by (auto simp: http_main_def server_start_def accept_loop_filter handle_request_line respond_def readFile_def)
qed

theorem server_answers_clients_witness:
  "\<exists>line fds response. http_main 3 0 0 [4, - 1, 5] = Running line fds
    \<and> count_list fds 5 = count_list [4, - 1, 5] (5 :: int) \<and> 5 \<in> set fds
    \<and> handle_client [''static/a.css'' \<mapsto> ''body''] 5 (Bytes (''GET'' @ SPC # ''/a.css'' @ SPC # ''HTTP/1.1'') # [])
      = [Send 5 response, Close 5]
    \<and> http_parse response = Some (''HTTP/1.1 200 OK'',
        [''Content-Type: '' @ getMimeType (''static'' @ ''/a.css''), ''Content-Length: '' @ dec (length ''body'')], ''body'')"
  by (rule server_answers_clients) (simp_all add: word_def is_space_def recv_max_def)

text \<open>A client that sends nothing, or whose connection fails, is answered and closed all the same.\<close>

lemma silent_client_answered:
  assumes "es = [] \<or> (\<exists>es'. es = Fail # es')"
  shows "handle_client fs fd es
    = [Send fd (if readFile fs ''static'' = [] then not_found
                else ok_response (getMimeType ''static'') (readFile fs ''static'')), Close fd]"
proof -
  have "read_request es = []"
    using assms by (auto simp: read_request_def)
  moreover have "next_token [] = ([], [])"
    by (simp add: next_token_def)
  ultimately show ?thesis
    by (simp add: handle_client_def handle_def Let_def)
qed

text \<open>
  The request is what one \<^verbatim>\<open>recv\<close> returns. When the network cuts the request line inside the
  path, the server takes the beginning of the path for the path.
\<close>

lemma cut_request_misread:
  assumes "word verb" and "word path" and "NUL \<notin> set (verb @ path)" and "length (verb @ path) + 1 \<le> recv_max"
  shows "handle_client fs fd (Bytes (verb @ SPC # path) # es) = [Send fd (respond fs path), Close fd]"
proof -
  have "c_string ((verb @ SPC # path) @ [NUL]) = verb @ SPC # path"
    using assms(3) by (intro c_string_append_nul) auto
  then have r: "read_request (Bytes (verb @ SPC # path) # es) = verb @ SPC # path"
    using assms(4) by (simp add: read_request_def)
  have "next_token (SPC # path) = (path, [])"
    using assms(2) by (simp add: word_def next_token_def)
  then have "handle fs (verb @ SPC # path) = respond fs path"
    using assms(1) by (simp add: handle_def respond_def next_token_of_word split_beta Let_def)
  then show ?thesis
    by (simp add: handle_client_def r)
qed

end
