(* ===== verification/Tcp_Simple.thy ===== *)
theory Tcp_Simple
  imports Wire
begin

text \<open>
  The dialog of \<^verbatim>\<open>cpp/socket_programming/simple_client_server/\<close>: \<^verbatim>\<open>receiveMessage\<close> and
  \<^verbatim>\<open>sendMessage\<close> (the same text in client and server) and the two main loops. The
  unchecked results of \<^verbatim>\<open>recv\<close> are kept: a write outside the allocated buffer and a
  failing allocation are faults. \<open>junk\<close> is what the uninitialised length variable
  holds; in the loops it may be different bytes in every call.
\<close>

section \<open>Messages\<close>

datatype recv_fault = Bad_alloc | Out_of_bounds

definition receiveMessage ::
  "byte_order \<Rightarrow> string \<Rightarrow> incoming \<Rightarrow> (recv_fault + string) \<times> incoming" where
  "receiveMessage order junk es =
     (let (head, es1) = sock_recv 4 es;
          len = length_field order junk head
      in if len + 1 < 0 \<or> 2 ^ 31 \<le> len + 1 then (Inl Bad_alloc, es1)
         else
           let (received, es2) = sock_recv (to_size len) es1 in
           (case received of
              None \<Rightarrow> (Inl Out_of_bounds, es2)
            | Some bs \<Rightarrow>
                if length bs < nat (len + 1) then (Inr (c_string (bs @ [NUL])), es2)
                else (Inl Out_of_bounds, es2)))"

text \<open>The two \<^verbatim>\<open>send\<close> calls.\<close>

definition sendMessage :: "byte_order \<Rightarrow> string \<Rightarrow> string list" where
  "sendMessage order message = [frame_head order message, message]"

section \<open>The main functions\<close>

text \<open>
  Why a loop stopped: \<^verbatim>\<open>exit\<close>, a fault, the signal of a \<^verbatim>\<open>send\<close> that has no connection, or
  the iterations asked for are over.
\<close>

datatype loop_end = Exited | Faulted recv_fault | Killed | Still_running

text \<open>What a program sends, prints and closes.\<close>

record dialog =
  d_sent :: "string list"
  d_cout :: "string list"
  d_closed :: "int list"
  d_end :: loop_end

definition stopped :: "string list \<Rightarrow> string list \<Rightarrow> loop_end \<Rightarrow> dialog" where
  "stopped sent cout e = \<lparr>d_sent = sent, d_cout = cout, d_closed = [], d_end = e\<rparr>"

definition preceded :: "string list \<Rightarrow> string list \<Rightarrow> dialog \<Rightarrow> dialog" where
  "preceded sent cout d = d\<lparr>d_sent := sent @ d_sent d, d_cout := cout @ d_cout d\<rparr>"

text \<open>\<^verbatim>\<open>close\<close> after the loop: reached when it was left with \<^verbatim>\<open>break\<close>.\<close>

definition closing :: "int list \<Rightarrow> dialog \<Rightarrow> dialog" where
  "closing fds d = (if d_end d = Exited then d\<lparr>d_closed := fds\<rparr> else d)"

text \<open>At most \<open>n\<close> iterations of the server's loop.\<close>

fun server_loop :: "byte_order \<Rightarrow> (nat \<Rightarrow> string) \<Rightarrow> nat \<Rightarrow> incoming \<Rightarrow> dialog" where
  "server_loop order junk 0 es = stopped [] [] Still_running"
| "server_loop order junk (Suc n) es =
     (case receiveMessage order (junk n) es of
        (Inl f, _) \<Rightarrow> stopped [] [] (Faulted f)
      | (Inr msg, es') \<Rightarrow>
          if msg = ''exit'' then stopped [] [] Exited
          else preceded (sendMessage order (''Received: '' @ msg)) [''Client: '' @ msg @ [NL]]
                 (server_loop order junk n es'))"

text \<open>
  The server: \<open>accepted\<close> is the descriptor that \<^verbatim>\<open>accept\<close> returns, if it does not fail. Its
  result is not looked at; every call on -1 fails.
\<close>

definition simple_server_main ::
  "byte_order \<Rightarrow> (nat \<Rightarrow> string) \<Rightarrow> nat \<Rightarrow> int \<Rightarrow> int option \<Rightarrow> incoming \<Rightarrow> dialog" where
  "simple_server_main order junk n server_fd accepted es =
     (let (new_socket, es') = (case accepted of Some fd \<Rightarrow> (fd, es) | None \<Rightarrow> (- 1, [Fail, Fail]))
      in preceded [] [''Server waiting for connection...'' @ [NL]]
           (closing [new_socket, server_fd] (server_loop order junk n es')))"

text \<open>
  At most \<open>n\<close> iterations of the client's loop over the lines that are typed. At the end of
  the input \<^verbatim>\<open>getline\<close> leaves the line empty, which nothing looks at.
\<close>

fun client_loop ::
  "byte_order \<Rightarrow> (nat \<Rightarrow> string) \<Rightarrow> nat \<Rightarrow> string list \<Rightarrow> incoming \<Rightarrow> dialog" where
  "client_loop order junk 0 typed es = stopped [] [] Still_running"
| "client_loop order junk (Suc n) typed es =
     (let msg = (case typed of [] \<Rightarrow> [] | line # _ \<Rightarrow> line) in
      preceded (sendMessage order msg) [''Enter message: '']
        (if msg = ''exit'' then stopped [] [] Exited
         else
           (case receiveMessage order (junk n) es of
              (Inl f, _) \<Rightarrow> stopped [] [] (Faulted f)
            | (Inr response, es') \<Rightarrow>
                preceded [] [''Server -> '' @ response @ [NL]] (client_loop order junk n (tl typed) es'))))"


lemmas dialog_defs = stopped_def preceded_def closing_def

section \<open>Framing\<close>

definition received_message ::
  "byte_order \<Rightarrow> string \<Rightarrow> incoming \<Rightarrow> string option \<times> incoming" where
  "received_message order junk es =
     (case receiveMessage order junk es of
        (Inl f, es') \<Rightarrow> (None, es')
      | (Inr msg, es') \<Rightarrow> (Some msg, es'))"

text \<open>No zero byte, and a length that leaves room for the terminator in an \<^verbatim>\<open>int\<close>; it may be empty.\<close>

definition typable :: "string \<Rightarrow> bool" where
  "typable msg \<longleftrightarrow> NUL \<notin> set msg \<and> length msg + 1 < 2 ^ 31"

lemma receiveMessage_delivers:
  assumes "typable msg" and "length junk = 4" and "delivers (sendMessage order' msg @ fs) es"
  shows "\<exists>es'. receiveMessage order junk es = (Inr msg, es') \<and> delivers fs es'"
proof -
  have b: "length msg < 2 ^ 31" and small: "\<not> (int (length msg) + 1 < 0 \<or> 2 ^ 31 \<le> int (length msg) + 1)"
    and fits: "length msg < nat (int (length msg) + 1)"
    using assms(1) by (simp_all add: typable_def)
  have "delivers (frame_head order' msg # msg # fs) es"
    using assms(3) by (simp add: sendMessage_def)
  then obtain es1 where head: "sock_recv 4 es = (Some (frame_head order' msg), es1)" "delivers (msg # fs) es1"
    using delivers_recv [of "frame_head order' msg" "msg # fs" es] by auto
  obtain es2 where body: "sock_recv (length msg) es1 = (Some msg, es2)" "delivers fs es2"
    using delivers_recv [OF head(2)] by blast
  have size: "to_size (int (length msg)) = length msg"
    using b by (simp add: to_size_small)
  have c: "c_string (msg @ [NUL]) = msg"
    using assms(1) by (simp add: typable_def c_string_append_nul)
  have "receiveMessage order junk es = (Inr msg, es2)"
    unfolding receiveMessage_def head(1) Let_def split_conv length_field_head [OF b assms(2)] size body(1)
      if_not_P [OF small] option.case if_P [OF fits] c by (rule refl)
  with body(2) show ?thesis by blast
qed

interpretation simple: framing
  "sendMessage order" "received_message order' junk" "\<lambda>m. typable m \<and> length junk = 4"
  for order order' :: byte_order and junk :: string
proof
  fix m :: string and fs :: "string list" and es :: incoming
  assume "typable m \<and> length junk = 4" and "delivers (sendMessage order m @ fs) es"
  then obtain es' where "receiveMessage order' junk es = (Inr m, es')" "delivers fs es'"
    using receiveMessage_delivers by blast
  then show "\<exists>es'. received_message order' junk es = (Some m, es') \<and> delivers fs es'"
    by (simp add: received_message_def)
qed















section \<open>Properties\<close>

text \<open>
  Framing. From a connection that delivers the frames of any messages that hold no zero
  byte and are shorter than the largest \<^verbatim>\<open>int\<close>, splitting no length and no text, receiving
  as often as there are messages gives exactly these messages in order and leaves what
  follows, whatever the byte orders of the two hosts.
\<close>

lemma frames_received_in_order:
  assumes "\<forall>m \<in> set msgs. typable m \<and> length junk = 4" and "delivers (concat (map (sendMessage order) msgs) @ fs) es"
  shows "\<exists>es'. receive_n (received_message order' junk) (length msgs) es = (map Some msgs, es') \<and> delivers fs es'"
  using assms by (rule simple.receive_n_fields)

lemma frames_received_in_order_witness:
  "\<exists>es'. receive_n (received_message Big (replicate 4 NUL)) (length [''hi'', ''there''])
      (chunk (concat (concat (map (sendMessage Little) [''hi'', ''there'']) @ [''rest''])) [])
    = (map Some [''hi'', ''there''], es') \<and> delivers [''rest''] es'"
  by (rule frames_received_in_order [OF _ delivers_one_chunk]) (simp add: typable_def)



text \<open>When \<^verbatim>\<open>accept\<close> fails, the server writes outside its buffer or fails to allocate it, in the first call.\<close>

lemma server_without_client_faults:
  "\<exists>f. simple_server_main order junk (Suc n) server_fd None es
     = stopped [] [''Server waiting for connection...'' @ [NL]] (Faulted f)"
  by (auto simp: simple_server_main_def receiveMessage_def Let_def dialog_defs)

text \<open>
  A client that hangs up without \<^verbatim>\<open>exit\<close> leaves the server spinning: \<^verbatim>\<open>recv\<close>
  keeps returning 0 and leaves the length variable alone, and as long as what that
  variable holds can be allocated, every further iteration sends one more answer to an
  empty message; the loop does not end.
\<close>

lemma server_spins_after_hangup:
  assumes "\<And>k. 0 \<le> length_field order (junk k) (Some [])"
    and "\<And>k. length_field order (junk k) (Some []) + 1 < 2 ^ 31"
  shows "server_loop order junk n []
    = preceded (concat (replicate n (sendMessage order ''Received: ''))) (replicate n (''Client: '' @ [NL]))
        (stopped [] [] Still_running)"
proof -
  have "receiveMessage order (junk k) [] = (Inr '''', [])" for k
    using assms [of k] by (simp add: receiveMessage_def c_string_def)
  then show ?thesis
    by (induction n) (simp_all add: dialog_defs)
qed

lemma server_spins_after_hangup_witness:
  "server_loop Big (\<lambda>_. replicate 4 NUL) 3 []
    = preceded (concat (replicate 3 (sendMessage Big ''Received: ''))) (replicate 3 (''Client: '' @ [NL]))
        (stopped [] [] Still_running)"
proof -
  have four: "replicate 4 NUL = [NUL, NUL, NUL, NUL]"
    by (simp add: numeral_eq_Suc)
  have zero: "mem_word Big [NUL, NUL, NUL, NUL] = 0"
    by (simp add: mem_word_def word_of_bytes_def)
  have "length_field Big (replicate 4 NUL) (Some []) = 0"
    unfolding four by (simp add: length_field_def ntohl_def zero mem_bytes_word to_int32_def)
  then have "0 \<le> length_field Big (replicate 4 NUL) (Some [])"
    and "length_field Big (replicate 4 NUL) (Some []) + 1 < 2 ^ 31"
    by (simp_all only:) simp_all
  then show ?thesis
    by (rule server_spins_after_hangup)
qed

text \<open>A client whose input has ended never leaves its loop: it goes on to send empty messages.\<close>

lemma simple_client_spins:
  "d_end (client_loop order junk n [] es) \<noteq> Exited
    \<and> (\<exists>k. d_sent (client_loop order junk n [] es) = concat (replicate k (sendMessage order [])))"
proof (induction n arbitrary: es)
  case 0
  then show ?case by (auto simp: dialog_defs intro: exI [of _ 0])
next
  case (Suc n)
  obtain r es' where r: "receiveMessage order (junk n) es = (r, es')" by fastforce
  show ?case
  proof (cases r)
    case (Inl f)
    then show ?thesis using r by (auto simp: dialog_defs intro: exI [of _ 1])
  next
    case (Inr response)
    obtain k where "d_sent (client_loop order junk n [] es') = concat (replicate k (sendMessage order []))"
      using Suc.IH by blast
    then show ?thesis
      using Suc.IH [of es'] r Inr by (auto simp: dialog_defs intro: exI [of _ "Suc k"])
  qed
qed

end
