(* ===== verification/Std_Map.thy ===== *)
theory Std_Map
  imports Prelude "HOL-Library.Char_ord" "HOL-Library.List_Lexorder"
begin

text \<open>
  \<^verbatim>\<open>std::map\<close> as the list of its entries in iteration order: keys strictly ascending
  (for strings, by the codes of their characters).
\<close>

fun map_put :: "'k::linorder \<Rightarrow> 'v \<Rightarrow> ('k \<times> 'v) list \<Rightarrow> ('k \<times> 'v) list" where
  "map_put k v [] = [(k, v)]"
| "map_put k v ((k', v') # m) =
     (if k < k' then (k, v) # (k', v') # m
      else if k = k' then (k, v) # m
      else (k', v') # map_put k v m)"

definition ascending :: "('k::linorder \<times> 'v) list \<Rightarrow> bool" where
  "ascending m \<longleftrightarrow> sorted_wrt (<) (map fst m)"

named_theorems map_facts

lemma ascending_Nil [simp]: "ascending []"
  by (simp add: ascending_def)

lemma ascending_Cons [simp]:
  "ascending ((k, v) # m) \<longleftrightarrow> (\<forall>k' \<in> fst ` set m. k < k') \<and> ascending m"
  by (simp add: ascending_def)

lemma fst_set_map_put [simp]: "fst ` set (map_put k v m) = insert k (fst ` set m)"
  by (induction k v m rule: map_put.induct) auto

lemma ascending_map_put [simp]: "ascending m \<Longrightarrow> ascending (map_put k v m)"
proof (induction k v m rule: map_put.induct)
  case (1 k v)
  then show ?case by simp
next
  case (2 k v k' v' m)
  then show ?case by (auto dest: less_trans simp: not_less_iff_gr_or_eq)
qed

lemma map_of_above:
  fixes k :: "'k::linorder"
  assumes "\<forall>k' \<in> fst ` set m. k < k'"
  shows "map_of m k = None"
proof -
  have "k \<notin> fst ` set m"
    using assms less_irrefl by metis
  then show ?thesis by (simp only: map_of_eq_None_iff not_False_eq_True)
qed

lemma map_of_map_put [simp, map_facts]: "ascending m \<Longrightarrow> map_of (map_put k v m) = (map_of m)(k \<mapsto> v)"
  by (induction k v m rule: map_put.induct) (auto simp: fun_eq_iff)

lemma snd_set_map_put: "snd ` set (map_put k v m) \<subseteq> insert v (snd ` set m)"
  by (induction k v m rule: map_put.induct) auto

lemma ascending_filter [simp]: "ascending m \<Longrightarrow> ascending (filter P m)"
  by (induction m) auto

lemma map_of_filter_value [map_facts]:
  "ascending m \<Longrightarrow> map_of (filter (\<lambda>e. P (snd e)) m)
     = (\<lambda>k. case map_of m k of None \<Rightarrow> None | Some v \<Rightarrow> if P v then Some v else None)"
proof (induction m)
  case Nil
  then show ?case by simp
next
  case (Cons e m)
  obtain k v where e: "e = (k, v)" by (cases e)
  have "map_of m k = None"
    using Cons.prems by (intro map_of_above) (simp add: e)
  then show ?case
    using Cons by (auto simp: e fun_eq_iff split: option.splits)
qed

lemma distinct_ascending: "ascending m \<Longrightarrow> distinct (map fst m)"
  unfolding ascending_def by (metis strict_sorted_iff)

end
