(* ===== verification/Multi_Server.thy ===== *)
theory Multi_Server
  imports Wire Std_Map
begin

text \<open>
  The message server of \<^verbatim>\<open>cpp/socket_programming/multi_client_server/server.cpp\<close>: the
  event types, the handlers, the loop of a client's thread, the body of the accept loop,
  the SIGINT handler and the start of \<^verbatim>\<open>main\<close>, each run without interruption. What threads
  that interrupt each other do is in \<open>Multi_Threads\<close>.
\<close>

section \<open>Events and state\<close>

datatype event_type = LOGIN | DIRECT | BROADCAST | LOGOUT | ONLINE_USERS | INVALID

definition event_map :: "(string \<times> event_type) list" where
  "event_map =
     [(''broadcast'', BROADCAST), (''direct'', DIRECT), (''login'', LOGIN),
      (''logout'', LOGOUT), (''online-users'', ONLINE_USERS)]"

text \<open>
  The globals \<open>clients\<close> and \<open>client_mapp\<close>, every \<^verbatim>\<open>send\<close> call made so far with its socket,
  and the sockets closed.
\<close>

record msg_server =
  clients :: "int list"
  client_mapp :: "(string \<times> int) list"
  sends :: "(int \<times> string) list"
  closes :: "int list"

definition msg_server_init :: msg_server where
  "msg_server_init = \<lparr>clients = [], client_mapp = [], sends = [], closes = []\<rparr>"

definition sendMessageToClient :: "byte_order \<Rightarrow> int \<Rightarrow> string \<Rightarrow> msg_server \<Rightarrow> msg_server" where
  "sendMessageToClient order client_socket message st =
     st\<lparr>sends := sends st @ [(client_socket, frame_head order message), (client_socket, message)]\<rparr>"

section \<open>Handlers\<close>

fun send_to_others :: "byte_order \<Rightarrow> string \<Rightarrow> int \<Rightarrow> int list \<Rightarrow> msg_server \<Rightarrow> msg_server" where
  "send_to_others order message sender [] st = st"
| "send_to_others order message sender (client # cs) st =
     send_to_others order message sender cs
       (if client \<noteq> sender then sendMessageToClient order client (''Broadcast: '' @ message) st else st)"

definition broadcastMessage :: "byte_order \<Rightarrow> string \<Rightarrow> int \<Rightarrow> msg_server \<Rightarrow> msg_server" where
  "broadcastMessage order message sender st =
     sendMessageToClient order sender ''Broadcast sent successfully.''
       (send_to_others order message sender (clients st) st)"

definition handleLoginClient :: "byte_order \<Rightarrow> string \<Rightarrow> int \<Rightarrow> msg_server \<Rightarrow> msg_server" where
  "handleLoginClient order username sender st =
     sendMessageToClient order sender ''Login successful.''
       (st\<lparr>client_mapp := map_put username sender (client_mapp st)\<rparr>)"

text \<open>The loop that erases while it iterates.\<close>

fun erase_names :: "int \<Rightarrow> (string \<times> int) list \<Rightarrow> (string \<times> int) list" where
  "erase_names sender [] = []"
| "erase_names sender ((username, s) # m) =
     (if s = sender then erase_names sender m else (username, s) # erase_names sender m)"

definition handleLogoutClient :: "byte_order \<Rightarrow> int \<Rightarrow> msg_server \<Rightarrow> msg_server" where
  "handleLogoutClient order sender st =
     (let st1 = st\<lparr>client_mapp := erase_names sender (client_mapp st),
                   clients := removeAll sender (clients st)\<rparr>;
          st2 = sendMessageToClient order sender ''Logout successful.'' st1
      in st2\<lparr>closes := closes st2 @ [sender]\<rparr>)"

fun online_users :: "(string \<times> int) list \<Rightarrow> string \<Rightarrow> string" where
  "online_users [] s = s"
| "online_users ((username, c) # m) s = online_users m (s @ username @ [NL])"

definition handleOnlineUsers :: "byte_order \<Rightarrow> int \<Rightarrow> msg_server \<Rightarrow> msg_server" where
  "handleOnlineUsers order sender st =
     sendMessageToClient order sender (online_users (client_mapp st) (''Online Users:'' @ [NL])) st"

definition handleDirectMessage :: "byte_order \<Rightarrow> string \<Rightarrow> int \<Rightarrow> msg_server \<Rightarrow> msg_server" where
  "handleDirectMessage order event_data sender st =
     (case str_find event_data CHR '':'' of
        Some delimiter_pos \<Rightarrow>
          let rec_username = take delimiter_pos event_data;
              message = drop (Suc delimiter_pos) event_data
          in (case map_of (client_mapp st) rec_username of
                Some receiver \<Rightarrow>
                  sendMessageToClient order sender ''Direct message sent successfully.''
                    (sendMessageToClient order receiver (''Direct message from sender: '' @ message) st)
              | None \<Rightarrow> sendMessageToClient order sender ''Error: Receiver not found or offline.'' st)
      | None \<Rightarrow> sendMessageToClient order sender ''Error: Invalid message format.'' st)"

section \<open>The thread of a client\<close>

text \<open>Splitting the message at its first colon.\<close>

definition split_event :: "string \<Rightarrow> string \<times> string" where
  "split_event message =
     (case str_find message CHR '':'' of
        Some delimiter_pos \<Rightarrow> (take delimiter_pos message, drop (Suc delimiter_pos) message)
      | None \<Rightarrow> (message, []))"

definition event_type_of :: "string \<Rightarrow> event_type" where
  "event_type_of event = (case map_of event_map event of Some t \<Rightarrow> t | None \<Rightarrow> INVALID)"

text \<open>One pass through the switch: the new state, and whether the thread goes on.\<close>

definition dispatch :: "byte_order \<Rightarrow> string \<Rightarrow> int \<Rightarrow> msg_server \<Rightarrow> msg_server \<times> bool" where
  "dispatch order message s st =
     (let (event, event_data) = split_event message in
      case event_type_of event of
        LOGIN \<Rightarrow> (handleLoginClient order event_data s st, True)
      | DIRECT \<Rightarrow> (handleDirectMessage order event_data s st, True)
      | BROADCAST \<Rightarrow> (broadcastMessage order event_data s st, True)
      | LOGOUT \<Rightarrow> (handleLogoutClient order s st, False)
      | ONLINE_USERS \<Rightarrow> (handleOnlineUsers order s st, True)
      | INVALID \<Rightarrow> (sendMessageToClient order s ''Error: Invalid event type.'' st, True))"

text \<open>
  The two \<^verbatim>\<open>recv\<close> calls. The stack buffer has 1024 bytes; the length that came over the
  wire is not compared with it, so a longer body is written past its end.
\<close>

datatype received = Gone | Overflow | Got string

abbreviation BUFFER_SIZE :: nat where "BUFFER_SIZE \<equiv> 1024"

definition receive_event :: "byte_order \<Rightarrow> string \<Rightarrow> incoming \<Rightarrow> received \<times> incoming" where
  "receive_event order junk es =
     (case sock_recv 4 es of
        (None, es1) \<Rightarrow> (Gone, es1)
      | (Some head, es1) \<Rightarrow>
          if head = [] then (Gone, es1)
          else
            (case sock_recv (to_size (length_field order junk (Some head))) es1 of
               (None, es2) \<Rightarrow> (Gone, es2)
             | (Some body, es2) \<Rightarrow>
                 if body = [] then (Gone, es2)
                 else if length body < BUFFER_SIZE then (Got (c_string (body @ [NUL])), es2)
                 else (Overflow, es2)))"

datatype iteration = Continues incoming msg_server | Returns msg_server | Overflows

definition client_iteration ::
  "byte_order \<Rightarrow> string \<Rightarrow> int \<Rightarrow> incoming \<Rightarrow> msg_server \<Rightarrow> iteration" where
  "client_iteration order junk s es st =
     (case receive_event order junk es of
        (Gone, _) \<Rightarrow> Returns (handleLogoutClient order s st)
      | (Overflow, _) \<Rightarrow> Overflows
      | (Got message, es') \<Rightarrow>
          (case dispatch order message s st of
             (st', True) \<Rightarrow> Continues es' st'
           | (st', False) \<Rightarrow> Returns st'))"

lemma receive_event_decreases:
  assumes "receive_event order junk es = (Got message, es')"
  shows "incoming_size es' < incoming_size es"
proof -
  obtain head es1 where h: "sock_recv 4 es = (Some head, es1)" "head \<noteq> []"
    using assms by (auto simp: receive_event_def split: prod.splits option.splits if_splits)
  obtain body es2 where b: "sock_recv (to_size (length_field order junk (Some head))) es1 = (body, es2)"
    by fastforce
  have "es' = es2"
    using assms h b by (auto simp: receive_event_def split: option.splits if_splits)
  then have "incoming_size es' \<le> incoming_size es1"
    using sock_recv_size [of "to_size (length_field order junk (Some head))" es1] b by simp
  also have "\<dots> < incoming_size es"
    using sock_recv_size_less [of 4 es head] h by simp
  finally show ?thesis .
qed

lemma client_iteration_decreases:
  "client_iteration order junk s es st = Continues es' st' \<Longrightarrow> incoming_size es' < incoming_size es"
  by (auto simp: client_iteration_def receive_event_decreases
      split: prod.splits received.splits bool.splits)

text \<open>
  The whole thread, with no other thread in between; \<open>None\<close> when the buffer overflows. The
  memory of the uninitialised length may hold other bytes (\<open>junk\<close>) in each iteration.
  Every iteration consumes bytes, so it ends on every finite input.
\<close>

function handleClient ::
  "byte_order \<Rightarrow> (nat \<Rightarrow> string) \<Rightarrow> int \<Rightarrow> incoming \<Rightarrow> msg_server \<Rightarrow> msg_server option" where
  "handleClient order junk s es st =
     (case client_iteration order (junk 0) s es st of
        Continues es' st' \<Rightarrow> handleClient order (\<lambda>k. junk (Suc k)) s es' st'
      | Returns st' \<Rightarrow> Some st'
      | Overflows \<Rightarrow> None)"
  by pat_completeness auto
termination
  by (relation "measure (\<lambda>(order, junk, s, es, st). incoming_size es)")
    (auto simp: client_iteration_decreases)

declare handleClient.simps [simp del]

section \<open>Accepting, shutting down, starting\<close>

text \<open>The result of \<^verbatim>\<open>accept\<close>: -1 is reported and skipped.\<close>

definition accept_client :: "int \<Rightarrow> msg_server \<Rightarrow> msg_server" where
  "accept_client client_socket st =
     (if client_socket = - 1 then st else st\<lparr>clients := clients st @ [client_socket]\<rparr>)"

definition shutdownServer :: "int \<Rightarrow> msg_server \<Rightarrow> msg_server" where
  "shutdownServer server_socket st = st\<lparr>closes := closes st @ clients st @ [server_socket]\<rparr>"

text \<open>
  Up to the accept loop: the results of \<^verbatim>\<open>socket\<close>, \<^verbatim>\<open>bind\<close> and \<^verbatim>\<open>listen\<close> decide whether
  \<^verbatim>\<open>main\<close> ends with a message on \<^verbatim>\<open>cerr\<close> or serves.
\<close>

definition server_main :: "int \<Rightarrow> int \<Rightarrow> int \<Rightarrow> string + msg_server" where
  "server_main socket_result bind_result listen_result =
     (if socket_result = - 1 then Inl ''Error creating socket''
      else if bind_result = - 1 then Inl ''Error binding socket''
      else if listen_result = - 1 then Inl ''Error listening on socket''
      else Inr msg_server_init)"

end
