(* ===== verification/Multi_Directory.thy ===== *)
theory Multi_Directory
  imports Multi_Server
begin

text \<open>
  Correctness of the message server: an abstract directory of connected sockets and user
  names that every message refines, when its handler is not interrupted.
\<close>

section \<open>What each socket is sent\<close>

definition frame_of :: "byte_order \<Rightarrow> string \<Rightarrow> string" where
  "frame_of order message = frame_head order message @ message"

definition bytes_to :: "int \<Rightarrow> msg_server \<Rightarrow> string" where
  "bytes_to c st = concat (map snd (filter (\<lambda>e. fst e = c) (sends st)))"

text \<open>The two \<^verbatim>\<open>send\<close> calls of a message.\<close>

definition frame_fields :: "byte_order \<Rightarrow> string \<Rightarrow> string list" where
  "frame_fields order message = [frame_head order message, message]"

lemma concat_frame_fields: "concat (frame_fields order m) = frame_of order m"
  by (simp add: frame_fields_def frame_of_def)

lemma bytes_to_send [simp]:
  "bytes_to c (sendMessageToClient order s m st) = bytes_to c st @ (if c = s then frame_of order m else [])"
  by (simp add: bytes_to_def sendMessageToClient_def frame_of_def)

lemma send_fields [simp]:
  "clients (sendMessageToClient order s m st) = clients st"
  "client_mapp (sendMessageToClient order s m st) = client_mapp st"
  "closes (sendMessageToClient order s m st) = closes st"
  by (simp_all add: sendMessageToClient_def)

lemma bytes_to_updates [simp]:
  "bytes_to c (st\<lparr>client_mapp := m\<rparr>) = bytes_to c st"
  "bytes_to c (st\<lparr>clients := cs\<rparr>) = bytes_to c st"
  "bytes_to c (st\<lparr>closes := xs\<rparr>) = bytes_to c st"
  by (simp_all add: bytes_to_def)

lemma send_to_others_fields [simp]:
  "clients (send_to_others order m s cs st) = clients st"
  "client_mapp (send_to_others order m s cs st) = client_mapp st"
  "closes (send_to_others order m s cs st) = closes st"
  by (induction cs arbitrary: st) simp_all

lemma bytes_to_send_to_others:
  "distinct cs \<Longrightarrow> bytes_to c (send_to_others order m s cs st)
     = bytes_to c st @ (if c \<in> set cs \<and> c \<noteq> s then frame_of order (''Broadcast: '' @ m) else [])"
  by (induction cs arbitrary: st) auto

lemma erase_names_filter: "erase_names s m = filter (\<lambda>e. snd e \<noteq> s) m"
  by (induction s m rule: erase_names.induct) auto

lemma online_users_concat:
  "online_users m s = s @ concat (map (\<lambda>u. u @ [NL]) (map fst m))"
  by (induction m s rule: online_users.induct) simp_all

section \<open>The directory\<close>

text \<open>
  The abstract server: which sockets are connected and which socket a name stands for.
\<close>

record directory =
  members :: "int set"
  names :: "string \<rightharpoonup> int"

definition directory_of :: "msg_server \<Rightarrow> directory" where
  "directory_of st = \<lparr>members = set (clients st), names = map_of (client_mapp st)\<rparr>"

text \<open>The clients are listed once, and the names as in a \<^verbatim>\<open>std::map\<close>.\<close>

definition tidy :: "msg_server \<Rightarrow> bool" where
  "tidy st \<longleftrightarrow> distinct (clients st) \<and> ascending (client_mapp st)"

text \<open>The directory after socket \<open>s\<close> has sent \<open>message\<close>.\<close>

definition directory_step :: "string \<Rightarrow> int \<Rightarrow> directory \<Rightarrow> directory" where
  "directory_step message s d =
     (let (event, event_data) = split_event message in
      case event_type_of event of
        LOGIN \<Rightarrow> d\<lparr>names := (names d)(event_data \<mapsto> s)\<rparr>
      | LOGOUT \<Rightarrow> d\<lparr>members := members d - {s},
                  names := (\<lambda>u. if names d u = Some s then None else names d u)\<rparr>
      | _ \<Rightarrow> d)"

text \<open>The texts that socket \<open>c\<close> is sent in answer to it, in order.\<close>

definition to_sender :: "int \<Rightarrow> int \<Rightarrow> string \<Rightarrow> string list" where
  "to_sender s c answer = (if c = s then [answer] else [])"

definition directory_texts :: "string \<Rightarrow> int \<Rightarrow> directory \<Rightarrow> int \<Rightarrow> string list" where
  "directory_texts message s d c =
     (let (event, event_data) = split_event message in
      case event_type_of event of
        LOGIN \<Rightarrow> to_sender s c ''Login successful.''
      | LOGOUT \<Rightarrow> to_sender s c ''Logout successful.''
      | BROADCAST \<Rightarrow> (if c \<in> members d \<and> c \<noteq> s then [''Broadcast: '' @ event_data] else [])
          @ to_sender s c ''Broadcast sent successfully.''
      | ONLINE_USERS \<Rightarrow> to_sender s c
          (''Online Users:'' @ [NL] @ concat (map (\<lambda>u. u @ [NL]) (sorted_list_of_set (dom (names d)))))
      | INVALID \<Rightarrow> to_sender s c ''Error: Invalid event type.''
      | DIRECT \<Rightarrow>
          if CHR '':'' \<notin> set event_data then to_sender s c ''Error: Invalid message format.''
          else
            (let (receiver, body) = split_event event_data in
             case names d receiver of
               None \<Rightarrow> to_sender s c ''Error: Receiver not found or offline.''
             | Some r \<Rightarrow> (if c = r then [''Direct message from sender: '' @ body] else [])
                 @ to_sender s c ''Direct message sent successfully.''))"

lemma sorted_keys: "ascending m \<Longrightarrow> sorted_list_of_set (dom (map_of m)) = map fst m"
  unfolding ascending_def dom_map_of_conv_image_fst
  by (metis list.set_map sorted_list_of_set.idem_if_sorted_distinct strict_sorted_iff)

lemma map_of_erase_names:
  assumes "ascending m"
  shows "map_of (erase_names s m) = (\<lambda>u. if map_of m u = Some s then None else map_of m u)"
proof -
  have "map_of (filter (\<lambda>e. snd e \<noteq> s) m)
      = (\<lambda>u. case map_of m u of None \<Rightarrow> None | Some v \<Rightarrow> if v \<noteq> s then Some v else None)"
    by (rule map_of_filter_value [OF assms])
  then show ?thesis
    by (auto simp: erase_names_filter fun_eq_iff split: option.splits)
qed

lemma tidy_send [simp]: "tidy (sendMessageToClient order s m st) = tidy st"
  by (simp add: tidy_def)

lemma directory_of_send [simp]: "directory_of (sendMessageToClient order s m st) = directory_of st"
  by (simp add: directory_of_def)

lemma tidy_to_others [simp]: "tidy (send_to_others order m s cs st) = tidy st"
  by (simp add: tidy_def)

lemma directory_of_to_others [simp]: "directory_of (send_to_others order m s cs st) = directory_of st"
  by (simp add: directory_of_def)

text \<open>Direct messages, broadcasts and lists change nothing but what is sent.\<close>

lemma direct_keeps [simp]:
  "tidy (handleDirectMessage order d s st) = tidy st"
  "directory_of (handleDirectMessage order d s st) = directory_of st"
  "clients (handleDirectMessage order d s st) = clients st"
  by (simp_all add: handleDirectMessage_def Let_def split: option.split)

lemma broadcast_keeps [simp]:
  "tidy (broadcastMessage order m s st) = tidy st"
  "directory_of (broadcastMessage order m s st) = directory_of st"
  "clients (broadcastMessage order m s st) = clients st"
  by (simp_all add: broadcastMessage_def)

lemma online_keeps [simp]:
  "tidy (handleOnlineUsers order s st) = tidy st"
  "directory_of (handleOnlineUsers order s st) = directory_of st"
  "clients (handleOnlineUsers order s st) = clients st"
  by (simp_all add: handleOnlineUsers_def)

lemma directory_of_login:
  "tidy st \<Longrightarrow> directory_of (handleLoginClient order u s st)
     = directory_of st\<lparr>names := (names (directory_of st))(u \<mapsto> s)\<rparr>"
  by (simp add: handleLoginClient_def tidy_def directory_of_def)

lemma clients_login [simp]: "clients (handleLoginClient order u s st) = clients st"
  by (simp add: handleLoginClient_def)

lemma tidy_login:
  "tidy st \<Longrightarrow> tidy (handleLoginClient order u s st)"
  by (simp add: handleLoginClient_def tidy_def)

lemma directory_of_logout:
  "tidy st \<Longrightarrow> directory_of (handleLogoutClient order s st)
     = \<lparr>members = members (directory_of st) - {s},
        names = (\<lambda>u. if names (directory_of st) u = Some s then None else names (directory_of st) u)\<rparr>"
  unfolding directory_of_def
  by (simp add: handleLogoutClient_def tidy_def map_of_erase_names Let_def set_removeAll
      cong: if_cong)

lemma clients_logout [simp]: "clients (handleLogoutClient order s st) = removeAll s (clients st)"
  by (simp add: handleLogoutClient_def Let_def)

lemma tidy_logout:
  "tidy st \<Longrightarrow> tidy (handleLogoutClient order s st)"
  by (auto simp: handleLogoutClient_def tidy_def Let_def erase_names_filter distinct_removeAll)

lemma dispatch_directory:
  "tidy st \<Longrightarrow>
     directory_of (fst (dispatch order message s st)) = directory_step message s (directory_of st)"
  by (simp add: dispatch_def directory_step_def directory_of_login directory_of_logout
      split: event_type.split prod.split)

lemma dispatch_tidy:
  "tidy st \<Longrightarrow> tidy (fst (dispatch order message s st))"
  by (simp add: dispatch_def tidy_login tidy_logout split: event_type.split prod.split)

lemma dispatch_clients:
  "clients (fst (dispatch order message s st))
     = (if snd (dispatch order message s st) then clients st else removeAll s (clients st))"
  by (simp add: dispatch_def split: event_type.split prod.split)

lemma bytes_to_direct:
  "bytes_to c (handleDirectMessage order d s st) = bytes_to c st @ concat (map (frame_of order)
     (if CHR '':'' \<notin> set d then to_sender s c ''Error: Invalid message format.''
      else
        (let (receiver, body) = split_event d in
         case names (directory_of st) receiver of
           None \<Rightarrow> to_sender s c ''Error: Receiver not found or offline.''
         | Some r \<Rightarrow> (if c = r then [''Direct message from sender: '' @ body] else [])
             @ to_sender s c ''Direct message sent successfully.'')))"
proof (cases "str_find d CHR '':''")
  case None
  moreover from None have "CHR '':'' \<notin> set d"
    using str_find_None by blast
  ultimately show ?thesis
    by (simp add: handleDirectMessage_def to_sender_def)
next
  case (Some i)
  moreover have "CHR '':'' \<in> set d"
    using Some str_find_None [of d "CHR '':''"] by force
  ultimately show ?thesis
    by (simp add: handleDirectMessage_def split_event_def directory_of_def to_sender_def Let_def
        split: option.split)
qed

lemma bytes_to_broadcast:
  "tidy st \<Longrightarrow> bytes_to c (broadcastMessage order m s st) = bytes_to c st @ concat (map (frame_of order)
     ((if c \<in> members (directory_of st) \<and> c \<noteq> s then [''Broadcast: '' @ m] else [])
      @ to_sender s c ''Broadcast sent successfully.''))"
  by (simp add: broadcastMessage_def bytes_to_send_to_others tidy_def to_sender_def directory_of_def)

lemma bytes_to_online:
  "tidy st \<Longrightarrow> bytes_to c (handleOnlineUsers order s st) = bytes_to c st @ concat (map (frame_of order)
     (to_sender s c (''Online Users:'' @ [NL]
        @ concat (map (\<lambda>u. u @ [NL]) (sorted_list_of_set (dom (names (directory_of st))))))))"
  by (simp add: handleOnlineUsers_def online_users_concat tidy_def to_sender_def directory_of_def
      sorted_keys)

lemma dispatch_bytes:
  assumes "tidy st"
  shows "bytes_to c (fst (dispatch order message s st))
    = bytes_to c st @ concat (map (frame_of order) (directory_texts message s (directory_of st) c))"
  using bytes_to_direct [of c order _ s st] bytes_to_broadcast [OF assms, of c order _ s]
    bytes_to_online [OF assms, of c order s]
  by (simp add: dispatch_def directory_texts_def handleLoginClient_def handleLogoutClient_def
      to_sender_def Let_def split: event_type.split prod.split)

end
