(* ===== verification/Multi_Hub.thy ===== *)
theory Multi_Hub
  imports Multi_Directory
begin

text \<open>
  Properties of one thread of the message server: what it does with a stream of frames
  from start to end, and the missing bound on the size of a message.
\<close>

section \<open>One iteration\<close>

lemma client_iteration_Continues:
  assumes "client_iteration order junk s es st = Continues es' st'"
  shows "\<exists>m. dispatch order m s st = (st', True)"
  using assms by (auto simp: client_iteration_def split: prod.splits received.splits bool.splits)

lemma client_iteration_Returns:
  assumes "client_iteration order junk s es st = Returns st'"
  shows "st' = handleLogoutClient order s st \<or> (\<exists>m. dispatch order m s st = (st', False))"
  using assms by (auto simp: client_iteration_def split: prod.splits received.splits bool.splits)

lemma dispatch_False:
  "dispatch order m s st = (st', False) \<Longrightarrow> st' = handleLogoutClient order s st"
  by (auto simp: dispatch_def split: event_type.splits prod.splits)

lemma client_iteration_Returns_logout:
  "client_iteration order junk s es st = Returns st' \<Longrightarrow> st' = handleLogoutClient order s st"
  using client_iteration_Returns dispatch_False by blast

lemma client_iteration_keeps:
  assumes "client_iteration order junk s es st = Continues es' st'"
    and "tidy st"
  shows "tidy st' \<and> clients st' = clients st"
proof -
  obtain m where m: "dispatch order m s st = (st', True)"
    using client_iteration_Continues [OF assms(1)] by blast
  then show ?thesis
    using dispatch_tidy [OF assms(2), of order m s] dispatch_clients [of order m s st]
    by (simp only: fst_conv snd_conv if_True)
qed

section \<open>Frames\<close>

definition acceptable_event :: "string \<Rightarrow> bool" where
  "acceptable_event m \<longleftrightarrow> m \<noteq> [] \<and> NUL \<notin> set m \<and> length m < BUFFER_SIZE"

definition received_event :: "byte_order \<Rightarrow> string \<Rightarrow> incoming \<Rightarrow> string option \<times> incoming" where
  "received_event order junk es =
     (case receive_event order junk es of
        (Got m, es') \<Rightarrow> (Some m, es')
      | (_, es') \<Rightarrow> (None, es'))"

lemma receive_event_frame:
  assumes "m \<noteq> []" and "length m < 2 ^ 31" and "length junk = 4"
  shows "receive_event order junk (Bytes (frame_of order' m @ rest) # es)
    = (if length m < BUFFER_SIZE then Got (c_string (m @ [NUL])) else Overflow, chunk rest es)"
proof -
  have head: "sock_recv 4 (Bytes (frame_of order' m @ rest) # es)
      = (Some (frame_head order' m), chunk (m @ rest) es)"
    using sock_recv_prefix [of "frame_head order' m" "m @ rest" es] by (simp add: frame_of_def)
  have body: "sock_recv (length m) (chunk (m @ rest) es) = (Some m, chunk rest es)"
    using assms(1) by (rule sock_recv_chunk)
  have size: "to_size (int (length m)) = length m"
    using assms(2) by (simp add: to_size_small)
  show ?thesis
    unfolding receive_event_def head split_conv option.case if_not_P [OF frame_head_nonempty]
      length_field_head [OF assms(2,3)] size body if_not_P [OF assms(1)]
    by simp
qed

lemma receive_event_delivers:
  assumes "acceptable_event m" and "length junk = 4" and "delivers (frame_fields order' m @ fs) es"
  shows "\<exists>es'. receive_event order junk es = (Got m, es') \<and> delivers fs es'"
proof -
  have m: "m \<noteq> []" "NUL \<notin> set m" "length m < BUFFER_SIZE"
    using assms(1) by (simp_all add: acceptable_event_def)
  then have b: "length m < 2 ^ 31" by simp
  have "delivers (frame_head order' m # m # fs) es"
    using assms(3) by (simp add: frame_fields_def)
  then obtain es1 where head: "sock_recv 4 es = (Some (frame_head order' m), es1)" "delivers (m # fs) es1"
    using delivers_recv [of "frame_head order' m" "m # fs" es] by auto
  obtain es2 where body: "sock_recv (length m) es1 = (Some m, es2)" "delivers fs es2"
    using delivers_recv [OF head(2)] by blast
  have size: "to_size (int (length m)) = length m"
    using b by (simp add: to_size_small)
  have "receive_event order junk es = (Got (c_string (m @ [NUL])), es2)"
    unfolding receive_event_def head(1) split_conv option.case if_not_P [OF frame_head_nonempty]
      length_field_head [OF b assms(2)] size body(1) if_not_P [OF m(1)] if_P [OF m(3)] by (rule refl)
  then show ?thesis
    using body(2) m(2) by (simp add: c_string_append_nul)
qed

interpretation hub: framing
  "frame_fields order" "received_event order' junk" "\<lambda>m. acceptable_event m \<and> length junk = 4"
  for order order' :: byte_order and junk :: string
proof
  fix m :: string and fs :: "string list" and es :: incoming
  assume "acceptable_event m \<and> length junk = 4" and "delivers (frame_fields order m @ fs) es"
  then obtain es' where "receive_event order' junk es = (Got m, es')" "delivers fs es'"
    using receive_event_delivers by blast
  then show "\<exists>es'. received_event order' junk es = (Some m, es') \<and> delivers fs es'"
    by (simp add: received_event_def)
qed

text \<open>
  Whatever events a client sends, a thread that reads them one after the other gets these
  events, as long as the network splits no length and no text.
\<close>

lemma events_received_in_order:
  assumes "\<forall>m \<in> set msgs. acceptable_event m \<and> length junk = 4"
    and "delivers (concat (map (frame_fields order) msgs)) es"
  shows "fst (receive_n (received_event order' junk) (length msgs) es) = map Some msgs"
  using hub.receive_n_fields [of msgs junk order "[]" es order'] assms by auto

text \<open>
  C40: The buffer of a client's thread overflows exactly when the message that arrives in
  one piece has 1024 bytes or more; any such message that a client sends makes the
  thread write past its buffer.
\<close>

theorem long_event_overflows:
  assumes "m \<noteq> []" and "length m < 2 ^ 31" and "length junk = 4"
  shows "client_iteration order junk s (Bytes (frame_of order' m) # es) st = Overflows
    \<longleftrightarrow> 1024 \<le> length m"
proof -
  have "receive_event order junk (Bytes (frame_of order' m) # es)
      = (if length m < BUFFER_SIZE then Got (c_string (m @ [NUL])) else Overflow, chunk [] es)"
    using receive_event_frame [OF assms, of order order' "[]" es] by simp
  then show ?thesis
    by (simp add: client_iteration_def split: prod.split bool.split)
qed

theorem long_event_overflows_witness:
  "client_iteration Little (replicate 4 NUL) 4 (Bytes (frame_of Big (replicate 1024 CHR ''a'')) # []) msg_server_init
      = Overflows \<longleftrightarrow> 1024 \<le> length (replicate 1024 CHR ''a'')"
  by (rule long_event_overflows) simp_all

section \<open>A thread from start to end\<close>

lemma dispatch_goes_on:
  "snd (dispatch order m s st) \<longleftrightarrow> event_type_of (fst (split_event m)) \<noteq> LOGOUT"
  by (simp add: dispatch_def split: event_type.split prod.split)

lemma handleClient_end: "handleClient order junk s [] st = Some (handleLogoutClient order s st)"
  by (subst handleClient.simps) (simp add: client_iteration_def receive_event_def)

lemma handleClient_step:
  assumes "acceptable_event m" and "length (junk 0) = 4" and "delivers (frame_fields order' m @ fs) es"
  shows "\<exists>es'. delivers fs es' \<and> handleClient order junk s es st
    = (if event_type_of (fst (split_event m)) = LOGOUT then Some (handleLogoutClient order s st)
       else handleClient order (\<lambda>k. junk (Suc k)) s es' (fst (dispatch order m s st)))"
proof -
  obtain es' where r: "receive_event order (junk 0) es = (Got m, es')" "delivers fs es'"
    using receive_event_delivers [OF assms] by blast
  obtain st' b where d: "dispatch order m s st = (st', b)"
    by (cases "dispatch order m s st")
  have "b = (event_type_of (fst (split_event m)) \<noteq> LOGOUT)"
    using dispatch_goes_on [of order m s st] d by simp
  then show ?thesis
    using r d dispatch_False [of order m s st st']
    by (subst handleClient.simps) (cases b; auto simp: client_iteration_def)
qed

lemma handleClient_frames:
  "\<forall>k. length (junk k) = 4 \<Longrightarrow>
    \<forall>m \<in> set msgs. acceptable_event m \<and> event_type_of (fst (split_event m)) \<noteq> LOGOUT \<Longrightarrow>
    delivers (concat (map (frame_fields order') msgs) @ fs) es \<Longrightarrow>
    \<exists>es' junk'. delivers fs es' \<and> (\<forall>k. length (junk' k) = 4) \<and> handleClient order junk s es st
      = handleClient order junk' s es' (fold (\<lambda>m st. fst (dispatch order m s st)) msgs st)"
proof (induction msgs arbitrary: junk es st)
  case (Cons m msgs)
  have "delivers (frame_fields order' m @ concat (map (frame_fields order') msgs) @ fs) es"
    using Cons.prems(3) by simp
  from handleClient_step [OF _ _ this, of junk order s st] obtain es1 where
    "delivers (concat (map (frame_fields order') msgs) @ fs) es1"
    "handleClient order junk s es st = handleClient order (\<lambda>k. junk (Suc k)) s es1 (fst (dispatch order m s st))"
    using Cons.prems(1,2) by auto
  then show ?case
    using Cons.IH [of "\<lambda>k. junk (Suc k)" es1 "fst (dispatch order m s st)"] Cons.prems(1,2) by auto
qed auto

text \<open>
  A thread that is sent acceptable events which are no logout, no length and no text
  split, handles exactly these events in order and, when the connection ends, logs its
  client out.
\<close>

lemma handleClient_runs_events:
  assumes "\<forall>m \<in> set msgs. acceptable_event m \<and> event_type_of (fst (split_event m)) \<noteq> LOGOUT"
    and "\<forall>k. length (junk k) = 4" and "delivers (concat (map (frame_fields order') msgs)) es"
  shows "handleClient order junk s es st
    = Some (handleLogoutClient order s (fold (\<lambda>m st. fst (dispatch order m s st)) msgs st))"
  using handleClient_frames [OF assms(2,1), of order' "[]" es order s st] assms(3)
  by (auto simp: handleClient_end)

lemma handleClient_runs_events_witness:
  "handleClient Little (\<lambda>_. replicate 4 NUL) 4
      (map Bytes (concat (map (frame_fields Big) [''login:ann'', ''broadcast:hi'']))) (accept_client 4 msg_server_init)
    = Some (handleLogoutClient Little 4
        (fold (\<lambda>m st. fst (dispatch Little m 4 st)) [''login:ann'', ''broadcast:hi'']
          (accept_client 4 msg_server_init)))"
  by (rule handleClient_runs_events)
    (simp_all add: acceptable_event_def split_event_def event_type_of_def event_map_def frame_fields_def chunk_def)

text \<open>
  C25: However the stream of a client is cut and whatever it holds, its thread ends, and
  unless the buffer overflowed its socket is then no longer among the clients, no name
  stands for it, and it has been closed.
\<close>

theorem thread_ends_logged_out:
  assumes "handleClient order junk s es st = Some st'" and "tidy st" and "s \<in> set (clients st)"
  shows "s \<notin> set (clients st') \<and> s \<notin> ran (map_of (client_mapp st')) \<and> last (closes st') = s"
  using assms
proof (induction order junk s es st rule: handleClient.induct)
  case (1 order junk s es st)
  show ?case
  proof (cases "client_iteration order (junk 0) s es st")
    case (Continues es1 st1)
    then have "handleClient order (\<lambda>k. junk (Suc k)) s es1 st1 = Some st'"
      using "1.prems"(1) by (subst (asm) handleClient.simps) simp
    then show ?thesis
      using "1.IH" [OF Continues] client_iteration_keeps [OF Continues "1.prems"(2)] "1.prems"(3) by simp
  next
    case (Returns st1)
    then have "st' = handleLogoutClient order s st"
      using "1.prems"(1) client_iteration_Returns_logout [OF Returns]
      by (subst (asm) handleClient.simps) simp
    moreover have "last (closes (handleLogoutClient order s st)) = s"
      by (simp add: handleLogoutClient_def Let_def)
    moreover have "s \<notin> ran (names (directory_of (handleLogoutClient order s st)))"
      by (simp add: directory_of_logout [OF "1.prems"(2)] ran_def)
    ultimately show ?thesis
      by (simp add: directory_of_def)
  next
    case Overflows
    then show ?thesis
      using "1.prems"(1) by (subst (asm) handleClient.simps) simp
  qed
qed

theorem thread_ends_logged_out_witness:
  "(4::int) \<notin> set (clients (handleLogoutClient Little 4 (accept_client 4 msg_server_init)))
    \<and> 4 \<notin> ran (map_of (client_mapp (handleLogoutClient Little 4 (accept_client 4 msg_server_init))))
    \<and> last (closes (handleLogoutClient Little 4 (accept_client 4 msg_server_init))) = 4"
  by (rule thread_ends_logged_out [where order = Little and junk = "\<lambda>_. replicate 4 NUL" and es = "[]"
        and st = "accept_client 4 msg_server_init"], simp only: handleClient_end)
    (simp_all add: accept_client_def msg_server_init_def tidy_def)

end
