(* ===== verification/Multi_Client.thy ===== *)
theory Multi_Client
  imports Multi_Hub Tcp_Simple
begin

text \<open>
  The client of \<^verbatim>\<open>cpp/socket_programming/multi_client_server/client.cpp\<close>: start-up, the
  thread that shows what the server sends, the input loop; and the client and the server
  together.
\<close>

section \<open>Receiving\<close>

text \<open>
  One pass of the receiving loop: the server is gone, the body could not be read, a
  message, or a buffer that cannot be allocated or is written outside its bounds.
\<close>

datatype client_received = Disconnected | Receive_error | Shown string | Bad_buffer

definition client_receive :: "byte_order \<Rightarrow> string \<Rightarrow> incoming \<Rightarrow> client_received \<times> incoming" where
  "client_receive order junk es =
     (case sock_recv 4 es of
        (None, es1) \<Rightarrow> (Disconnected, es1)
      | (Some head, es1) \<Rightarrow>
          if head = [] then (Disconnected, es1)
          else
            (let len = length_field order junk (Some head) in
             if len + 1 < 0 \<or> 2 ^ 31 \<le> len + 1 then (Bad_buffer, es1)
             else
               (case sock_recv (to_size len) es1 of
                  (None, es2) \<Rightarrow> (Receive_error, es2)
                | (Some body, es2) \<Rightarrow>
                    if body = [] then (Receive_error, es2)
                    else if length body < nat (len + 1) then (Shown (c_string (body @ [NUL])), es2)
                    else (Bad_buffer, es2))))"

lemma client_receive_decreases:
  assumes "client_receive order junk es = (r, es')" and "r = Receive_error \<or> r = Shown m"
  shows "incoming_size es' < incoming_size es"
proof -
  obtain head es1 where h: "sock_recv 4 es = (Some head, es1)" "head \<noteq> []"
    using assms by (auto simp: client_receive_def split: prod.splits option.splits if_splits)
  let ?n = "to_size (length_field order junk (Some head))"
  have "es' = snd (sock_recv ?n es1)"
    using assms h by (auto simp: client_receive_def Let_def split: prod.splits option.splits if_splits)
  then have "incoming_size es' \<le> incoming_size es1"
    using sock_recv_size [of ?n es1] by simp
  also have "\<dots> < incoming_size es"
    using sock_recv_size_less [of 4 es head] h by simp
  finally show ?thesis .
qed

text \<open>What the thread prints, and how it ended: by \<^verbatim>\<open>exit(0)\<close> or with undefined behaviour.\<close>

datatype receiver_end = Exit_0 | Memory_fault

definition shown_line :: "string \<Rightarrow> string" where
  "shown_line m = [NL] @ ''[Server Message]: '' @ m @ [NL] @ ''Enter message: ''"

definition disconnected_line :: string where
  "disconnected_line = [NL] @ ''[INFO]: Server disconnected.'' @ [NL]"

definition receive_error_line :: string where
  "receive_error_line = [NL] @ ''[ERROR]: Error receiving message.'' @ [NL]"

text \<open>The memory of the uninitialised length may hold other bytes in each pass.\<close>

function receiveMessages :: "byte_order \<Rightarrow> (nat \<Rightarrow> string) \<Rightarrow> incoming \<Rightarrow> string list \<times> receiver_end" where
  "receiveMessages order junk es =
     (case client_receive order (junk 0) es of
        (Disconnected, _) \<Rightarrow> ([disconnected_line], Exit_0)
      | (Bad_buffer, _) \<Rightarrow> ([], Memory_fault)
      | (Receive_error, es') \<Rightarrow>
          let (out, e) = receiveMessages order (\<lambda>k. junk (Suc k)) es' in (receive_error_line # out, e)
      | (Shown m, es') \<Rightarrow>
          let (out, e) = receiveMessages order (\<lambda>k. junk (Suc k)) es' in (shown_line m # out, e))"
  by pat_completeness auto
termination
  by (relation "measure (\<lambda>(order, junk, es). incoming_size es)")
    (auto dest: client_receive_decreases [OF sym])

declare receiveMessages.simps [simp del]

section \<open>Sending and the input loop\<close>

text \<open>
  The two \<^verbatim>\<open>send\<close> calls: \<open>net\<close> says which of them returns a positive number. The bytes
  that go out, and what is printed.
\<close>

definition sendMessage_checked ::
  "byte_order \<Rightarrow> bool \<times> bool \<Rightarrow> string \<Rightarrow> string list \<times> string" where
  "sendMessage_checked order net message =
     (if \<not> fst net then ([], [NL] @ ''[ERROR]: Failed to send message length.'' @ [NL])
      else if \<not> snd net
        then ([frame_head order message], [NL] @ ''[ERROR]: Failed to send message content.'' @ [NL])
      else ([frame_head order message, message], [NL] @ ''[INFO]: Message sent successfully.'' @ [NL]))"

datatype client_end = Logged_out | Typing

text \<open>
  At most \<open>n\<close> passes of the input loop over the lines that are typed. At the end of the
  input \<^verbatim>\<open>getline\<close> fails and leaves the line empty, which is not looked at.
\<close>

fun client_inputs ::
  "byte_order \<Rightarrow> (nat \<Rightarrow> bool \<times> bool) \<Rightarrow> nat \<Rightarrow> string list \<Rightarrow> string list \<times> string list \<times> client_end" where
  "client_inputs order net 0 typed = ([], [], Typing)"
| "client_inputs order net (Suc n) typed =
     (let msg = (case typed of [] \<Rightarrow> [] | line # _ \<Rightarrow> line) in
      if msg = []
      then
        let (sent, out, e) = client_inputs order net n (tl typed)
        in (sent, (''[WARNING]: Message cannot be empty. Try again.'' @ [NL]) # out, e)
      else
        let (frames, line) = sendMessage_checked order (net n) msg in
        if msg = ''logout'' then (frames, [line, ''[INFO]: Logging out...'' @ [NL]], Logged_out)
        else
          let (sent, out, e) = client_inputs order net n (tl typed)
          in (frames @ sent, line # out, e))"

text \<open>
  \<^verbatim>\<open>main\<close> and \<^verbatim>\<open>clientStartUp\<close>, with the results of \<^verbatim>\<open>socket\<close>, \<^verbatim>\<open>inet_pton\<close> and
  \<^verbatim>\<open>connect\<close>: an error message, or what is sent and how the input loop ended after at
  most \<open>n\<close> passes.
\<close>

definition client_main ::
  "byte_order \<Rightarrow> int \<Rightarrow> int \<Rightarrow> int \<Rightarrow> (nat \<Rightarrow> bool \<times> bool) \<Rightarrow> nat \<Rightarrow> string list \<Rightarrow>
     string + string list \<times> client_end" where
  "client_main order socket_result pton_result connect_result net n typed =
     (let username = (case typed of [] \<Rightarrow> [] | line # _ \<Rightarrow> line) in
      if username = [] then Inl ''[ERROR]: Username cannot be empty. Exiting...''
      else if socket_result < 0 then Inl ''[ERROR]: Socket creation failed.''
      else if pton_result \<le> 0 then Inl ''[ERROR]: Invalid server IP address.''
      else if connect_result < 0 then Inl ''[ERROR]: Connection to server failed.''
      else
        let (frames, _) = sendMessage_checked order (net n) (''login:'' @ username);
            (sent, _, e) = client_inputs order net n (tl typed)
        in Inr (frames @ sent, e))"

section \<open>Frames that reach the client\<close>

definition shown_message :: "byte_order \<Rightarrow> string \<Rightarrow> incoming \<Rightarrow> string option \<times> incoming" where
  "shown_message order junk es =
     (case client_receive order junk es of
        (Shown m, es') \<Rightarrow> (Some m, es')
      | (_, es') \<Rightarrow> (None, es'))"

lemma client_receive_body:
  assumes "0 < length m" and "length m + 1 < 2 ^ 31" and "length junk = 4"
    and "length m \<le> length body"
  shows "client_receive order junk (Bytes (frame_head order' m @ body) # es)
    = (Shown (c_string (take (length m) body @ [NUL])), chunk (drop (length m) body) es)"
proof -
  have body: "body = take (length m) body @ drop (length m) body"
    by simp
  have ne: "take (length m) body \<noteq> []"
    using assms(1,4) by auto
  have b: "length m < 2 ^ 31" using assms(2) by simp
  have head: "sock_recv 4 (Bytes (frame_head order' m @ body) # es) = (Some (frame_head order' m), chunk body es)"
    using sock_recv_prefix [of "frame_head order' m" body es] by simp
  have recv: "sock_recv (length m) (chunk body es) = (Some (take (length m) body), chunk (drop (length m) body) es)"
    using sock_recv_chunk [OF ne, of "drop (length m) body" es] assms(4) by simp
  have size: "to_size (int (length m)) = length m"
    using b by (simp add: to_size_small)
  have small: "int (length m) + 1 < 2 ^ 31" using assms(2) by simp
  show ?thesis
    unfolding client_receive_def head split_conv option.case if_not_P [OF frame_head_nonempty] Let_def
      length_field_head [OF b assms(3)] size recv if_not_P [OF ne]
    using small assms(4) by simp
qed

lemma client_receive_delivers:
  assumes "sendable m" and "length junk = 4" and "delivers (frame_fields order' m @ fs) es"
  shows "\<exists>es'. client_receive order junk es = (Shown m, es') \<and> delivers fs es'"
proof -
  have m: "m \<noteq> []" "NUL \<notin> set m" and b: "length m < 2 ^ 31"
    and small: "\<not> (int (length m) + 1 < 0 \<or> 2 ^ 31 \<le> int (length m) + 1)"
    and fits: "length m < nat (int (length m) + 1)"
    using assms(1) by (simp_all add: sendable_def)
  have "delivers (frame_head order' m # m # fs) es"
    using assms(3) by (simp add: frame_fields_def)
  then obtain es1 where head: "sock_recv 4 es = (Some (frame_head order' m), es1)" "delivers (m # fs) es1"
    using delivers_recv [of "frame_head order' m" "m # fs" es] by auto
  obtain es2 where body: "sock_recv (length m) es1 = (Some m, es2)" "delivers fs es2"
    using delivers_recv [OF head(2)] by blast
  have size: "to_size (int (length m)) = length m"
    using b by (simp add: to_size_small)
  have "client_receive order junk es = (Shown (c_string (m @ [NUL])), es2)"
    unfolding client_receive_def head(1) split_conv option.case if_not_P [OF frame_head_nonempty] Let_def
      length_field_head [OF b assms(2)] if_not_P [OF small] size body(1) if_not_P [OF m(1)] if_P [OF fits]
    by (rule refl)
  then show ?thesis
    using body(2) m(2) by (simp add: c_string_append_nul)
qed

interpretation hub_client: framing
  "frame_fields order" "shown_message order' junk" "\<lambda>m. sendable m \<and> length junk = 4"
  for order order' :: byte_order and junk :: string
proof
  fix m :: string and fs :: "string list" and es :: incoming
  assume "sendable m \<and> length junk = 4" and "delivers (frame_fields order m @ fs) es"
  then obtain es' where "client_receive order' junk es = (Shown m, es')" "delivers fs es'"
    using client_receive_delivers by blast
  then show "\<exists>es'. shown_message order' junk es = (Some m, es') \<and> delivers fs es'"
    by (simp add: shown_message_def)
qed

section \<open>Properties\<close>

text \<open>
  C28: The client shows every message of the server, in the order they were sent and one
  line each, and exits with the notice of disconnection when the server closes, provided
  that the network, which may join messages into larger chunks, splits no length and no
  text.
\<close>

theorem client_shows_messages:
  assumes "\<forall>m \<in> set msgs. sendable m" and "\<forall>k. length (junk k) = 4"
    and "delivers (concat (map (frame_fields order') msgs)) es"
  shows "receiveMessages order junk es = (map shown_line msgs @ [disconnected_line], Exit_0)"
  using assms
proof (induction msgs arbitrary: junk es)
  case Nil
  then show ?case
    by (simp add: receiveMessages.simps client_receive_def)
next
  case (Cons m msgs)
  have "delivers (frame_fields order' m @ concat (map (frame_fields order') msgs)) es"
    using Cons.prems(3) by simp
  from client_receive_delivers [OF _ _ this, of "junk 0" order] obtain es1 where
    "client_receive order (junk 0) es = (Shown m, es1)" "delivers (concat (map (frame_fields order') msgs)) es1"
    using Cons.prems(1,2) by auto
  then show ?case
    using Cons.IH [of "\<lambda>k. junk (Suc k)" es1] Cons.prems(1,2) by (subst receiveMessages.simps) simp
qed

theorem client_shows_messages_witness:
  "receiveMessages Little (\<lambda>_. replicate 4 NUL)
      [Bytes (frame_of Big ''hi'' @ frame_head Big ''you''), Bytes ''you'', Bytes (frame_of Big ''all'')]
    = (map shown_line [''hi'', ''you'', ''all''] @ [disconnected_line], Exit_0)"
  by (rule client_shows_messages [where order' = Big])
    (simp_all add: sendable_def frame_fields_def frame_of_def chunk_def)

lemma client_inputs_line:
  assumes "m \<noteq> []" and "m \<noteq> ''logout''" and "client_inputs order net n typed = (sent, out, e)"
    and "net n = (True, True)"
  shows "\<exists>out'. client_inputs order net (Suc n) (m # typed) = (frame_fields order m @ sent, out', e)"
  using assms by (simp add: sendMessage_checked_def frame_fields_def Let_def)

lemma client_inputs_commands:
  "\<forall>m \<in> set cmds. m \<noteq> [] \<and> m \<noteq> ''logout'' \<Longrightarrow>
    \<exists>out. client_inputs order (\<lambda>_. (True, True)) (Suc (length cmds)) (cmds @ [''logout''])
      = (concat (map (frame_fields order) (cmds @ [''logout''])), out, Logged_out)"
proof (induction cmds)
  case Nil
  then show ?case by (simp add: sendMessage_checked_def frame_fields_def Let_def)
next
  case (Cons m cmds)
  then obtain out where "client_inputs order (\<lambda>_. (True, True)) (Suc (length cmds)) (cmds @ [''logout''])
      = (concat (map (frame_fields order) (cmds @ [''logout''])), out, Logged_out)"
    by auto
  from client_inputs_line [OF _ _ this refl, of m] Cons.prems show ?case
    by simp
qed

lemma acceptable_login:
  "NUL \<notin> set u \<Longrightarrow> length u < 1018 \<Longrightarrow> acceptable_event (''login:'' @ u)"
  by (simp add: acceptable_event_def)

lemma split_login: "split_event (''login:'' @ u) = (''login'', u)"
  by (simp add: split_event_def)

lemma login_event: "event_type_of ''login'' = LOGIN"
  by (simp add: event_type_of_def event_map_def)

lemma logout_event: "event_type_of (fst (split_event ''logout'')) = LOGOUT"
  by (simp add: split_event_def event_type_of_def event_map_def)

text \<open>
  C19: A session end to end. A user types a name and commands that are not empty, hold no
  zero byte, are shorter than the server's buffer and are no logout, and then logs out, and
  every send succeeds: the client sends this and ends. Whenever the network has joined the
  bytes into chunks that split no length and no text, and no other thread of the server
  runs in between, the thread of this client registers the name, handles the commands in
  order and logs the client out.
\<close>

theorem session_end_to_end:
  assumes "u \<noteq> []" and "NUL \<notin> set u" and "length u < 1018"
    and "\<forall>m \<in> set cmds. acceptable_event m \<and> event_type_of (fst (split_event m)) \<noteq> LOGOUT"
    and "\<forall>k. length (junk k) = 4"
  shows "\<exists>sent. client_main order' 3 1 0 (\<lambda>_. (True, True)) (Suc (length cmds)) (u # cmds @ [''logout''])
      = Inr (sent, Logged_out)
    \<and> (\<forall>es. delivers sent es \<longrightarrow> handleClient order junk s es st
      = Some (handleLogoutClient order s
          (fold (\<lambda>m st. fst (dispatch order m s st)) cmds (handleLoginClient order u s st))))"
proof -
  let ?msgs = "(''login:'' @ u) # cmds"
  have "\<forall>m \<in> set cmds. m \<noteq> [] \<and> m \<noteq> ''logout''"
    using assms(4) logout_event by (auto simp: acceptable_event_def)
  from client_inputs_commands [OF this, of order'] obtain out where
    out: "client_inputs order' (\<lambda>_. (True, True)) (Suc (length cmds)) (cmds @ [''logout''])
      = (concat (map (frame_fields order') (cmds @ [''logout''])), out, Logged_out)"
    by blast
  let ?sent = "concat (map (frame_fields order') (?msgs @ [''logout'']))"
  have c: "client_main order' 3 1 0 (\<lambda>_. (True, True)) (Suc (length cmds)) (u # cmds @ [''logout''])
      = Inr (?sent, Logged_out)"
    using assms(1)
    by (simp add: client_main_def out sendMessage_checked_def frame_fields_def del: client_inputs.simps)
  have "event_type_of (fst (split_event (''login:'' @ u))) \<noteq> LOGOUT"
    unfolding split_login fst_conv login_event by simp
  then have ok: "\<forall>m \<in> set ?msgs. acceptable_event m \<and> event_type_of (fst (split_event m)) \<noteq> LOGOUT"
    using assms(4) acceptable_login [OF assms(2,3)] by (simp only: list.set) blast
  have last_ok: "acceptable_event ''logout''"
    by (simp add: acceptable_event_def)
  have login: "fst (dispatch order (''login:'' @ u) s st) = handleLoginClient order u s st"
    by (simp only: dispatch_def split_login prod.case login_event event_type.case fst_conv Let_def)
  have "handleClient order junk s es st = Some (handleLogoutClient order s
      (fold (\<lambda>m st. fst (dispatch order m s st)) ?msgs st))" if "delivers ?sent es" for es
  proof -
    have d: "delivers (concat (map (frame_fields order') ?msgs) @ frame_fields order' ''logout'') es"
      using that by simp
    obtain es' junk' where e: "delivers (frame_fields order' ''logout'' @ []) es'" "\<forall>k. length (junk' k) = 4"
      "handleClient order junk s es st
        = handleClient order junk' s es' (fold (\<lambda>m st. fst (dispatch order m s st)) ?msgs st)"
      using handleClient_frames [OF assms(5) ok d, of order s st] by auto
    show ?thesis
      using handleClient_step [OF last_ok _ e(1), of junk' order s] e(2,3) logout_event by auto
  qed
  then show ?thesis
    using c unfolding fold_simps comp_def login by blast
qed

theorem session_end_to_end_witness:
  "\<exists>sent. client_main Little 3 1 0 (\<lambda>_. (True, True)) (Suc (length [''broadcast:hi'']))
        (''ann'' # [''broadcast:hi''] @ [''logout''])
      = Inr (sent, Logged_out)
    \<and> handleClient Big (\<lambda>_. replicate 4 NUL) 4 (chunk (concat sent) []) msg_server_init
      = Some (handleLogoutClient Big 4
          (fold (\<lambda>m st. fst (dispatch Big m 4 st)) [''broadcast:hi'']
            (handleLoginClient Big ''ann'' 4 msg_server_init)))"
proof -
  have "acceptable_event ''broadcast:hi''" "event_type_of (fst (split_event ''broadcast:hi'')) \<noteq> LOGOUT"
    by (simp_all add: acceptable_event_def split_event_def event_type_of_def event_map_def)
  then show ?thesis
    using session_end_to_end [of "''ann''" "[''broadcast:hi'']" "\<lambda>_. replicate 4 NUL" Little Big 4 msg_server_init]
      delivers_one_chunk by auto
qed

text \<open>
  When the input of the client ends, its input loop repeats the warning about an
  empty message for ever and sends nothing, not even a logout.
\<close>

lemma client_spins_at_end_of_input:
  "client_inputs order net n []
    = ([], replicate n (''[WARNING]: Message cannot be empty. Try again.'' @ [NL]), Typing)"
proof (induction n)
  case 0
  then show ?case by simp
next
  case (Suc n)
  then show ?case
    by (simp add: Let_def)
qed

text \<open>
  A frame is two calls of \<open>send\<close>. When two threads of the server send to the same
  client and their calls interleave, the client takes the second length for the text of
  the first message and shows an empty message.
\<close>

lemma interleaved_sends_garble:
  assumes "sendable m" and "length m' < 2 ^ 24" and "length junk = 4"
  shows "[(c, frame_head order m), (c, frame_head order m'), (c, m), (c, m')]
      \<in> shuffles (sends (sendMessageToClient order c m msg_server_init))
                 (sends (sendMessageToClient order c m' msg_server_init))
    \<and> fst (client_receive order' junk
        (Bytes (concat [frame_head order m, frame_head order m', m, m']) # es)) = Shown []"
proof
  show "[(c, frame_head order m), (c, frame_head order m'), (c, m), (c, m')]
      \<in> shuffles (sends (sendMessageToClient order c m msg_server_init))
                 (sends (sendMessageToClient order c m' msg_server_init))"
    by (simp add: sendMessageToClient_def msg_server_init_def Cons_in_shuffles_iff)
next
  let ?body = "frame_head order m' @ m @ m'"
  have m: "0 < length m" "length m + 1 < 2 ^ 31"
    using assms(1) by (simp_all add: sendable_def)
  have "unat (of_nat (length m') :: 32 word) = length m'"
    using assms(2) by (simp add: unat_of_nat)
  then have "byte_of 3 (of_nat (length m')) = NUL"
    using assms(2) by (simp add: byte_of_def char_of_def)
  then have "hd (frame_head order m') = NUL"
    unfolding frame_head_def mem_bytes_htonl by (simp add: mem_bytes_def)
  then obtain t where "frame_head order m' = NUL # t"
    using frame_head_nonempty [of order m'] by (metis list.collapse)
  then have "c_string (take (length m) ?body @ [NUL]) = []"
    using m(1) by (cases m) (simp_all add: c_string_def)
  then show "fst (client_receive order' junk
        (Bytes (concat [frame_head order m, frame_head order m', m, m']) # es)) = Shown []"
    using client_receive_body [OF m assms(3), of ?body order' order es] by simp
qed

lemma interleaved_sends_garble_witness:
  "[(4, frame_head Little ''hi''), (4, frame_head Little ''you''), (4, ''hi''), (4, ''you'')]
      \<in> shuffles (sends (sendMessageToClient Little 4 ''hi'' msg_server_init))
                 (sends (sendMessageToClient Little 4 ''you'' msg_server_init))
    \<and> fst (client_receive Little (replicate 4 NUL)
        (Bytes (concat [frame_head Little ''hi'', frame_head Little ''you'', ''hi'', ''you'']) # [])) = Shown []"
  by (rule interleaved_sends_garble) (simp_all add: sendable_def)

text \<open>
  None of the receivers reads on when \<^verbatim>\<open>recv\<close> returns less than the length announced.
  When the network delivers a message in two pieces, the simple client and server, a
  thread of the message server and its client all take the first piece for the whole
  message and leave the second to be read as the next length.
\<close>

lemma short_read_truncates:
  assumes "sendable (a @ b)" and "a \<noteq> []" and "b \<noteq> []" and "length a < 1024" and "length junk = 4"
  shows "receiveMessage order junk (Bytes (frame_head order' (a @ b) @ a) # Bytes b # es) = (Inr a, Bytes b # es)
    \<and> receive_event order junk (Bytes (frame_head order' (a @ b) @ a) # Bytes b # es) = (Got a, Bytes b # es)
    \<and> client_receive order junk (Bytes (frame_head order' (a @ b) @ a) # Bytes b # es) = (Shown a, Bytes b # es)"
proof -
  let ?es = "Bytes (frame_head order' (a @ b) @ a) # Bytes b # es"
  have head: "sock_recv 4 ?es = (Some (frame_head order' (a @ b)), Bytes a # Bytes b # es)"
    using sock_recv_prefix [of "frame_head order' (a @ b)" a "Bytes b # es"] assms(2) by (simp add: chunk_def)
  have size: "length (a @ b) < 2 ^ 31" "length a < Suc (length (a @ b))"
    using assms(1) by (simp_all add: sendable_def)
  have len: "length_field order junk (Some (frame_head order' (a @ b))) = int (length (a @ b))"
    by (rule length_field_head [OF size(1) assms(5)])
  have n: "to_size (int (length (a @ b))) = length (a @ b)"
    using size(1) by (simp add: to_size_small)
  have body: "sock_recv (length (a @ b)) (Bytes a # Bytes b # es) = (Some a, Bytes b # es)"
    by simp
  have c: "c_string (a @ [NUL]) = a"
    using assms(1) by (simp add: sendable_def c_string_append_nul)
  have small: "\<not> (int (length (a @ b)) + 1 < 0 \<or> 2 ^ 31 \<le> int (length (a @ b)) + 1)"
    using assms(1) by (simp add: sendable_def)
  have fits: "length a < nat (int (length (a @ b)) + 1)"
    by simp
  note unfold_receive = head split_conv option.case if_not_P [OF frame_head_nonempty] Let_def len n body
    if_not_P [OF small] if_not_P [OF assms(2)] if_P [OF fits] if_P [OF assms(4)] c
  show ?thesis
    unfolding receiveMessage_def receive_event_def client_receive_def unfold_receive by simp
qed

lemma short_read_truncates_witness:
  "receiveMessage Little (replicate 4 NUL) (Bytes (frame_head Big (''hel'' @ ''lo'') @ ''hel'') # Bytes ''lo'' # [])
      = (Inr ''hel'', Bytes ''lo'' # [])
    \<and> receive_event Little (replicate 4 NUL) (Bytes (frame_head Big (''hel'' @ ''lo'') @ ''hel'') # Bytes ''lo'' # [])
      = (Got ''hel'', Bytes ''lo'' # [])
    \<and> client_receive Little (replicate 4 NUL) (Bytes (frame_head Big (''hel'' @ ''lo'') @ ''hel'') # Bytes ''lo'' # [])
      = (Shown ''hel'', Bytes ''lo'' # [])"
  by (rule short_read_truncates) (simp_all add: sendable_def)

end
