(* ===== verification/Multi_Threads.thy ===== *)
theory Multi_Threads
  imports Multi_Client
begin

text \<open>
  The threads of the message server
  (\<^verbatim>\<open>cpp/socket_programming/multi_client_server/server.cpp\<close>) action by action: a thread
  runs between any two \<^verbatim>\<open>send\<close> calls or accesses of another, and only \<^verbatim>\<open>client_mutex\<close> keeps
  it out. Requests that are handled under the mutex have the effect of the uninterrupted
  handlers of \<open>Multi_Server\<close>; the others have it when no other thread acts in between.
\<close>

section \<open>Actions\<close>

text \<open>
  What a thread does in one go; its own socket is the thread's name. \<open>A_find\<close> and \<open>A_fetch\<close>
  are the two accesses of \<^verbatim>\<open>handleDirectMessage\<close>, \<open>A_broadcast\<close> and \<open>A_list\<close> read the
  clients and the names under the mutex, \<open>A_erase\<close> is the block of \<^verbatim>\<open>handleLogoutClient\<close>.
\<close>

datatype server_act =
    A_lock
  | A_unlock
  | A_send int string
  | A_set string
  | A_find string string
  | A_fetch string string
  | A_broadcast string
  | A_list
  | A_erase
  | A_close

definition frame_sends :: "byte_order \<Rightarrow> int \<Rightarrow> string \<Rightarrow> (int \<times> string) list" where
  "frame_sends order c m = [(c, frame_head order m), (c, m)]"

definition send_acts :: "(int \<times> string) list \<Rightarrow> server_act list" where
  "send_acts = map (\<lambda>(c, b). A_send c b)"

definition leave_acts :: "byte_order \<Rightarrow> int \<Rightarrow> server_act list" where
  "leave_acts order s = send_acts (frame_sends order s ''Logout successful.'') @ [A_close]"

definition logout_acts :: "byte_order \<Rightarrow> int \<Rightarrow> server_act list" where
  "logout_acts order s = A_lock # A_erase # A_unlock # leave_acts order s"

datatype request = Message string | Hangup

text \<open>What a thread sets out to do for a request: the bodies of the handlers.\<close>

definition direct_acts :: "byte_order \<Rightarrow> int \<Rightarrow> string \<Rightarrow> server_act list" where
  "direct_acts order s event_data =
     (case str_find event_data CHR '':'' of
        Some delimiter_pos \<Rightarrow> [A_find (take delimiter_pos event_data) (drop (Suc delimiter_pos) event_data)]
      | None \<Rightarrow> send_acts (frame_sends order s ''Error: Invalid message format.''))"

fun request_acts :: "byte_order \<Rightarrow> int \<Rightarrow> request \<Rightarrow> server_act list" where
  "request_acts order s Hangup = logout_acts order s"
| "request_acts order s (Message m) =
     (let (event, event_data) = split_event m in
      case event_type_of event of
        LOGIN \<Rightarrow> A_set event_data # send_acts (frame_sends order s ''Login successful.'')
      | DIRECT \<Rightarrow> direct_acts order s event_data
      | BROADCAST \<Rightarrow> [A_lock, A_broadcast event_data]
      | LOGOUT \<Rightarrow> logout_acts order s
      | ONLINE_USERS \<Rightarrow> [A_lock, A_list]
      | INVALID \<Rightarrow> send_acts (frame_sends order s ''Error: Invalid event type.''))"

text \<open>The thread returns after these.\<close>

fun last_request :: "request \<Rightarrow> bool" where
  "last_request Hangup = True"
| "last_request (Message m) = (event_type_of (fst (split_event m)) = LOGOUT)"

text \<open>
  What an action does to the globals, and what it sets out to do next. \<^verbatim>\<open>operator[]\<close> in
  \<open>A_fetch\<close> enters a name that is no longer there, with 0.
\<close>

definition broadcast_sends :: "byte_order \<Rightarrow> int \<Rightarrow> string \<Rightarrow> int list \<Rightarrow> (int \<times> string) list" where
  "broadcast_sends order s message cs =
     concat (map (\<lambda>c. if c \<noteq> s then frame_sends order c (''Broadcast: '' @ message) else []) cs)"

fun act_effect ::
  "byte_order \<Rightarrow> int \<Rightarrow> server_act \<Rightarrow> msg_server \<Rightarrow> msg_server \<times> server_act list" where
  "act_effect order s A_lock st = (st, [])"
| "act_effect order s A_unlock st = (st, [])"
| "act_effect order s (A_send c b) st = (st\<lparr>sends := sends st @ [(c, b)]\<rparr>, [])"
| "act_effect order s (A_set u) st = (st\<lparr>client_mapp := map_put u s (client_mapp st)\<rparr>, [])"
| "act_effect order s (A_find u m) st =
     (st, if map_of (client_mapp st) u \<noteq> None then [A_fetch u m]
          else send_acts (frame_sends order s ''Error: Receiver not found or offline.''))"
| "act_effect order s (A_fetch u m) st =
     (let r = (case map_of (client_mapp st) u of Some r \<Rightarrow> r | None \<Rightarrow> 0)
      in (st\<lparr>client_mapp := (if map_of (client_mapp st) u = None then map_put u 0 (client_mapp st) else client_mapp st)\<rparr>,
          send_acts (frame_sends order r (''Direct message from sender: '' @ m)
            @ frame_sends order s ''Direct message sent successfully.'')))"
| "act_effect order s (A_broadcast m) st =
     (st, send_acts (broadcast_sends order s m (clients st)
            @ frame_sends order s ''Broadcast sent successfully.'') @ [A_unlock])"
| "act_effect order s A_list st =
     (st, send_acts (frame_sends order s (online_users (client_mapp st) (''Online Users:'' @ [NL]))) @ [A_unlock])"
| "act_effect order s A_erase st =
     (st\<lparr>client_mapp := erase_names s (client_mapp st), clients := removeAll s (clients st)\<rparr>, [])"
| "act_effect order s A_close st = (st\<lparr>closes := closes st @ [s]\<rparr>, [])"

section \<open>The threads together\<close>

text \<open>
  \<open>f_todo\<close> are the requests that a thread will still receive; \<open>f_read\<close> records those that
  the threads have received, in order.
\<close>

record fine =
  f_server :: msg_server
  f_mutex :: "int option"
  f_acts :: "int \<Rightarrow> server_act list"
  f_todo :: "int \<Rightarrow> request list"
  f_read :: "(int \<times> request) list"

definition do_act :: "byte_order \<Rightarrow> int \<Rightarrow> fine \<Rightarrow> fine option" where
  "do_act order s f =
     (case f_acts f s of
        [] \<Rightarrow> None
      | a # as \<Rightarrow>
          if a = A_lock \<and> f_mutex f \<noteq> None then None
          else
            (let (st, next) = act_effect order s a (f_server f)
             in Some (f\<lparr>f_server := st, f_acts := (f_acts f)(s := next @ as),
                        f_mutex := (if a = A_lock then Some s else if a = A_unlock then None else f_mutex f)\<rparr>)))"

text \<open>
  \<^verbatim>\<open>accept\<close> returns a descriptor that is not open; \<^verbatim>\<open>main\<close> takes the mutex only to append
  it. \<open>P\<close> limits the requests that clients send.
\<close>

inductive fine_step :: "byte_order \<Rightarrow> (request \<Rightarrow> bool) \<Rightarrow> fine \<Rightarrow> fine \<Rightarrow> bool" for order P where
  F_accept: "0 \<le> fd \<Longrightarrow> fd \<notin> set (clients (f_server f)) \<Longrightarrow> f_acts f fd = [] \<Longrightarrow> f_mutex f = None \<Longrightarrow>
    \<forall>r \<in> set rs. P r \<Longrightarrow>
    fine_step order P f (f\<lparr>f_server := accept_client fd (f_server f), f_todo := (f_todo f)(fd := rs)\<rparr>)"
| F_read: "f_acts f s = [] \<Longrightarrow> f_todo f s = r # rs \<Longrightarrow>
    fine_step order P f (f\<lparr>f_acts := (f_acts f)(s := request_acts order s r),
      f_todo := (f_todo f)(s := if last_request r then [] else rs), f_read := f_read f @ [(s, r)]\<rparr>)"
| F_act: "do_act order s f = Some f' \<Longrightarrow> fine_step order P f f'"

definition fine_start :: fine where
  "fine_start = \<lparr>f_server = msg_server_init, f_mutex = None, f_acts = (\<lambda>_. []), f_todo = (\<lambda>_. []), f_read = []\<rparr>"

definition fine_reachable :: "byte_order \<Rightarrow> (request \<Rightarrow> bool) \<Rightarrow> fine \<Rightarrow> fine \<Rightarrow> bool" where
  "fine_reachable order P = (fine_step order P)\<^sup>*\<^sup>*"

text \<open>
  No thread is busy, and only clients that are connected have requests to send, all of them
  such that \<open>P\<close>; whoever is logged in.
\<close>

definition at_rest :: "(request \<Rightarrow> bool) \<Rightarrow> fine \<Rightarrow> bool" where
  "at_rest P f \<longleftrightarrow> f_mutex f = None \<and>
     (\<forall>s. f_acts f s = [] \<and> list_all P (f_todo f s)
       \<and> (f_todo f s \<noteq> [] \<longrightarrow> s \<in> set (clients (f_server f))))"

section \<open>Uninterrupted handlers\<close>

datatype hub_event = Joined int | Asked int request

fun hub_event_step :: "byte_order \<Rightarrow> hub_event \<Rightarrow> msg_server \<Rightarrow> msg_server" where
  "hub_event_step order (Joined fd) st = accept_client fd st"
| "hub_event_step order (Asked s Hangup) st = handleLogoutClient order s st"
| "hub_event_step order (Asked s (Message m)) st = fst (dispatch order m s st)"

definition coarse :: "byte_order \<Rightarrow> hub_event list \<Rightarrow> msg_server \<Rightarrow> msg_server" where
  "coarse order = fold (hub_event_step order)"

definition asked :: "int \<Rightarrow> hub_event list \<Rightarrow> request list" where
  "asked s evs = concat (map (\<lambda>e. case e of Asked t r \<Rightarrow> if t = s then [r] else [] | _ \<Rightarrow> []) evs)"

definition read_by :: "int \<Rightarrow> fine \<Rightarrow> request list" where
  "read_by s f = map snd (filter (\<lambda>e. fst e = s) (f_read f))"

text \<open>The requests that are handled under the mutex.\<close>

fun lockable :: "request \<Rightarrow> bool" where
  "lockable Hangup = True"
| "lockable (Message m) = (event_type_of (fst (split_event m)) \<in> {BROADCAST, ONLINE_USERS, LOGOUT})"

end
