(* ===== verification/Multi_Liveness.thy ===== *)
theory Multi_Liveness
  imports Multi_Threads
begin

text \<open>
  The threads of the message server, whatever requests the clients send: the mutex is held
  by a thread that will give it back, so that no thread waits for ever, and the actions that
  a request can lead to are bounded, so that all that has been received is answered.
\<close>

section \<open>The mutex is given back\<close>

text \<open>
  The actions ahead of a thread take and release the mutex in turn; broadcasting and listing
  release it after what they send. \<open>held\<close> tells whether the thread has it.
\<close>

primrec lock_shape :: "bool \<Rightarrow> server_act list \<Rightarrow> bool" where
  "lock_shape held [] \<longleftrightarrow> \<not> held"
| "lock_shape held (a # as) \<longleftrightarrow>
     (case a of
        A_lock \<Rightarrow> \<not> held \<and> lock_shape True as
      | A_unlock \<Rightarrow> held \<and> lock_shape False as
      | A_broadcast m \<Rightarrow> held \<and> lock_shape False as
      | A_list \<Rightarrow> held \<and> lock_shape False as
      | _ \<Rightarrow> lock_shape held as)"

lemma send_acts_simps [simp]:
  "send_acts [] = []" "send_acts ((c, b) # xs) = A_send c b # send_acts xs"
  "send_acts (xs @ ys) = send_acts xs @ send_acts ys"
  by (simp_all add: send_acts_def)

lemma set_send_acts: "set (send_acts xs) = (\<lambda>(c, b). A_send c b) ` set xs"
  by (simp add: send_acts_def)

lemma lock_shape_sends [simp]: "lock_shape held (send_acts xs @ as) = lock_shape held as"
  by (induction xs) auto

lemma lock_shape_only_sends [simp]: "lock_shape held (send_acts xs) = (\<not> held)"
  using lock_shape_sends [of held xs "[]"] by simp

lemma request_shape: "lock_shape False (request_acts order s r)"
  by (cases r) (auto simp: logout_acts_def leave_acts_def direct_acts_def split: prod.split event_type.split option.split)

lemma effect_shape:
  assumes "act_effect order s a st = (st', nxt)" and "lock_shape held (a # as)"
  shows "lock_shape (if a = A_lock then True else if a = A_unlock then False else held) (nxt @ as)"
  using assms by (cases a) (auto simp: Let_def split: if_splits)

text \<open>
  A thread that has more to receive is connected and is not about to leave. No other
  requests are received than those that clients send.
\<close>

definition fine_ok :: "(request \<Rightarrow> bool) \<Rightarrow> fine \<Rightarrow> bool" where
  "fine_ok P f \<longleftrightarrow>
     (\<forall>s. lock_shape (f_mutex f = Some s) (f_acts f s)) \<and>
     (\<forall>s. f_todo f s \<noteq> [] \<longrightarrow> s \<in> set (clients (f_server f)) \<and> A_erase \<notin> set (f_acts f s)) \<and>
     (\<forall>s. list_all P (f_todo f s))"

lemma fine_okD:
  assumes "fine_ok P f"
  shows "lock_shape (f_mutex f = Some s) (f_acts f s)"
    and "f_todo f s \<noteq> [] \<Longrightarrow> s \<in> set (clients (f_server f)) \<and> A_erase \<notin> set (f_acts f s)"
    and "list_all P (f_todo f s)"
  using assms unfolding fine_ok_def by blast+

lemma at_rest_ok: "at_rest P f \<Longrightarrow> fine_ok P f"
  by (simp add: at_rest_def fine_ok_def)

lemma erase_last:
  assumes "A_erase \<in> set (request_acts order s r)"
  shows "last_request r"
proof (cases r)
  case (Message m)
  obtain event d where "split_event m = (event, d)" by (cases "split_event m")
  then show ?thesis
    using assms Message
    by (cases "event_type_of event") (auto simp: direct_acts_def set_send_acts split: option.splits)
qed simp

lemma effect_no_erase: "act_effect order s a st = (st', nxt) \<Longrightarrow> A_erase \<notin> set nxt"
  by (cases a) (auto simp: Let_def set_send_acts split: if_splits)

lemma effect_clients:
  "act_effect order s a st = (st', nxt) \<Longrightarrow>
    clients st' = (if a = A_erase then removeAll s (clients st) else clients st)"
  by (cases a) (auto simp: Let_def split: if_splits)

lemma do_actE:
  assumes "do_act order s f = Some f'"
  obtains a as st nxt where "f_acts f s = a # as" and "act_effect order s a (f_server f) = (st, nxt)"
    and "a = A_lock \<longrightarrow> f_mutex f = None"
    and "f' = f\<lparr>f_server := st, f_acts := (f_acts f)(s := nxt @ as),
      f_mutex := (if a = A_lock then Some s else if a = A_unlock then None else f_mutex f)\<rparr>"
  using assms by (auto simp: do_act_def split: list.splits if_splits prod.splits)

lemma do_act_ok:
  assumes "fine_ok P f" and "do_act order s f = Some f'"
  shows "fine_ok P f'"
proof -
  note ok = fine_okD [OF assms(1)]
  obtain a as st nxt where a: "f_acts f s = a # as" and e: "act_effect order s a (f_server f) = (st, nxt)"
    and free: "a = A_lock \<longrightarrow> f_mutex f = None"
    and f': "f' = f\<lparr>f_server := st, f_acts := (f_acts f)(s := nxt @ as),
      f_mutex := (if a = A_lock then Some s else if a = A_unlock then None else f_mutex f)\<rparr>"
    by (rule do_actE [OF assms(2)])
  have shape: "lock_shape (f_mutex f = Some s) (a # as)"
    using ok(1) [of s] a by simp
  then have unlock: "a = A_unlock \<longrightarrow> f_mutex f = Some s" by auto
  have "lock_shape (f_mutex f' = Some t) (f_acts f' t)" for t
  proof (cases "t = s")
    case True
    then show ?thesis using effect_shape [OF e shape] f' by (auto split: if_splits)
  next
    case False
    then show ?thesis using ok(1) [of t] f' free unlock by auto
  qed
  moreover have "t \<in> set (clients (f_server f')) \<and> A_erase \<notin> set (f_acts f' t)" if "f_todo f' t \<noteq> []" for t
    using ok(2) [of t] that f' a effect_no_erase [OF e] effect_clients [OF e] by auto
  ultimately show ?thesis
    using ok(3) f' by (simp add: fine_ok_def)
qed

lemma fine_step_ok:
  assumes "fine_step order P f f'" and "fine_ok P f"
  shows "fine_ok P f'"
  using assms(1)
proof cases
  case (F_accept fd rs)
  then show ?thesis
    using assms(2) by (auto simp: fine_ok_def accept_client_def list_all_iff)
next
  case (F_read s r rs)
  have "f_mutex f \<noteq> Some s"
    using fine_okD(1) [OF assms(2), of s] F_read(2) by simp
  then have "lock_shape (f_mutex f = Some s) (request_acts order s r)"
    using request_shape by simp
  moreover have "s \<in> set (clients (f_server f))" and "list_all P rs"
    using fine_okD(2,3) [OF assms(2), of s] F_read(3) by auto
  moreover have "A_erase \<notin> set (request_acts order s r)" if "\<not> last_request r"
    using that erase_last by blast
  ultimately show ?thesis
    using assms(2) F_read(1) by (simp add: fine_ok_def)
next
  case (F_act s)
  then show ?thesis using do_act_ok [OF assms(2)] by blast
qed

lemma fine_reachable_ok:
  assumes "fine_reachable order P f0 f" and "at_rest P f0"
  shows "fine_ok P f"
  using assms(1) unfolding fine_reachable_def
  by (induction rule: rtranclp_induct) (use at_rest_ok [OF assms(2)] fine_step_ok in blast)+

text \<open>When no thread is busy, the server is at rest again.\<close>

lemma quiet_at_rest:
  assumes "fine_ok P f" and "\<forall>s. f_acts f s = []" and "\<forall>s. list_all Q (f_todo f s)"
  shows "at_rest Q f"
proof -
  have "f_mutex f \<noteq> Some s" for s
    using fine_okD(1) [OF assms(1), of s] assms(2) by simp
  then have "f_mutex f = None" by (cases "f_mutex f") auto
  then show ?thesis
    using assms(2,3) fine_okD(2) [OF assms(1)] by (simp add: at_rest_def)
qed

text \<open>While a thread is busy, some thread can go on.\<close>

lemma busy_progress:
  assumes "fine_ok P f" and "f_acts f s \<noteq> []"
  shows "\<exists>t f'. do_act order t f = Some f'"
proof (cases "f_mutex f")
  case None
  obtain a as where "f_acts f s = a # as" using assms(2) by (cases "f_acts f s") auto
  then show ?thesis
    using None by (intro exI [of _ s]) (simp add: do_act_def split_beta)
next
  case (Some t)
  then have h: "lock_shape True (f_acts f t)"
    using fine_okD(1) [OF assms(1), of t] by simp
  then obtain a as where "f_acts f t = a # as"
    by (cases "f_acts f t") auto
  moreover have "a \<noteq> A_lock"
    using h calculation by auto
  ultimately show ?thesis by (intro exI [of _ t]) (simp add: do_act_def split_beta)
qed

section \<open>Requests come to an end\<close>

text \<open>How many actions an action can lead to while \<open>n\<close> clients are connected.\<close>

fun act_cost :: "nat \<Rightarrow> server_act \<Rightarrow> nat" where
  "act_cost n (A_broadcast m) = 2 * n + 4"
| "act_cost n A_list = 4"
| "act_cost n (A_find u m) = 6"
| "act_cost n (A_fetch u m) = 5"
| "act_cost n _ = 1"

definition acts_cost :: "nat \<Rightarrow> server_act list \<Rightarrow> nat" where
  "acts_cost n as = sum_list (map (act_cost n) as)"

definition pending :: "fine \<Rightarrow> nat" where
  "pending f = (\<Sum>s | f_acts f s \<noteq> []. acts_cost (length (clients (f_server f))) (f_acts f s))"

lemma acts_cost_simps [simp]:
  "acts_cost n [] = 0" "acts_cost n (a # as) = act_cost n a + acts_cost n as"
  "acts_cost n (as @ bs) = acts_cost n as + acts_cost n bs" "acts_cost n (send_acts xs) = length xs"
proof -
  show "acts_cost n (send_acts xs) = length xs"
    unfolding acts_cost_def send_acts_def by (induction xs) auto
qed (simp_all add: acts_cost_def)

lemma act_cost_mono: "n \<le> n' \<Longrightarrow> act_cost n a \<le> act_cost n' a"
  by (cases a) simp_all

lemma acts_cost_mono: "n \<le> n' \<Longrightarrow> acts_cost n as \<le> acts_cost n' as"
  by (induction as) (simp_all add: add_mono act_cost_mono)

lemma length_frame_sends [simp]: "length (frame_sends order c m) = 2"
  by (simp add: frame_sends_def)

lemma length_broadcast_sends: "length (broadcast_sends order s m cs) \<le> 2 * length cs"
  by (induction cs) (simp_all add: broadcast_sends_def)

lemma act_effect_cost:
  "act_effect order s a st = (st', nxt) \<Longrightarrow>
    acts_cost (length (clients st')) nxt < act_cost (length (clients st)) a
    \<and> length (clients st') \<le> length (clients st)"
  using length_broadcast_sends [of order s _ "clients st"]
  by (cases a) (auto simp: Let_def less_Suc_eq_le removeAll_filter_not_eq split: if_splits)

lemma finite_busy:
  assumes "fine_reachable order P f0 f" and "at_rest P f0"
  shows "finite {s. f_acts f s \<noteq> []}"
  using assms(1) unfolding fine_reachable_def
proof (induction rule: rtranclp_induct)
  case (step f f')
  have "\<exists>s. {t. f_acts f' t \<noteq> []} \<subseteq> insert s {t. f_acts f t \<noteq> []}"
    using step.hyps(2)
  proof cases
    case (F_act s)
    then show ?thesis
      by (intro exI [of _ s]) (auto simp: do_act_def split: list.splits if_splits prod.splits)
  qed auto
  then show ?case using step.IH by (meson finite.insertI finite_subset)
qed (use assms(2) in \<open>simp add: at_rest_def\<close>)

lemma do_act_pending:
  assumes "do_act order s f = Some f'" and "finite {t. f_acts f t \<noteq> []}"
  shows "pending f' < pending f"
proof -
  let ?n = "length (clients (f_server f))" and ?n' = "length (clients (f_server f'))"
  obtain a as st nxt where a: "f_acts f s = a # as" "act_effect order s a (f_server f) = (st, nxt)"
    and f': "f_server f' = st" "f_acts f' = (f_acts f)(s := nxt @ as)"
    using assms(1) by (auto simp: do_act_def split: list.splits if_splits prod.splits)
  have n: "?n' \<le> ?n" and c: "acts_cost ?n' nxt < act_cost ?n a"
    using act_effect_cost [OF a(2)] f'(1) by simp_all
  have "{t. f_acts f' t \<noteq> []} \<subseteq> {t. f_acts f t \<noteq> []}"
    using a(1) f'(2) by auto
  then have "pending f' \<le> (\<Sum>t | f_acts f t \<noteq> []. acts_cost ?n' (f_acts f' t))"
    unfolding pending_def by (intro sum_mono2) (use assms(2) in auto)
  also have "\<dots> < pending f"
    unfolding pending_def
  proof (rule sum_strict_mono_ex1 [OF assms(2)])
    have less: "acts_cost ?n' (f_acts f' s) < acts_cost ?n (f_acts f s)"
      using add_less_le_mono [OF c acts_cost_mono [OF n, of as]] a(1) f'(2) by simp
    then show "\<forall>t \<in> {t. f_acts f t \<noteq> []}. acts_cost ?n' (f_acts f' t) \<le> acts_cost ?n (f_acts f t)"
      using acts_cost_mono [OF n] f'(2) by (auto simp: less_imp_le)
    show "\<exists>t \<in> {t. f_acts f t \<noteq> []}. acts_cost ?n' (f_acts f' t) < acts_cost ?n (f_acts f t)"
      using less a(1) by (intro bexI [of _ s]) simp_all
  qed
  finally show ?thesis .
qed

definition some_act :: "byte_order \<Rightarrow> fine \<Rightarrow> fine \<Rightarrow> bool" where
  "some_act order f f' \<longleftrightarrow> (\<exists>s. do_act order s f = Some f')"

lemma some_act_reachable:
  "fine_reachable order P f0 f \<Longrightarrow> some_act order f f' \<Longrightarrow> fine_reachable order P f0 f'"
  unfolding fine_reachable_def some_act_def by (metis F_act rtranclp.rtrancl_into_rtrancl)

lemma requests_end:
  assumes "fine_reachable order P f0 f" and "at_rest P f0"
  shows "\<exists>f'. (some_act order)\<^sup>*\<^sup>* f f' \<and> (\<forall>s. f_acts f' s = [])"
  using assms(1)
proof (induction "pending f" arbitrary: f rule: less_induct)
  case less
  show ?case
  proof (cases "\<forall>s. f_acts f s = []")
    case False
    then obtain t f1 where f1: "do_act order t f = Some f1"
      using busy_progress [OF fine_reachable_ok [OF less.prems assms(2)]] by blast
    then have s: "some_act order f f1" unfolding some_act_def by blast
    from less.hyps [OF do_act_pending [OF f1 finite_busy [OF less.prems assms(2)]] some_act_reachable [OF less.prems s]]
    show ?thesis using s by (meson converse_rtranclp_into_rtranclp)
  qed blast
qed

end
