(* ===== verification/Multi_Atomic.thy ===== *)
theory Multi_Atomic
  imports Multi_Liveness
begin

text \<open>
  The requests that are handled under the mutex are atomic: every state that the threads
  reach from one at rest is one that uninterrupted handlers reach, up to the sends that threads have
  still to do.
\<close>

section \<open>Where a thread is\<close>

datatype phase =
    Idle
  | Waiting request
  | Locked request
  | Sending "(int \<times> string) list"
  | Left_locked
  | Leaving nat

primrec acts_of :: "byte_order \<Rightarrow> int \<Rightarrow> phase \<Rightarrow> server_act list" where
  "acts_of order s Idle = []"
| "acts_of order s (Waiting r) = request_acts order s r"
| "acts_of order s (Locked r) = tl (request_acts order s r)"
| "acts_of order s (Sending xs) = send_acts xs @ [A_unlock]"
| "acts_of order s Left_locked = A_unlock # leave_acts order s"
| "acts_of order s (Leaving k) = drop k (leave_acts order s)"

primrec holds :: "phase \<Rightarrow> bool" where
  "holds Idle = False"
| "holds (Waiting r) = False"
| "holds (Locked r) = True"
| "holds (Sending xs) = True"
| "holds Left_locked = True"
| "holds (Leaving k) = False"

text \<open>What a thread in this phase has still to send to \<open>c\<close> for a request that has had its effect.\<close>

definition sends_to :: "int \<Rightarrow> (int \<times> string) list \<Rightarrow> string" where
  "sends_to c xs = concat (map snd (filter (\<lambda>e. fst e = c) xs))"

primrec owed :: "byte_order \<Rightarrow> int \<Rightarrow> int \<Rightarrow> phase \<Rightarrow> string" where
  "owed order c s Idle = []"
| "owed order c s (Waiting r) = []"
| "owed order c s (Locked r) = []"
| "owed order c s (Sending xs) = sends_to c xs"
| "owed order c s Left_locked = sends_to c (frame_sends order s ''Logout successful.'')"
| "owed order c s (Leaving k) = sends_to c (drop k (frame_sends order s ''Logout successful.''))"

text \<open>
  A connected socket is only sent to by the thread that holds the mutex, one that has left only
  by its own.
\<close>

definition owed_to ::
  "byte_order \<Rightarrow> (int \<Rightarrow> phase) \<Rightarrow> int \<Rightarrow> int list \<Rightarrow> int option \<Rightarrow> string" where
  "owed_to order ph c cs mutex =
     (if c \<in> set cs
      then (case mutex of None \<Rightarrow> [] | Some t \<Rightarrow> owed order c t (ph t))
      else owed order c c (ph c))"

primrec undone :: "phase \<Rightarrow> request list" where
  "undone Idle = []"
| "undone (Waiting r) = [r]"
| "undone (Locked r) = [r]"
| "undone (Sending xs) = []"
| "undone Left_locked = []"
| "undone (Leaving k) = []"

primrec placed :: "int set \<Rightarrow> int \<Rightarrow> request list \<Rightarrow> phase \<Rightarrow> bool" where
  "placed C s todo Idle \<longleftrightarrow> (todo \<noteq> [] \<longrightarrow> s \<in> C)"
| "placed C s todo (Waiting r) \<longleftrightarrow> s \<in> C \<and> lockable r \<and> (last_request r \<longrightarrow> todo = [])"
| "placed C s todo (Locked r) \<longleftrightarrow> s \<in> C \<and> lockable r \<and> (last_request r \<longrightarrow> todo = [])"
| "placed C s todo (Sending xs) \<longleftrightarrow> s \<in> C \<and> fst ` set xs \<subseteq> C"
| "placed C s todo Left_locked \<longleftrightarrow> s \<notin> C \<and> todo = []"
| "placed C s todo (Leaving k) \<longleftrightarrow> s \<notin> C \<and> todo = [] \<and> k < 3"

definition fine_inv ::
  "byte_order \<Rightarrow> fine \<Rightarrow> fine \<Rightarrow> (int \<Rightarrow> phase) \<Rightarrow> hub_event list \<Rightarrow> bool" where
  "fine_inv order f0 f ph evs \<longleftrightarrow>
     (\<forall>s. f_acts f s = acts_of order s (ph s)) \<and>
     (\<forall>s. f_mutex f = Some s \<longleftrightarrow> holds (ph s)) \<and>
     (\<forall>s. placed (set (clients (f_server f))) s (f_todo f s) (ph s)) \<and>
     (\<forall>s. \<forall>r \<in> set (f_todo f s). lockable r) \<and>
     clients (f_server f) = clients (coarse order evs (f_server f0)) \<and>
     client_mapp (f_server f) = client_mapp (coarse order evs (f_server f0)) \<and>
     (\<forall>c. bytes_to c (f_server f) @ owed_to order ph c (clients (f_server f)) (f_mutex f) = bytes_to c (coarse order evs (f_server f0))) \<and>
     (\<forall>s. read_by s f = read_by s f0 @ asked s evs @ undone (ph s))"

lemma fine_invD:
  assumes "fine_inv order f0 f ph evs"
  shows "f_acts f s = acts_of order s (ph s)" and "f_mutex f = Some s \<longleftrightarrow> holds (ph s)"
    and "placed (set (clients (f_server f))) s (f_todo f s) (ph s)"
    and "r \<in> set (f_todo f s) \<Longrightarrow> lockable r"
    and "clients (f_server f) = clients (coarse order evs (f_server f0))"
    and "client_mapp (f_server f) = client_mapp (coarse order evs (f_server f0))"
    and "bytes_to c (f_server f) @ owed_to order ph c (clients (f_server f)) (f_mutex f) = bytes_to c (coarse order evs (f_server f0))"
    and "read_by s f = read_by s f0 @ asked s evs @ undone (ph s)"
  using assms unfolding fine_inv_def by blast+

lemma fine_invI:
  assumes "\<And>s. f_acts f s = acts_of order s (ph s)" and "\<And>s. f_mutex f = Some s \<longleftrightarrow> holds (ph s)"
    and "\<And>s. placed (set (clients (f_server f))) s (f_todo f s) (ph s)"
    and "\<And>s r. r \<in> set (f_todo f s) \<Longrightarrow> lockable r"
    and "clients (f_server f) = clients (coarse order evs (f_server f0))"
    and "client_mapp (f_server f) = client_mapp (coarse order evs (f_server f0))"
    and "\<And>c. bytes_to c (f_server f) @ owed_to order ph c (clients (f_server f)) (f_mutex f) = bytes_to c (coarse order evs (f_server f0))"
    and "\<And>s. read_by s f = read_by s f0 @ asked s evs @ undone (ph s)"
  shows "fine_inv order f0 f ph evs"
  using assms unfolding fine_inv_def by blast

lemma sends_to_simps [simp]:
  "sends_to c [] = []" "sends_to c ((d, b) # xs) = (if d = c then b else []) @ sends_to c xs"
  "sends_to c (xs @ ys) = sends_to c xs @ sends_to c ys"
  by (simp_all add: sends_to_def)

lemma sends_to_frame [simp]: "sends_to c (frame_sends order d m) = (if d = c then frame_of order m else [])"
  by (simp add: frame_sends_def frame_of_def)

lemma sends_to_none: "c \<notin> fst ` set xs \<Longrightarrow> sends_to c xs = []"
  by (induction xs) auto

lemma coarse_snoc: "coarse order (evs @ [e]) st = hub_event_step order e (coarse order evs st)"
  by (simp add: coarse_def)

lemma asked_snoc [simp]:
  "asked s (evs @ [Joined fd]) = asked s evs"
  "asked s (evs @ [Asked t r]) = asked s evs @ (if t = s then [r] else [])"
  by (simp_all add: asked_def)

lemma leave_acts_split:
  "leave_acts order s =
     [A_send s (frame_head order ''Logout successful.''), A_send s ''Logout successful.'', A_close]"
  by (simp add: leave_acts_def frame_sends_def)

lemma acts_of_Nil: "placed C s todo p \<Longrightarrow> acts_of order s p = [] \<Longrightarrow> p = Idle"
proof (cases p)
  case (Waiting r)
  assume "placed C s todo p" "acts_of order s p = []"
  with Waiting show ?thesis
    by (cases r) (auto simp: logout_acts_def split_beta split: event_type.splits)
next
  case (Locked r)
  assume "placed C s todo p" "acts_of order s p = []"
  with Locked show ?thesis
    by (cases r) (auto simp: logout_acts_def split_beta split: event_type.splits)
qed (auto simp: leave_acts_split)

text \<open>A change of phase of one thread.\<close>

lemma owed_to_upd:
  "owed_to order (ph(s := p)) c cs mutex =
     (if c \<in> set cs
      then (case mutex of None \<Rightarrow> [] | Some t \<Rightarrow> if t = s then owed order c s p else owed order c t (ph t))
      else if c = s then owed order c c p else owed order c c (ph c))"
  by (auto simp: owed_to_def split: option.split)

lemma owed_to_same:
  assumes "owed order s s p = owed order s s (ph s)" and "mutex = Some s \<Longrightarrow> owed order c s p = owed order c s (ph s)"
  shows "owed_to order (ph(s := p)) c cs mutex = owed_to order ph c cs mutex"
  using assms by (auto simp: owed_to_def split: option.split)

section \<open>Steps\<close>

lemma at_rest_inv: "at_rest lockable f0 \<Longrightarrow> fine_inv order f0 f0 (\<lambda>_. Idle) []"
  by (auto simp: fine_inv_def at_rest_def list_all_iff coarse_def owed_to_def asked_def)

lemma accept_inv:
  assumes "fine_inv order f0 f ph evs" and "0 \<le> fd" and "fd \<notin> set (clients (f_server f))" and "f_acts f fd = []"
    and "f_mutex f = None" and "\<forall>r \<in> set rs. lockable r"
  shows "fine_inv order f0 (f\<lparr>f_server := accept_client fd (f_server f), f_todo := (f_todo f)(fd := rs)\<rparr>)
    ph (evs @ [Joined fd])"
proof -
  note inv = fine_invD [OF assms(1)]
  have idle: "ph fd = Idle"
    using acts_of_Nil [OF inv(3)] inv(1) [of fd] assms(4) by metis
  have "s \<in> set (clients (f_server f)) \<or> ph s \<in> {Idle, Left_locked} \<union> range Leaving" for s
    using inv(3) [of s] by (cases "ph s") auto
  have pl: "placed (insert fd (set (clients (f_server f)))) s (if s = fd then rs else f_todo f s) (ph s)" for s
    using inv(3) [of s] idle by (cases "ph s") auto
  show ?thesis
  proof (rule fine_invI, goal_cases)
    case (3 s)
    then show ?case using pl [of s] assms(2) by (simp add: accept_client_def)
  next
    case (7 c)
    then show ?case
      using inv(7) [of c] idle assms(2,3,5)
      by (auto simp: accept_client_def owed_to_def coarse_snoc bytes_to_def split: if_splits)
  qed (use inv assms(2,6) in \<open>auto simp: accept_client_def coarse_snoc read_by_def split: if_splits\<close>)
qed

lemma read_inv:
  assumes "fine_inv order f0 f ph evs" and "f_acts f s = []" and "f_todo f s = r # rs"
  shows "fine_inv order f0 (f\<lparr>f_acts := (f_acts f)(s := request_acts order s r),
      f_todo := (f_todo f)(s := if last_request r then [] else rs), f_read := f_read f @ [(s, r)]\<rparr>)
    (ph(s := Waiting r)) evs"
proof -
  note inv = fine_invD [OF assms(1)]
  have idle: "ph s = Idle"
    using acts_of_Nil [OF inv(3)] inv(1) [of s] assms(2) by metis
  have s: "s \<in> set (clients (f_server f))"
    using inv(3) [of s] idle assms(3) by simp
  have r: "lockable r" "\<forall>x \<in> set rs. lockable x"
    using inv(4) [of _ s] assms(3) by auto
  have m: "f_mutex f \<noteq> Some s"
    using inv(2) [of s] idle by simp
  show ?thesis
  proof (rule fine_invI, goal_cases)
    case (7 c)
    have "owed_to order (ph(s := Waiting r)) c (clients (f_server f)) (f_mutex f)
        = owed_to order ph c (clients (f_server f)) (f_mutex f)"
      using idle m by (intro owed_to_same) simp_all
    then show ?case
      using inv(7) [of c] by simp
  next
    case (8 t)
    then show ?case
      using inv(8) [of t] idle by (simp add: read_by_def)
  qed (use inv idle s r in \<open>auto simp: split: if_splits\<close>)
qed

lemma bytes_to_sent [simp]:
  "bytes_to c (st\<lparr>sends := sends st @ [(d, b)]\<rparr>) = bytes_to c st @ (if d = c then b else [])"
  by (simp add: bytes_to_def)

lemma bytes_to_broadcast_sends:
  "bytes_to c (send_to_others order m s cs st) = bytes_to c st @ sends_to c (broadcast_sends order s m cs)"
  by (induction cs arbitrary: st) (simp_all add: broadcast_sends_def)

lemma broadcast_sends_subset: "fst ` set (broadcast_sends order s m cs) \<subseteq> set cs"
  by (auto simp: broadcast_sends_def frame_sends_def split: if_splits)

lemma lockable_cases:
  assumes "lockable r"
  obtains
    (Broadcasts) d where "request_acts order s r = [A_lock, A_broadcast d]" "\<not> last_request r"
      "\<And>st. hub_event_step order (Asked s r) st = broadcastMessage order d s st"
  | (Lists) "request_acts order s r = [A_lock, A_list]" "\<not> last_request r"
      "\<And>st. hub_event_step order (Asked s r) st = handleOnlineUsers order s st"
  | (Leaves) "request_acts order s r = logout_acts order s" "last_request r"
      "\<And>st. hub_event_step order (Asked s r) st = handleLogoutClient order s st"
proof (cases r)
  case (Message m)
  obtain event d where "split_event m = (event, d)" by (cases "split_event m")
  then show ?thesis
    using assms that Message by (cases "event_type_of event") (auto simp: dispatch_def)
next
  case Hangup
  then show ?thesis using that(3) by simp
qed

text \<open>The thread \<open>s\<close> does its next action.\<close>

lemma lock_inv_step:
  assumes "fine_inv order f0 f ph evs" and "ph s = Waiting r" and "do_act order s f = Some f'"
  shows "fine_inv order f0 f' (ph(s := Locked r)) evs"
proof -
  note inv = fine_invD [OF assms(1)]
  have pl: "s \<in> set (clients (f_server f))" "lockable r" "last_request r \<longrightarrow> f_todo f s = []"
    using inv(3) [of s] assms(2) by simp_all
  obtain as where a: "request_acts order s r = A_lock # as"
    using pl(2) by (cases rule: lockable_cases [of r order s]) (auto simp: logout_acts_def)
  have f': "f_mutex f = None" "f' = f\<lparr>f_acts := (f_acts f)(s := as), f_mutex := Some s\<rparr>"
    using assms(3) inv(1) [of s] a assms(2) by (auto simp: do_act_def split: if_splits)
  have free: "\<not> holds (ph t)" for t
    using inv(2) [of t] f'(1) by simp
  show ?thesis
    unfolding f'(2)
  proof (rule fine_invI, goal_cases)
    case (7 c)
    then show ?case
      using inv(7) [of c] f'(1) pl(1) by (auto simp: owed_to_def)
  next
    case (8 t)
    then show ?case using inv(8) [of t] assms(2) by (simp add: read_by_def)
  qed (use inv pl a free in \<open>auto simp: split: if_splits\<close>)
qed

lemma effect_inv_step:
  assumes "fine_inv order f0 f ph evs" and "ph s = Locked r" and "do_act order s f = Some f'"
  shows "\<exists>p. fine_inv order f0 f' (ph(s := p)) (evs @ [Asked s r])"
proof -
  note inv = fine_invD [OF assms(1)]
  have pl: "s \<in> set (clients (f_server f))" "lockable r" "last_request r \<longrightarrow> f_todo f s = []"
    using inv(3) [of s] assms(2) by simp_all
  have m: "f_mutex f = Some s"
    using inv(2) [of s] assms(2) by simp
  have other: "\<not> holds (ph t)" if "t \<noteq> s" for t
    using inv(2) [of t] m that by auto
  have acts: "f_acts f s = tl (request_acts order s r)"
    using inv(1) [of s] assms(2) by simp
  show ?thesis
    using pl(2)
  proof (cases rule: lockable_cases [of r order s])
    case (Broadcasts d)
    let ?xs = "broadcast_sends order s d (clients (f_server f)) @ frame_sends order s ''Broadcast sent successfully.''"
    have f': "f' = f\<lparr>f_acts := (f_acts f)(s := send_acts ?xs @ [A_unlock])\<rparr>"
      using assms(3) acts Broadcasts(1) by (auto simp: do_act_def)
    have cl: "fst ` set ?xs \<subseteq> set (clients (f_server f))"
      using broadcast_sends_subset pl(1) by (auto simp: frame_sends_def image_Un)
    have none: "sends_to c (broadcast_sends order s d (clients (f_server f))) = []" if "c \<notin> set (clients (f_server f))" for c
      using that broadcast_sends_subset by (intro sends_to_none) blast
    have bytes: "bytes_to c (broadcastMessage order d s (coarse order evs (f_server f0))) = bytes_to c (coarse order evs (f_server f0)) @ sends_to c ?xs" for c
      by (simp add: broadcastMessage_def bytes_to_broadcast_sends inv(5))
    show ?thesis
      unfolding f'
    proof (rule exI [of _ "Sending ?xs"], rule fine_invI, goal_cases)
      case (7 c)
      then show ?case
        using inv(7) [of c] m pl(1) none [of c] assms(2)
        by (auto simp: owed_to_def coarse_snoc Broadcasts(3) bytes)
    next
      case (8 t)
      then show ?case using inv(8) [of t] assms(2) by (cases "t = s") (simp_all add: read_by_def)
    qed (use inv pl cl m other in \<open>auto simp: coarse_snoc Broadcasts(3) broadcastMessage_def split: if_splits\<close>)
  next
    case Lists
    let ?xs = "frame_sends order s (online_users (client_mapp (f_server f)) (''Online Users:'' @ [NL]))"
    have f': "f' = f\<lparr>f_acts := (f_acts f)(s := send_acts ?xs @ [A_unlock])\<rparr>"
      using assms(3) acts Lists(1) by (auto simp: do_act_def)
    show ?thesis
      unfolding f'
    proof (rule exI [of _ "Sending ?xs"], rule fine_invI, goal_cases)
      case (7 c)
      then show ?case
        using inv(7) [of c] m pl(1) assms(2)
        by (auto simp: owed_to_def coarse_snoc Lists(3) handleOnlineUsers_def inv(6))
    next
      case (8 t)
      then show ?case using inv(8) [of t] assms(2) by (cases "t = s") (simp_all add: read_by_def)
    qed (use inv pl m other in \<open>auto simp: coarse_snoc Lists(3) handleOnlineUsers_def frame_sends_def split: if_splits\<close>)
  next
    case Leaves
    let ?st = "f_server f\<lparr>client_mapp := erase_names s (client_mapp (f_server f)), clients := removeAll s (clients (f_server f))\<rparr>"
    have f': "f' = f\<lparr>f_server := ?st, f_acts := (f_acts f)(s := A_unlock # leave_acts order s)\<rparr>"
      using assms(3) acts Leaves(1) by (auto simp: do_act_def logout_acts_def)
    have bytes: "bytes_to c (handleLogoutClient order s st)
        = bytes_to c st @ (if c = s then frame_of order ''Logout successful.'' else [])" for c st
      by (simp add: handleLogoutClient_def Let_def)
    have pl': "placed (set (clients (f_server f)) - {s}) t (f_todo f t) (ph t)" if "t \<noteq> s" for t
      using inv(3) [of t] other [OF that] that by (cases "ph t") auto
    show ?thesis
      unfolding f'
    proof (rule exI [of _ Left_locked], rule fine_invI, goal_cases)
      case (3 t)
      then show ?case using pl' pl(3) Leaves(2) by auto
    next
      case (7 c)
      then show ?case
        using inv(7) [of c] m pl(1) assms(2)
        by (auto simp: owed_to_def coarse_snoc Leaves(3) bytes)
    next
      case (8 t)
      then show ?case using inv(8) [of t] assms(2) by (cases "t = s") (simp_all add: read_by_def)
    qed (use inv m other in \<open>auto simp: coarse_snoc Leaves(3) handleLogoutClient_def Let_def split: if_splits\<close>)
  qed
qed

lemma send_inv_step:
  assumes "fine_inv order f0 f ph evs" and "ph s = Sending xs" and "do_act order s f = Some f'"
  shows "\<exists>p. fine_inv order f0 f' (ph(s := p)) evs"
proof -
  note inv = fine_invD [OF assms(1)]
  have pl: "s \<in> set (clients (f_server f))" "fst ` set xs \<subseteq> set (clients (f_server f))"
    using inv(3) [of s] assms(2) by simp_all
  have m: "f_mutex f = Some s"
    using inv(2) [of s] assms(2) by simp
  have other: "\<not> holds (ph t)" if "t \<noteq> s" for t
    using inv(2) [of t] m that by auto
  have acts: "f_acts f s = send_acts xs @ [A_unlock]"
    using inv(1) [of s] assms(2) by simp
  show ?thesis
  proof (cases xs)
    case Nil
    then have f': "f' = f\<lparr>f_acts := (f_acts f)(s := []), f_mutex := None\<rparr>"
      using assms(3) acts by (auto simp: do_act_def)
    show ?thesis
      unfolding f'
    proof (rule exI [of _ Idle], rule fine_invI, goal_cases)
      case (7 c)
      then show ?case using inv(7) [of c] m pl(1) assms(2) Nil by (auto simp: owed_to_def split: if_splits)
    next
      case (8 t)
      then show ?case using inv(8) [of t] assms(2) by (cases "t = s") (simp_all add: read_by_def)
    qed (use inv pl other in \<open>auto split: if_splits\<close>)
  next
    case (Cons x ys)
    obtain d b where x: "x = (d, b)" by (cases x)
    have f': "f' = f\<lparr>f_server := f_server f\<lparr>sends := sends (f_server f) @ [(d, b)]\<rparr>,
        f_acts := (f_acts f)(s := send_acts ys @ [A_unlock])\<rparr>"
      using assms(3) acts Cons x by (auto simp: do_act_def)
    show ?thesis
      unfolding f'
    proof (rule exI [of _ "Sending ys"], rule fine_invI, goal_cases)
      case (7 c)
      then show ?case
        using inv(7) [of c] m pl assms(2) Cons x by (auto simp: owed_to_def split: if_splits)
    next
      case (8 t)
      then show ?case using inv(8) [of t] assms(2) by (cases "t = s") (simp_all add: read_by_def)
    qed (use inv pl m other Cons x in \<open>auto split: if_splits\<close>)
  qed
qed

lemma leave_inv_step:
  assumes "fine_inv order f0 f ph evs" and "ph s = Left_locked \<or> (\<exists>k. ph s = Leaving k)"
    and "do_act order s f = Some f'"
  shows "\<exists>p. fine_inv order f0 f' (ph(s := p)) evs"
proof -
  note inv = fine_invD [OF assms(1)]
  have pl: "s \<notin> set (clients (f_server f))" "f_todo f s = []"
    using inv(3) [of s] assms(2) by auto
  consider "ph s = Left_locked" | "ph s = Leaving 0" | "ph s = Leaving 1" | "ph s = Leaving 2"
    using assms(2) inv(3) [of s] by (auto simp: less_Suc_eq numeral_3_eq_3 numeral_2_eq_2)
  then show ?thesis
  proof cases
    case 1
    have m: "f_mutex f = Some s"
      using inv(2) [of s] 1 by simp
    have other: "\<not> holds (ph t)" if "t \<noteq> s" for t
      using inv(2) [of t] m that by auto
    have f': "f' = f\<lparr>f_acts := (f_acts f)(s := leave_acts order s), f_mutex := None\<rparr>"
      using assms(3) inv(1) [of s] 1 by (auto simp: do_act_def)
    show ?thesis
      unfolding f'
    proof (rule exI [of _ "Leaving 0"], rule fine_invI, goal_cases)
      case (7 c)
      then show ?case using inv(7) [of c] m pl(1) 1 by (auto simp: owed_to_def split: if_splits)
    next
      case (8 t)
      then show ?case using inv(8) [of t] 1 by (cases "t = s") (simp_all add: read_by_def)
    qed (use inv pl other in \<open>auto split: if_splits\<close>)
  next
    case 2
    have m: "f_mutex f \<noteq> Some s"
      using inv(2) [of s] 2 by simp
    have f': "f' = f\<lparr>f_server := f_server f\<lparr>sends := sends (f_server f) @ [(s, frame_head order ''Logout successful.'')]\<rparr>,
        f_acts := (f_acts f)(s := drop 1 (leave_acts order s))\<rparr>"
      using assms(3) inv(1) [of s] 2 by (auto simp: do_act_def leave_acts_split)
    show ?thesis
      unfolding f'
    proof (rule exI [of _ "Leaving 1"], rule fine_invI, goal_cases)
      case (7 c)
      then show ?case
        using inv(7) [of c] m pl(1) 2 by (auto simp: owed_to_def frame_sends_def split: if_splits option.splits)
    next
      case (8 t)
      then show ?case using inv(8) [of t] 2 by (cases "t = s") (simp_all add: read_by_def)
    qed (use inv pl m in \<open>auto split: if_splits\<close>)
  next
    case 3
    have m: "f_mutex f \<noteq> Some s"
      using inv(2) [of s] 3 by simp
    have f': "f' = f\<lparr>f_server := f_server f\<lparr>sends := sends (f_server f) @ [(s, ''Logout successful.'')]\<rparr>,
        f_acts := (f_acts f)(s := drop 2 (leave_acts order s))\<rparr>"
      using assms(3) inv(1) [of s] 3 by (auto simp: do_act_def leave_acts_split)
    show ?thesis
      unfolding f'
    proof (rule exI [of _ "Leaving 2"], rule fine_invI, goal_cases)
      case (7 c)
      then show ?case
        using inv(7) [of c] m pl(1) 3 by (auto simp: owed_to_def frame_sends_def split: if_splits option.splits)
    next
      case (8 t)
      then show ?case using inv(8) [of t] 3 by (cases "t = s") (simp_all add: read_by_def)
    qed (use inv pl m in \<open>auto split: if_splits\<close>)
  next
    case 4
    have m: "f_mutex f \<noteq> Some s"
      using inv(2) [of s] 4 by simp
    have f': "f' = f\<lparr>f_server := f_server f\<lparr>closes := closes (f_server f) @ [s]\<rparr>, f_acts := (f_acts f)(s := [])\<rparr>"
      using assms(3) inv(1) [of s] 4 by (auto simp: do_act_def leave_acts_split)
    show ?thesis
      unfolding f'
    proof (rule exI [of _ Idle], rule fine_invI, goal_cases)
      case (7 c)
      then show ?case
        using inv(7) [of c] m pl(1) 4 by (auto simp: owed_to_def frame_sends_def split: if_splits option.splits)
    next
      case (8 t)
      then show ?case using inv(8) [of t] 4 by (cases "t = s") (simp_all add: read_by_def)
    qed (use inv pl m in \<open>auto split: if_splits\<close>)
  qed
qed

lemma fine_inv_step:
  assumes "fine_step order lockable f f'" and "fine_inv order f0 f ph evs"
  shows "\<exists>ph' evs'. fine_inv order f0 f' ph' evs'"
  using assms(1)
proof cases
  case (F_accept fd rs)
  then show ?thesis using accept_inv [OF assms(2)] by blast
next
  case (F_read s r rs)
  then show ?thesis using read_inv [OF assms(2)] by blast
next
  case (F_act s)
  show ?thesis
  proof (cases "ph s")
    case Idle
    then show ?thesis using F_act fine_invD(1) [OF assms(2), of s] by (simp add: do_act_def)
  next
    case (Waiting r)
    then show ?thesis using lock_inv_step [OF assms(2) _ F_act] by blast
  next
    case (Locked r)
    then show ?thesis using effect_inv_step [OF assms(2) _ F_act] by blast
  next
    case (Sending xs)
    then show ?thesis using send_inv_step [OF assms(2) _ F_act] by blast
  next
    case Left_locked
    then show ?thesis using leave_inv_step [OF assms(2) _ F_act] by blast
  next
    case (Leaving k)
    then show ?thesis using leave_inv_step [OF assms(2) _ F_act] by blast
  qed
qed

lemma fine_reachable_inv:
  assumes "fine_reachable order lockable f0 f" and "at_rest lockable f0"
  shows "\<exists>ph evs. fine_inv order f0 f ph evs"
  using assms(1) unfolding fine_reachable_def
proof (induction rule: rtranclp_induct)
  case base
  show ?case using at_rest_inv [OF assms(2)] by blast
next
  case (step f f')
  then show ?case using fine_inv_step by blast
qed

end
