(* ===== verification/Multi_Schedules.thy ===== *)
theory Multi_Schedules
  imports Multi_Liveness
begin

text \<open>
  Runs of the message server's threads that are chosen by hand; a thread that runs alone has
  the effect of the uninterrupted handler of \<open>Multi_Server\<close>, so that it moves the directory
  of \<open>Multi_Directory\<close>; and the invariant that holds however the threads are interleaved.
\<close>

section \<open>Chosen schedules\<close>

datatype choice = Arrive int "request list" | Receive int | Act int

fun pick :: "byte_order \<Rightarrow> choice \<Rightarrow> fine \<Rightarrow> fine option" where
  "pick order (Arrive fd rs) f =
     (if 0 \<le> fd \<and> fd \<notin> set (clients (f_server f)) \<and> f_acts f fd = [] \<and> f_mutex f = None
      then Some (f\<lparr>f_server := accept_client fd (f_server f), f_todo := (f_todo f)(fd := rs)\<rparr>) else None)"
| "pick order (Receive s) f =
     (case f_todo f s of
        [] \<Rightarrow> None
      | r # rs \<Rightarrow>
          if f_acts f s = []
          then Some (f\<lparr>f_acts := (f_acts f)(s := request_acts order s r),
            f_todo := (f_todo f)(s := if last_request r then [] else rs), f_read := f_read f @ [(s, r)]\<rparr>)
          else None)"
| "pick order (Act s) f = do_act order s f"

fun schedule :: "byte_order \<Rightarrow> choice list \<Rightarrow> fine \<Rightarrow> fine option" where
  "schedule order [] f = Some f"
| "schedule order (c # cs) f = (case pick order c f of None \<Rightarrow> None | Some f' \<Rightarrow> schedule order cs f')"

text \<open>The requests of the clients that arrive.\<close>

fun sends_only :: "(request \<Rightarrow> bool) \<Rightarrow> choice \<Rightarrow> bool" where
  "sends_only P (Arrive fd rs) = list_all P rs"
| "sends_only P _ = True"

lemma pick_step:
  assumes "pick order c f = Some f'" and "sends_only P c"
  shows "fine_step order P f f'"
proof (cases c)
  case (Receive s)
  then obtain r rs where r: "f_acts f s = []" "f_todo f s = r # rs"
    using assms by (auto split: if_splits list.splits)
  then have "f' = f\<lparr>f_acts := (f_acts f)(s := request_acts order s r),
      f_todo := (f_todo f)(s := if last_request r then [] else rs), f_read := f_read f @ [(s, r)]\<rparr>"
    using assms Receive by simp
  then show ?thesis using fine_step.F_read [OF r] by metis
qed (use assms in \<open>auto simp: list_all_iff intro: fine_step.intros split: if_splits\<close>)

lemma schedule_reaches:
  "schedule order cs f = Some f' \<Longrightarrow> list_all (sends_only P) cs \<Longrightarrow> fine_reachable order P f0 f \<Longrightarrow>
    fine_reachable order P f0 f'"
proof (induction cs arbitrary: f)
  case (Cons c cs)
  obtain f1 where f1: "pick order c f = Some f1" "schedule order cs f1 = Some f'"
    using Cons.prems(1) by (auto split: option.splits)
  have "fine_step order P f f1"
    using pick_step [OF f1(1)] Cons.prems(2) by simp
  with Cons.prems(3) have "fine_reachable order P f0 f1"
    unfolding fine_reachable_def by (rule rtranclp.rtrancl_into_rtrancl)
  then show ?case using Cons.IH [OF f1(2)] Cons.prems(2) by simp
qed simp

lemma start_reachable: "fine_reachable order P f0 f0"
  by (simp add: fine_reachable_def)

section \<open>A thread that runs alone\<close>

lemma schedule_append:
  "schedule order (xs @ ys) f = (case schedule order xs f of None \<Rightarrow> None | Some f' \<Rightarrow> schedule order ys f')"
  by (induction xs arbitrary: f) (simp_all split: option.split)

text \<open>The actions of \<open>s\<close> up to their end, the last ones sends, without the mutex.\<close>

definition alone :: "byte_order \<Rightarrow> int \<Rightarrow> fine \<Rightarrow> fine \<Rightarrow> bool" where
  "alone order s f f' \<longleftrightarrow> (\<exists>n. schedule order (replicate n (Act s)) f = Some f')"

lemma alone_refl: "alone order s f f"
  unfolding alone_def by (rule exI [of _ 0]) simp

lemma alone_act:
  assumes "do_act order s f = Some f1" and "alone order s f1 f'"
  shows "alone order s f f'"
proof -
  obtain n where "schedule order (replicate n (Act s)) f1 = Some f'"
    using assms(2) unfolding alone_def by blast
  then show ?thesis
    unfolding alone_def using assms(1) by (intro exI [of _ "Suc n"]) simp
qed

text \<open>A thread with the actions \<open>as\<close> ahead, on the globals \<open>st\<close> and with the mutex \<open>m\<close>.\<close>

definition with_acts :: "fine \<Rightarrow> int \<Rightarrow> server_act list \<Rightarrow> msg_server \<Rightarrow> int option \<Rightarrow> fine" where
  "with_acts f s as st m = f\<lparr>f_server := st, f_acts := (f_acts f)(s := as), f_mutex := m\<rparr>"

lemma alone_first:
  assumes "a = A_lock \<longrightarrow> m = None" and "act_effect order s a st = (st', nxt)"
    and "alone order s (with_acts f s (nxt @ as) st' (if a = A_lock then Some s else if a = A_unlock then None else m)) f'"
  shows "alone order s (with_acts f s (a # as) st m) f'"
proof (rule alone_act [OF _ assms(3)])
  show "do_act order s (with_acts f s (a # as) st m) = Some (with_acts f s (nxt @ as) st'
      (if a = A_lock then Some s else if a = A_unlock then None else m))"
    using assms(1,2) by (simp add: do_act_def with_acts_def)
qed

lemma alone_sends:
  "alone order s (with_acts f s as (st\<lparr>sends := sends st @ xs\<rparr>) m) f' \<Longrightarrow>
    alone order s (with_acts f s (send_acts xs @ as) st m) f'"
proof (induction xs arbitrary: st)
  case (Cons x xs)
  obtain c b where x: "x = (c, b)" by (cases x)
  have "alone order s (with_acts f s (send_acts xs @ as) (st\<lparr>sends := sends st @ [(c, b)]\<rparr>) m) f'"
    using Cons.prems by (intro Cons.IH) (simp add: x)
  then have "alone order s (with_acts f s (A_send c b # send_acts xs @ as) st m) f'"
    by (intro alone_first [where nxt = "[]"]) simp_all
  then show ?case by (simp add: x)
qed simp

lemma alone_only_sends:
  "alone order s (with_acts f s (send_acts xs) st m) (with_acts f s [] (st\<lparr>sends := sends st @ xs\<rparr>) m)"
  using alone_sends [of order s f "[]" st xs m "with_acts f s [] (st\<lparr>sends := sends st @ xs\<rparr>) m"] alone_refl by simp

lemma send_sends: "sendMessageToClient order c m st = st\<lparr>sends := sends st @ frame_sends order c m\<rparr>"
  by (simp add: sendMessageToClient_def frame_sends_def)

lemma broadcast_send_sends:
  "send_to_others order m s cs st = st\<lparr>sends := sends st @ broadcast_sends order s m cs\<rparr>"
  by (induction cs arbitrary: st) (simp_all add: broadcast_sends_def send_sends)

lemma alone_unlock: "alone order s (with_acts f s [A_unlock] st (Some s)) (with_acts f s [] st None)"
  by (rule alone_first, simp, simp, simp, rule alone_refl)

lemma alone_logout:
  "alone order s (with_acts f s (logout_acts order s) st None) (with_acts f s [] (handleLogoutClient order s st) None)"
  unfolding logout_acts_def leave_acts_def
  by (rule alone_first, simp, simp, simp, rule alone_first, simp, simp, simp, rule alone_first, simp, simp, simp,
      rule alone_sends, rule alone_first, simp, simp)
    (simp add: handleLogoutClient_def send_sends Let_def alone_refl)

lemma alone_direct:
  "alone order s (with_acts f s (direct_acts order s d) st None) (with_acts f s [] (handleDirectMessage order d s st) None)"
proof (cases "str_find d CHR '':''")
  case None
  then show ?thesis
    by (simp add: direct_acts_def handleDirectMessage_def send_sends alone_only_sends)
next
  case (Some i)
  let ?u = "take i d" and ?m = "drop (Suc i) d"
  show ?thesis
  proof (cases "map_of (client_mapp st) ?u")
    case None
    let ?xs = "frame_sends order s ''Error: Receiver not found or offline.''"
    have "alone order s (with_acts f s (send_acts ?xs) st None) (with_acts f s [] (st\<lparr>sends := sends st @ ?xs\<rparr>) None)"
      by (rule alone_only_sends)
    then have "alone order s (with_acts f s [A_find ?u ?m] st None) (with_acts f s [] (st\<lparr>sends := sends st @ ?xs\<rparr>) None)"
      using None by (intro alone_first) simp_all
    then show ?thesis
      using None Some by (simp add: direct_acts_def handleDirectMessage_def send_sends)
  next
    case (Some r)
    let ?xs = "frame_sends order r (''Direct message from sender: '' @ ?m)
      @ frame_sends order s ''Direct message sent successfully.''"
    have "alone order s (with_acts f s (send_acts ?xs) st None) (with_acts f s [] (st\<lparr>sends := sends st @ ?xs\<rparr>) None)"
      by (rule alone_only_sends)
    then have "alone order s (with_acts f s [A_fetch ?u ?m] st None) (with_acts f s [] (st\<lparr>sends := sends st @ ?xs\<rparr>) None)"
      using Some by (intro alone_first) simp_all
    then have "alone order s (with_acts f s [A_find ?u ?m] st None) (with_acts f s [] (st\<lparr>sends := sends st @ ?xs\<rparr>) None)"
      using Some by (intro alone_first) simp_all
    then show ?thesis
      using Some \<open>str_find d CHR '':'' = Some i\<close>
      by (simp add: direct_acts_def handleDirectMessage_def send_sends)
  qed
qed

lemma alone_request:
  "alone order s (with_acts f s (request_acts order s r) st None)
    (with_acts f s [] (hub_event_step order (Asked s r) st) None)"
proof (cases r)
  case (Message m)
  obtain event d where e: "split_event m = (event, d)" by (cases "split_event m")
  show ?thesis
  proof (cases "event_type_of event")
    case LOGIN
    let ?xs = "frame_sends order s ''Login successful.''" and ?st = "st\<lparr>client_mapp := map_put d s (client_mapp st)\<rparr>"
    have "alone order s (with_acts f s (send_acts ?xs) ?st None)
        (with_acts f s [] (?st\<lparr>sends := sends ?st @ ?xs\<rparr>) None)"
      by (rule alone_only_sends)
    then have "alone order s (with_acts f s (A_set d # send_acts ?xs) st None)
        (with_acts f s [] (?st\<lparr>sends := sends ?st @ ?xs\<rparr>) None)"
      by (intro alone_first [where nxt = "[]"]) simp_all
    with LOGIN show ?thesis
      using Message e
      by (simp add: dispatch_def handleLoginClient_def send_sends)
  next
    case DIRECT
    then show ?thesis
      using Message e alone_direct by (simp add: dispatch_def)
  next
    case BROADCAST
    let ?xs = "broadcast_sends order s d (clients st) @ frame_sends order s ''Broadcast sent successfully.''"
    let ?st = "st\<lparr>sends := sends st @ ?xs\<rparr>"
    have "alone order s (with_acts f s [A_unlock] ?st (Some s)) (with_acts f s [] ?st None)"
      by (rule alone_unlock)
    then have "alone order s (with_acts f s (send_acts ?xs @ [A_unlock]) st (Some s)) (with_acts f s [] ?st None)"
      by (rule alone_sends)
    then have "alone order s (with_acts f s [A_broadcast d] st (Some s)) (with_acts f s [] ?st None)"
      by (intro alone_first) simp_all
    then have "alone order s (with_acts f s [A_lock, A_broadcast d] st None) (with_acts f s [] ?st None)"
      by (intro alone_first [where nxt = "[]"]) simp_all
    then show ?thesis
      using Message e BROADCAST by (simp add: dispatch_def broadcastMessage_def broadcast_send_sends send_sends)
  next
    case LOGOUT
    then show ?thesis
      using Message e alone_logout by (simp add: dispatch_def)
  next
    case ONLINE_USERS
    let ?xs = "frame_sends order s (online_users (client_mapp st) (''Online Users:'' @ [NL]))"
    let ?st = "st\<lparr>sends := sends st @ ?xs\<rparr>"
    have "alone order s (with_acts f s [A_unlock] ?st (Some s)) (with_acts f s [] ?st None)"
      by (rule alone_unlock)
    then have "alone order s (with_acts f s (send_acts ?xs @ [A_unlock]) st (Some s)) (with_acts f s [] ?st None)"
      by (rule alone_sends)
    then have "alone order s (with_acts f s [A_list] st (Some s)) (with_acts f s [] ?st None)"
      by (intro alone_first) simp_all
    then have "alone order s (with_acts f s [A_lock, A_list] st None) (with_acts f s [] ?st None)"
      by (intro alone_first [where nxt = "[]"]) simp_all
    then show ?thesis
      using Message e ONLINE_USERS by (simp add: dispatch_def handleOnlineUsers_def send_sends)
  next
    case INVALID
    then show ?thesis
      using Message e by (simp add: dispatch_def send_sends alone_only_sends)
  qed
qed (simp add: alone_logout)

text \<open>
  Receiving a request and handling it without interruption: afterwards the thread is idle,
  the mutex is free, the globals are what the handler makes of them, and nothing else has
  changed.
\<close>

lemma handled_alone:
  assumes "f_acts f s = []" and "f_mutex f = None" and "f_todo f s = r # rs"
  shows "\<exists>n. schedule order (Receive s # replicate n (Act s)) f
    = Some (f\<lparr>f_server := hub_event_step order (Asked s r) (f_server f),
        f_todo := (f_todo f)(s := if last_request r then [] else rs), f_read := f_read f @ [(s, r)]\<rparr>)"
proof -
  let ?f = "f\<lparr>f_todo := (f_todo f)(s := if last_request r then [] else rs), f_read := f_read f @ [(s, r)]\<rparr>"
  have "(f_acts f)(s := []) = f_acts f"
    using assms(1) by (simp add: fun_upd_idem)
  then have idle: "with_acts ?f s [] st None = ?f\<lparr>f_server := st\<rparr>" for st
    using assms(2) by (simp add: with_acts_def)
  have p: "pick order (Receive s) f = Some (with_acts ?f s (request_acts order s r) (f_server f) None)"
    using assms by (simp add: with_acts_def)
  obtain n where "schedule order (replicate n (Act s)) (with_acts ?f s (request_acts order s r) (f_server f) None)
      = Some (with_acts ?f s [] (hub_event_step order (Asked s r) (f_server f)) None)"
    using alone_request [of order s ?f r "f_server f"] unfolding alone_def by blast
  then show ?thesis
    using p unfolding idle by (intro exI [of _ n]) simp
qed

section \<open>The invariant\<close>

fun is_direct :: "request \<Rightarrow> bool" where
  "is_direct Hangup = False"
| "is_direct (Message m) = (event_type_of (fst (split_event m)) = DIRECT)"

text \<open>Some thread has received a direct message.\<close>

definition directed :: "fine \<Rightarrow> bool" where
  "directed f \<longleftrightarrow> (\<exists>e \<in> set (f_read f). is_direct (snd e))"

text \<open>
  The rest of a logout, once the client is off the lists; and where a thread stands: idle,
  leaving, or connected, with the logout still ahead if it is about to log out.
\<close>

definition leaving :: "byte_order \<Rightarrow> int \<Rightarrow> server_act list \<Rightarrow> bool" where
  "leaving order s as \<longleftrightarrow> (\<exists>k. as = drop k (A_unlock # leave_acts order s))"

definition stands :: "byte_order \<Rightarrow> int set \<Rightarrow> bool \<Rightarrow> int \<Rightarrow> request list \<Rightarrow> server_act list \<Rightarrow> bool" where
  "stands order C d s todo as \<longleftrightarrow>
     as = [] \<or> (leaving order s as \<and> todo = []) \<or>
     (s \<in> C \<and> (A_erase \<in> set as \<longrightarrow> todo = [] \<and> (as = logout_acts order s \<or> as = tl (logout_acts order s)))
       \<and> (\<forall>u m. A_find u m \<in> set as \<or> A_fetch u m \<in> set as \<longrightarrow> d))"

definition hub_inv :: "byte_order \<Rightarrow> fine \<Rightarrow> bool" where
  "hub_inv order f \<longleftrightarrow>
     tidy (f_server f) \<and> (\<forall>c \<in> set (clients (f_server f)). 0 \<le> c)
   \<and> (\<forall>r \<in> snd ` set (client_mapp (f_server f)). r \<in> set (clients (f_server f)) \<or> (r = 0 \<and> directed f))
   \<and> (\<forall>s. f_todo f s \<noteq> [] \<longrightarrow> s \<in> set (clients (f_server f)))
   \<and> (\<forall>s. stands order (set (clients (f_server f))) (directed f) s (f_todo f s) (f_acts f s))"

lemma leaving_set:
  "leaving order s as \<Longrightarrow> a \<in> set as \<Longrightarrow> a = A_unlock \<or> a = A_close \<or> (\<exists>c b. a = A_send c b)"
  unfolding leaving_def by (auto simp: leave_acts_def frame_sends_def dest!: in_set_dropD)

lemma leaving_Cons: "leaving order s (a # as) \<Longrightarrow> leaving order s as"
  unfolding leaving_def by (metis drop_Suc list.sel(3) tl_drop)

lemma logout_leaving: "leaving order s (tl (tl (logout_acts order s)))"
  unfolding leaving_def by (rule exI [of _ 0]) (simp add: logout_acts_def)

lemma request_erase:
  assumes "A_erase \<in> set (request_acts order s r)"
  shows "request_acts order s r = logout_acts order s"
proof (cases r)
  case (Message m)
  obtain event d where "split_event m = (event, d)" by (cases "split_event m")
  then show ?thesis
    using assms Message
    by (cases "event_type_of event") (auto simp: direct_acts_def set_send_acts split: option.splits)
qed simp

lemma request_directed:
  assumes "A_find u m \<in> set (request_acts order s r) \<or> A_fetch u m \<in> set (request_acts order s r)"
  shows "is_direct r"
proof (cases r)
  case (Message x)
  obtain event d where "split_event x = (event, d)" by (cases "split_event x")
  then show ?thesis
    using assms Message
    by (cases "event_type_of event") (auto simp: set_send_acts logout_acts_def leave_acts_def)
qed (use assms in \<open>auto simp: set_send_acts logout_acts_def leave_acts_def\<close>)

lemma effect_directed:
  "act_effect order s a st = (st', nxt) \<Longrightarrow> A_find u m \<in> set nxt \<or> A_fetch u m \<in> set nxt \<Longrightarrow> \<exists>u m. a = A_find u m"
  by (cases a) (auto simp: Let_def set_send_acts split: if_splits)

lemma stands_mono:
  "stands order C d s todo as \<Longrightarrow> (s \<in> C \<Longrightarrow> s \<in> C') \<Longrightarrow> (d \<Longrightarrow> d') \<Longrightarrow> stands order C' d' s todo as"
  unfolding stands_def by blast

lemma stands_act:
  assumes "stands order C d s todo (a # as)" and "act_effect order s a st = (st', nxt)"
  shows "stands order (if a = A_erase then C - {s} else C) d s todo (nxt @ as)"
  using assms(1) unfolding stands_def [of order C d s todo "a # as"]
proof (elim disjE conjE)
  assume l: "leaving order s (a # as)" "todo = []"
  have a: "a = A_unlock \<or> a = A_close \<or> (\<exists>c b. a = A_send c b)"
    using leaving_set [OF l(1), of a] by simp
  then have "nxt = []" "a \<noteq> A_erase"
    using assms(2) by auto
  then show ?thesis
    using leaving_Cons [OF l(1)] l(2) by (simp add: stands_def)
next
  assume s: "s \<in> C" and e: "A_erase \<in> set (a # as) \<longrightarrow>
      todo = [] \<and> (a # as = logout_acts order s \<or> a # as = tl (logout_acts order s))"
    and d: "\<forall>u m. A_find u m \<in> set (a # as) \<or> A_fetch u m \<in> set (a # as) \<longrightarrow> d"
  show ?thesis
  proof (cases "a = A_erase")
    case True
    then have "nxt = []" "a # as = tl (logout_acts order s)" "todo = []"
      using assms(2) e by (auto simp: logout_acts_def)
    then show ?thesis
      using logout_leaving [of order s] by (metis append_Nil list.sel(3) stands_def)
  next
    case False
    have "todo = [] \<and> nxt @ as = tl (logout_acts order s)" if "A_erase \<in> set (nxt @ as)"
    proof -
      have "A_erase \<in> set as"
        using that effect_no_erase [OF assms(2)] by simp
      then have l: "todo = []" "a # as = logout_acts order s"
        using e False by (auto simp: logout_acts_def)
      then have "nxt = []"
        using assms(2) by (auto simp: logout_acts_def)
      with l show ?thesis by (metis append_Nil list.sel(3))
    qed
    moreover have "d" if "A_find u m \<in> set (nxt @ as) \<or> A_fetch u m \<in> set (nxt @ as)" for u m
      using that d effect_directed [OF assms(2), of u m] by auto
    ultimately show ?thesis
      using s False unfolding stands_def by auto
  qed
qed simp

lemma effect_names:
  assumes "act_effect order s a st = (st', nxt)" and "r \<in> snd ` set (client_mapp st')"
  shows "r \<in> snd ` set (client_mapp st) \<and> (a = A_erase \<longrightarrow> r \<noteq> s) \<or> (\<exists>u. a = A_set u) \<and> r = s
    \<or> (\<exists>u m. a = A_fetch u m) \<and> r = 0"
proof -
  have r: "r \<in> snd ` set (client_mapp (fst (act_effect order s a st)))"
    using assms(2) unfolding assms(1) fst_conv .
  show ?thesis
  proof (cases a)
    case (A_set u)
    then have "r \<in> snd ` set (map_put u s (client_mapp st))"
      using r by simp
    from subsetD [OF snd_set_map_put this] show ?thesis
      using A_set by blast
  next
    case (A_fetch u m)
    then have "r \<in> snd ` set (if map_of (client_mapp st) u = None then map_put u 0 (client_mapp st) else client_mapp st)"
      using r by (simp add: Let_def)
    then have "r \<in> snd ` set (client_mapp st) \<or> r \<in> snd ` set (map_put u 0 (client_mapp st))"
      by (cases "map_of (client_mapp st) u = None") (simp_all only: if_True if_False not_False_eq_True, simp_all)
    then show ?thesis
      using subsetD [OF snd_set_map_put, of r u 0 "client_mapp st"] A_fetch by blast
  qed (use r in \<open>auto simp: erase_names_filter\<close>)
qed

lemma effect_tidy: "act_effect order s a st = (st', nxt) \<Longrightarrow> tidy st \<Longrightarrow> tidy st'"
  by (cases a) (auto simp: tidy_def Let_def erase_names_filter distinct_removeAll split: if_splits)

lemma hub_invI:
  assumes "tidy (f_server f)" and "\<And>c. c \<in> set (clients (f_server f)) \<Longrightarrow> 0 \<le> c"
    and "\<And>r. r \<in> snd ` set (client_mapp (f_server f)) \<Longrightarrow> r \<in> set (clients (f_server f)) \<or> (r = 0 \<and> directed f)"
    and "\<And>s. f_todo f s \<noteq> [] \<Longrightarrow> s \<in> set (clients (f_server f))"
    and "\<And>s. stands order (set (clients (f_server f))) (directed f) s (f_todo f s) (f_acts f s)"
  shows "hub_inv order f"
  using assms unfolding hub_inv_def by blast

lemma hub_invD:
  assumes "hub_inv order f"
  shows "tidy (f_server f)" and "c \<in> set (clients (f_server f)) \<Longrightarrow> 0 \<le> c"
    and "r \<in> snd ` set (client_mapp (f_server f)) \<Longrightarrow> r \<in> set (clients (f_server f)) \<or> (r = 0 \<and> directed f)"
    and "f_todo f s \<noteq> [] \<Longrightarrow> s \<in> set (clients (f_server f))"
    and "stands order (set (clients (f_server f))) (directed f) s (f_todo f s) (f_acts f s)"
proof -
  note h = assms [unfolded hub_inv_def]
  show "tidy (f_server f)"
    by (rule conjunct1 [OF h])
  show "c \<in> set (clients (f_server f)) \<Longrightarrow> 0 \<le> c"
    by (rule bspec [OF conjunct1 [OF conjunct2 [OF h]]])
  show "r \<in> snd ` set (client_mapp (f_server f)) \<Longrightarrow> r \<in> set (clients (f_server f)) \<or> (r = 0 \<and> directed f)"
    by (rule bspec [OF conjunct1 [OF conjunct2 [OF conjunct2 [OF h]]]])
  show "f_todo f s \<noteq> [] \<Longrightarrow> s \<in> set (clients (f_server f))"
    by (rule mp [OF spec [OF conjunct1 [OF conjunct2 [OF conjunct2 [OF conjunct2 [OF h]]]]]])
  show "stands order (set (clients (f_server f))) (directed f) s (f_todo f s) (f_acts f s)"
    by (rule spec [OF conjunct2 [OF conjunct2 [OF conjunct2 [OF conjunct2 [OF h]]]]])
qed

lemma do_act_inv:
  assumes "hub_inv order f" and "do_act order s f = Some f'"
  shows "hub_inv order f'"
proof -
  note inv = hub_invD [OF assms(1)]
  obtain a as st nxt where a: "f_acts f s = a # as" and e: "act_effect order s a (f_server f) = (st, nxt)"
    and f': "f' = f\<lparr>f_server := st, f_acts := (f_acts f)(s := nxt @ as),
      f_mutex := (if a = A_lock then Some s else if a = A_unlock then None else f_mutex f)\<rparr>"
    by (rule do_actE [OF assms(2)])
  have cl: "clients st = (if a = A_erase then removeAll s (clients (f_server f)) else clients (f_server f))"
    by (rule effect_clients [OF e])
  have s: "stands order (set (clients (f_server f))) (directed f) s (f_todo f s) (a # as)"
    using inv(5) [of s] a by simp
  have d: "directed f' = directed f"
    by (simp add: f' directed_def)
  have erased: "f_todo f s = []" if "a = A_erase"
    using s that leaving_set [of order s "a # as" A_erase] by (auto simp: stands_def)
  have connected: "s \<in> set (clients (f_server f))" if "a = A_set u" for u
    using s that leaving_set [of order s "a # as" a] by (auto simp: stands_def)
  have direct: "directed f" if "a = A_fetch u m" for u m
    using s that leaving_set [of order s "a # as" a] by (auto simp: stands_def)
  show ?thesis
  proof (rule hub_invI)
    show "tidy (f_server f')"
      using effect_tidy [OF e inv(1)] by (simp add: f')
    show "0 \<le> c" if "c \<in> set (clients (f_server f'))" for c
      using that inv(2) [of c] cl by (auto simp: f' split: if_splits)
    show "r \<in> set (clients (f_server f')) \<or> (r = 0 \<and> directed f')" if "r \<in> snd ` set (client_mapp (f_server f'))" for r
    proof -
      have "r \<in> snd ` set (client_mapp st)"
        using that by (simp add: f')
      from effect_names [OF e this] show ?thesis
        using inv(3) [of r] cl connected direct by (auto simp: f' directed_def)
    qed
    show "t \<in> set (clients (f_server f'))" if "f_todo f' t \<noteq> []" for t
      using that inv(4) [of t] cl erased by (auto simp: f')
    show "stands order (set (clients (f_server f'))) (directed f') t (f_todo f' t) (f_acts f' t)" for t
    proof (cases "t = s")
      case True
      then show ?thesis
        using stands_act [OF s e] cl by (simp add: f' directed_def split: if_splits)
    next
      case False
      then show ?thesis
        using inv(5) [of t] cl by (auto simp: f' directed_def elim!: stands_mono)
    qed
  qed
qed

lemma fine_step_inv:
  assumes "fine_step order P f f'" and "hub_inv order f"
  shows "hub_inv order f'"
  using assms(1)
proof cases
  case (F_accept fd rs)
  note inv = hub_invD [OF assms(2)]
  have s: "stands order (set (clients (f_server f)) \<union> {fd}) (directed f) t (f_todo f t) (f_acts f t)" for t
    using inv(5) [of t] by (rule stands_mono) simp_all
  show ?thesis
    unfolding F_accept(1)
  proof (rule hub_invI, goal_cases)
    case (5 t)
    then show ?case
      using s [of t] F_accept(2,4) by (auto simp: accept_client_def directed_def stands_def)
  qed (use inv F_accept(2,3) in \<open>auto simp: accept_client_def tidy_def directed_def split: if_splits\<close>)
next
  case (F_read s r rs)
  note inv = hub_invD [OF assms(2)]
  have c: "s \<in> set (clients (f_server f))"
    using inv(4) [of s] F_read(3) by simp
  have d: "directed f' \<longleftrightarrow> directed f \<or> is_direct r"
    by (auto simp: F_read(1) directed_def)
  have s: "stands order (set (clients (f_server f))) (directed f') s (f_todo f' s) (f_acts f' s)"
    using c request_erase [of order s r] erase_last [of order s r] request_directed [of _ _ order s r]
    unfolding d by (auto simp: F_read(1) stands_def)
  show ?thesis
  proof (rule hub_invI, goal_cases)
    case (5 t)
    then show ?case
      using s inv(5) [of t] d by (cases "t = s") (auto simp: F_read(1) elim!: stands_mono)
  qed (use inv c d in \<open>auto simp: F_read(1) split: if_splits\<close>)
next
  case (F_act s)
  then show ?thesis using do_act_inv [OF assms(2)] by blast
qed

lemma fine_reachable_hub_inv:
  assumes "fine_reachable order P fine_start f"
  shows "hub_inv order f"
  using assms unfolding fine_reachable_def
proof (induction rule: rtranclp_induct)
  case base
  show ?case by (simp add: hub_inv_def fine_start_def msg_server_init_def tidy_def stands_def)
qed (rule fine_step_inv)

section \<open>Properties\<close>

text \<open>One client has connected, to log in and to broadcast.\<close>

definition ann_connects :: fine where
  "ann_connects = fine_start\<lparr>f_server := accept_client 4 msg_server_init,
     f_todo := (\<lambda>_. [])(4 := [Message ''login:ann'', Message ''broadcast:hi''])\<rparr>"

lemma ann_reachable: "fine_reachable order (\<lambda>_. True) fine_start ann_connects"
proof -
  have "fine_step order (\<lambda>_. True) fine_start (fine_start\<lparr>f_server := accept_client 4 (f_server fine_start),
      f_todo := (f_todo fine_start)(4 := [Message ''login:ann'', Message ''broadcast:hi''])\<rparr>)"
    by (rule F_accept) (simp_all add: fine_start_def msg_server_init_def)
  then show ?thesis
    unfolding fine_reachable_def by (intro r_into_rtranclp) (simp add: ann_connects_def fine_start_def)
qed

text \<open>
  C7: However accepts, requests and single actions of the threads are interleaved, logins
  and direct messages included, the list of clients has no duplicates and holds
  descriptors, no name is registered twice, and every registered name stands for a
  connected client, or else for the descriptor 0, and that only if some thread has
  received a direct message. A thread that has more to receive is connected, and a thread
  that is busy is connected or on the last steps of a logout, after which it receives
  nothing.
\<close>

theorem hub_invariant:
  assumes "fine_reachable order P fine_start f"
  shows "distinct (clients (f_server f)) \<and> distinct (map fst (client_mapp (f_server f)))
    \<and> (c \<in> set (clients (f_server f)) \<longrightarrow> 0 \<le> c)
    \<and> (map_of (client_mapp (f_server f)) u = Some r \<longrightarrow>
        r \<in> set (clients (f_server f)) \<or> (r = 0 \<and> (\<exists>e \<in> set (f_read f). is_direct (snd e))))
    \<and> (f_todo f s \<noteq> [] \<longrightarrow> s \<in> set (clients (f_server f)))
    \<and> (f_acts f s \<noteq> [] \<longrightarrow> s \<in> set (clients (f_server f))
        \<or> (f_todo f s = [] \<and> (\<exists>k. f_acts f s = drop k (A_unlock # leave_acts order s))))"
proof -
  note inv = hub_invD [OF fine_reachable_hub_inv [OF assms]]
  have "r \<in> snd ` set (client_mapp (f_server f))" if "map_of (client_mapp (f_server f)) u = Some r"
    using map_of_SomeD [OF that] by force
  then have "map_of (client_mapp (f_server f)) u = Some r \<longrightarrow>
      r \<in> set (clients (f_server f)) \<or> (r = 0 \<and> (\<exists>e \<in> set (f_read f). is_direct (snd e)))"
    using inv(3) [of r] unfolding directed_def by blast
  moreover have "f_acts f s \<noteq> [] \<longrightarrow> s \<in> set (clients (f_server f))
      \<or> (f_todo f s = [] \<and> (\<exists>k. f_acts f s = drop k (A_unlock # leave_acts order s)))"
    using inv(5) [of s] unfolding stands_def leaving_def by blast
  ultimately show ?thesis
    using inv(1) inv(2) [of c] inv(4) [of s] distinct_ascending unfolding tidy_def by blast
qed

theorem hub_invariant_witness: "(4::int) \<in> set (clients (f_server ann_connects))"
proof -
  have "f_todo ann_connects 4 \<noteq> []"
    by (simp add: ann_connects_def)
  then show ?thesis
    using hub_invariant [OF ann_reachable [of Little], where s = 4] by blast
qed

text \<open>
  The SIGINT handler closes every connected socket and the listening one, exactly once.
\<close>

lemma shutdown_closes_all:
  assumes "fine_reachable order P fine_start f" and "server_socket \<notin> set (clients (f_server f))"
  shows "\<exists>now. closes (shutdownServer server_socket (f_server f)) = closes (f_server f) @ now \<and> distinct now
    \<and> set now = insert server_socket (set (clients (f_server f)))"
proof -
  have "tidy (f_server f)"
    using hub_invD(1) [OF fine_reachable_hub_inv [OF assms(1)]] .
  then show ?thesis
    using assms(2)
    by (intro exI [of _ "clients (f_server f) @ [server_socket]"]) (auto simp: shutdownServer_def tidy_def)
qed

lemma dispatch_closes:
  "closes (fst (dispatch order m s st)) = closes st @ (if last_request (Message m) then [s] else [])"
  by (auto simp: dispatch_def handleLoginClient_def handleDirectMessage_def broadcastMessage_def handleOnlineUsers_def
      handleLogoutClient_def Let_def split: prod.split event_type.split option.split)

text \<open>
  C5: The directory. In every state that the threads reach, however they were interleaved
  before, let an idle thread receive its next message while the mutex is free, and handle
  it while no other thread acts. It comes to its end, and then the set of connected sockets
  and the table of names are what the abstract directory says, every socket has been sent
  exactly the frames of the directory's answers (the receiver of a direct message, all
  others for a broadcast, the sender its confirmation or error), the socket is closed by a
  logout, and the other threads stand where they stood.
\<close>

theorem hub_refines_directory:
  assumes "fine_reachable order P fine_start f" and "f_mutex f = None" and "f_acts f s = []"
    and "f_todo f s = Message message # rs"
  shows "\<exists>n f'. schedule order (Receive s # replicate n (Act s)) f = Some f'
    \<and> f_acts f' = f_acts f \<and> f_mutex f' = None
    \<and> f_todo f' = (f_todo f)(s := if last_request (Message message) then [] else rs)
    \<and> directory_of (f_server f') = directory_step message s (directory_of (f_server f))
    \<and> (\<forall>c. bytes_to c (f_server f') = bytes_to c (f_server f)
        @ concat (map (frame_of order) (directory_texts message s (directory_of (f_server f)) c)))
    \<and> closes (f_server f') = closes (f_server f) @ (if last_request (Message message) then [s] else [])"
proof -
  have "tidy (f_server f)"
    using hub_invD(1) [OF fine_reachable_hub_inv [OF assms(1)]] .
  note d = dispatch_directory [OF this, of order message s] dispatch_bytes [OF this, of _ order message s]
  obtain n where "schedule order (Receive s # replicate n (Act s)) f
      = Some (f\<lparr>f_server := hub_event_step order (Asked s (Message message)) (f_server f),
          f_todo := (f_todo f)(s := if last_request (Message message) then [] else rs),
          f_read := f_read f @ [(s, Message message)]\<rparr>)"
    using handled_alone [OF assms(3,2,4)] by blast
  then show ?thesis
    using assms(2) d dispatch_closes [of order message s]
    by (intro exI [of _ n] exI conjI) (assumption | simp)+
qed

theorem hub_refines_directory_witness:
  "\<exists>n f'. schedule Little (Receive 4 # replicate n (Act 4)) ann_connects = Some f'
    \<and> directory_of (f_server f') = directory_step ''login:ann'' 4 (directory_of (f_server ann_connects))"
proof -
  have "f_mutex ann_connects = None" "f_acts ann_connects 4 = []"
    "f_todo ann_connects 4 = Message ''login:ann'' # [Message ''broadcast:hi'']"
    by (simp_all add: ann_connects_def fine_start_def)
  from hub_refines_directory [OF ann_reachable this] show ?thesis by blast
qed

end
