(* ===== verification/Multi_Races.thy ===== *)
theory Multi_Races
  imports Multi_Atomic Multi_Schedules
begin

text \<open>
  What the mutex of the message server gives and what it does not: requests handled under it
  are atomic, free of races and sent as whole frames; a login and a direct message race with
  them, lose a receiver and break the frames of a connection.
\<close>

section \<open>What follows from it\<close>

text \<open>Accesses to the map of names: \<open>Some True\<close> writes, \<open>Some False\<close> reads.\<close>

fun map_access :: "server_act list \<Rightarrow> bool option" where
  "map_access (A_set u # as) = Some True"
| "map_access (A_fetch u m # as) = Some True"
| "map_access (A_erase # as) = Some True"
| "map_access (A_find u m # as) = Some False"
| "map_access (A_list # as) = Some False"
| "map_access _ = None"

text \<open>Two threads are about to access the map, and one of them will write.\<close>

definition races :: "fine \<Rightarrow> bool" where
  "races f \<longleftrightarrow> (\<exists>s t. s \<noteq> t \<and> map_access (f_acts f s) = Some True \<and> map_access (f_acts f t) \<noteq> None)"



text \<open>What has been sent to a socket has grown by whole frames.\<close>

definition whole_frames :: "byte_order \<Rightarrow> string \<Rightarrow> string \<Rightarrow> bool" where
  "whole_frames order b b' \<longleftrightarrow> (\<exists>ms. b' = b @ concat (map (frame_of order) ms))"

lemma whole_frames_intros:
  "whole_frames order b b"
  "whole_frames order b b' \<Longrightarrow> whole_frames order b (b' @ frame_of order m)"
proof -
  show "whole_frames order b b" unfolding whole_frames_def by (rule exI [of _ "[]"]) simp
  assume "whole_frames order b b'"
  then obtain ms where "b' = b @ concat (map (frame_of order) ms)"
    unfolding whole_frames_def by blast
  then show "whole_frames order b (b' @ frame_of order m)"
    unfolding whole_frames_def by (intro exI [of _ "ms @ [m]"]) simp
qed

lemma whole_broadcast:
  "whole_frames order b b' \<Longrightarrow> whole_frames order b (b' @ sends_to c (broadcast_sends order s m cs))"
proof (induction cs arbitrary: b')
  case (Cons d cs)
  then show ?case
    using Cons.IH [of "b' @ frame_of order (''Broadcast: '' @ m)"] whole_frames_intros(2) [OF Cons.prems]
    by (simp add: broadcast_sends_def)
qed (simp add: broadcast_sends_def)

lemma hub_event_whole:
  assumes "whole_frames order b (bytes_to c st)"
  shows "whole_frames order b (bytes_to c (hub_event_step order e st))"
proof (cases "(order, e, st)" rule: hub_event_step.cases)
  case (3 order s m st)
  obtain event d where "split_event m = (event, d)" by (cases "split_event m")
  then show ?thesis
    using 3 assms
    by (cases "event_type_of event")
      (auto simp: dispatch_def handleLoginClient_def handleDirectMessage_def broadcastMessage_def
        bytes_to_broadcast_sends handleLogoutClient_def handleOnlineUsers_def Let_def simp flip: append_assoc
        intro!: whole_frames_intros(2) whole_broadcast split: option.split)
qed (use assms in \<open>auto simp: accept_client_def handleLogoutClient_def Let_def bytes_to_def [of _ "st\<lparr>clients := _\<rparr>" for st]
    intro!: whole_frames_intros(2)\<close>)

lemma coarse_whole: "whole_frames order (bytes_to c st) (bytes_to c (coarse order evs st))"
proof (induction evs rule: rev_induct)
  case Nil
  then show ?case
    by (simp add: coarse_def whole_frames_intros)
qed (simp add: coarse_snoc hub_event_whole)

lemma event_types:
  "event_type_of ''login'' = LOGIN" "event_type_of ''direct'' = DIRECT" "event_type_of ''broadcast'' = BROADCAST"
  "event_type_of ''online-users'' = ONLINE_USERS" "event_type_of ''logout'' = LOGOUT"
  by (simp_all add: event_type_of_def event_map_def)

lemma split_examples:
  "split_event ''login:ann'' = (''login'', ''ann'')" "split_event ''online-users'' = (''online-users'', [])"
  "split_event ''broadcast:hi'' = (''broadcast'', ''hi'')" "split_event ''direct:ann:hi'' = (''direct'', ''ann:hi'')"
  by code_simp+

lemma find_example: "str_find ''ann:hi'' CHR '':'' = Some 3"
  by code_simp

section \<open>Requests handled under the mutex\<close>

text \<open>
  C6: Let the server be at rest, with whatever clients logged in. From then on clients that
  only broadcast, ask for the list of users, log out or hang up are served as if each
  request were handled without interruption. However the threads are interleaved, the
  clients and the names are those of some order of uninterrupted requests, in which each client's requests come in the order in which its thread received
  them, the last one possibly still ahead; and what has been sent to any socket is a
  prefix of what it gets in that order: the rest is what threads have still to send. When
  no thread is busy, nothing is missing, and every socket has been sent whole frames since.
\<close>

theorem locked_requests_atomic:
  assumes "at_rest lockable f0" and "fine_reachable order lockable f0 f"
  shows "\<exists>evs. clients (f_server f) = clients (coarse order evs (f_server f0))
    \<and> client_mapp (f_server f) = client_mapp (coarse order evs (f_server f0))
    \<and> (\<forall>s. \<exists>rs. read_by s f = read_by s f0 @ asked s evs @ rs \<and> length rs \<le> 1)
    \<and> (\<forall>c. \<exists>rest. bytes_to c (f_server f) @ rest = bytes_to c (coarse order evs (f_server f0)))
    \<and> ((\<forall>s. f_acts f s = []) \<longrightarrow>
        (\<forall>c. read_by c f = read_by c f0 @ asked c evs \<and> bytes_to c (f_server f) = bytes_to c (coarse order evs (f_server f0))
          \<and> whole_frames order (bytes_to c (f_server f0)) (bytes_to c (f_server f))))"
proof -
  obtain ph evs where i: "fine_inv order f0 f ph evs"
    using fine_reachable_inv [OF assms(2,1)] by blast
  note inv = fine_invD [OF i]
  have one: "length (undone (ph s)) \<le> 1" for s
    by (cases "ph s") simp_all
  have idle: "read_by c f = read_by c f0 @ asked c evs \<and> bytes_to c (f_server f) = bytes_to c (coarse order evs (f_server f0))
      \<and> whole_frames order (bytes_to c (f_server f0)) (bytes_to c (f_server f))" if "\<forall>s. f_acts f s = []" for c
  proof -
    have ph: "ph s = Idle" for s
      using acts_of_Nil [OF inv(3)] inv(1) [of s] that by metis
    then have "f_mutex f \<noteq> Some s" for s
      using inv(2) [of s] by simp
    then have "owed_to order ph c (clients (f_server f)) (f_mutex f) = []"
      using ph by (simp add: owed_to_def split: option.split)
    then show ?thesis
      using inv(7) [of c] inv(8) [of c] ph coarse_whole [of order c "f_server f0" evs] by simp
  qed
  show ?thesis
    using inv(5,6) inv(7) inv(8) one idle by (intro exI [of _ evs]) blast
qed


text \<open>
  Ann has logged in, and will broadcast and hang up; another client asks for the list of
  users.
\<close>

definition joining :: "choice list" where
  "joining = [Arrive 4 [Message ''login:ann'', Message ''broadcast:hi'', Hangup], Receive 4, Act 4, Act 4, Act 4,
     Arrive 5 [Message ''online-users'']]"

definition joined :: "byte_order \<Rightarrow> fine" where
  "joined order = the (schedule order joining fine_start)"

definition mixing :: "choice list" where
  "mixing = [Receive 4, Receive 5, Act 5, Act 5, Act 5, Act 5, Act 5, Act 4, Act 4]"

definition mixed :: "byte_order \<Rightarrow> fine" where
  "mixed order = the (schedule order mixing (joined order))"

lemmas schedule_simps = fine_start_def msg_server_init_def accept_client_def do_act_def frame_sends_def
  send_acts_def broadcast_sends_def split_examples event_types

lemma joining_runs: "\<exists>f. schedule order joining fine_start = Some f"
  by (simp add: joining_def schedule_simps)

lemma joined_rests: "at_rest lockable (joined order)" "client_mapp (f_server (joined order)) = [(''ann'', 4)]"
  by (auto simp: joined_def joining_def at_rest_def schedule_simps)

lemma mixing_reachable: "fine_reachable order lockable (joined order) (mixed order)"
proof -
  obtain f where f: "schedule order mixing (joined order) = Some f"
    by (simp add: mixing_def joined_def joining_def schedule_simps)
  have "list_all (sends_only lockable) mixing"
    by (simp add: mixing_def)
  then show ?thesis
    using schedule_reaches [OF f _ start_reachable] f by (simp add: mixed_def)
qed

theorem locked_requests_atomic_witness:
  "\<exists>evs. clients (f_server (mixed Little)) = clients (coarse Little evs (f_server (joined Little)))
    \<and> client_mapp (f_server (mixed Little)) = client_mapp (coarse Little evs (f_server (joined Little)))
    \<and> (\<forall>s. \<exists>rs. read_by s (mixed Little) = read_by s (joined Little) @ asked s evs @ rs \<and> length rs \<le> 1)
    \<and> (\<forall>c. \<exists>rest. bytes_to c (f_server (mixed Little)) @ rest
        = bytes_to c (coarse Little evs (f_server (joined Little))))"
  using locked_requests_atomic [OF joined_rests(1) mixing_reachable [of Little]] by blast


section \<open>Requests handled without it\<close>

text \<open>A login writes the map of names while the list of users is read under the mutex.\<close>

definition racing :: "choice list" where
  "racing = [Arrive 4 [Message ''login:ann''], Arrive 5 [Message ''online-users''], Receive 4, Receive 5, Act 5]"

lemma racing_races: "\<exists>f. schedule order racing fine_start = Some f \<and> races f"
proof -
  obtain f where f: "schedule order racing fine_start = Some f"
    and a: "f_acts f 4 = A_set ''ann'' # send_acts (frame_sends order 4 ''Login successful.'')" "f_acts f 5 = [A_list]"
    by (simp add: racing_def schedule_simps)
  have "races f"
    unfolding races_def by (rule exI [of _ 4], rule exI [of _ 5]) (simp add: a)
  then show ?thesis using f by blast
qed

text \<open>
  A login is answered while another thread broadcasts: the second length goes between the
  length and the text of the answer.
\<close>

definition garbling :: "choice list" where
  "garbling = [Arrive 4 [Message ''login:ann''], Arrive 5 [Message ''broadcast:hi''], Receive 4, Receive 5,
     Act 4, Act 4, Act 5, Act 5, Act 5, Act 4, Act 5, Act 5, Act 5, Act 5]"

text \<open>
  A user logs out between the two accesses of a direct message to her: \<^verbatim>\<open>operator[]\<close> enters
  her again, with the descriptor 0, which gets the message.
\<close>

definition losing :: "choice list" where
  "losing = [Arrive 4 [Message ''login:ann'', Hangup], Arrive 5 [Message ''direct:ann:hi''],
     Receive 4, Act 4, Act 4, Act 4, Receive 4, Receive 5, Act 5, Act 4, Act 4, Act 5, Act 5, Act 5, Act 5, Act 5]"

lemma garbling_garbles:
  "\<exists>f. schedule order garbling fine_start = Some f \<and> (\<forall>s. f_acts f s = [])
    \<and> bytes_to 4 (f_server f) = concat [frame_head order ''Login successful.'', frame_head order ''Broadcast: hi'',
        ''Login successful.'', ''Broadcast: hi'']"
  by (simp add: garbling_def schedule_simps bytes_to_def)

lemma losing_loses:
  "\<exists>f. schedule order losing fine_start = Some f \<and> client_mapp (f_server f) = [(''ann'', 0)]
    \<and> bytes_to 0 (f_server f) = frame_of order ''Direct message from sender: hi''
    \<and> bytes_to 5 (f_server f) = frame_of order ''Direct message sent successfully.''"
  by (simp add: losing_def schedule_simps direct_acts_def logout_acts_def bytes_to_def frame_of_def
      find_example)

text \<open>
  C30: With logins and direct messages, which do not take the mutex, three things go wrong
  in states that the threads reach: a login is about to write the map of names while
  another thread reads it; a client is left with a garbled stream, so that it shows an
  empty message for the answer to its login; and a direct message goes to the descriptor 0
  and is reported as sent, while its receiver, who has logged out, is listed again.
\<close>

theorem unlocked_requests_misbehave:
  "(\<exists>f. fine_reachable order (\<lambda>_. True) fine_start f \<and> races f)
    \<and> (\<exists>f. fine_reachable order (\<lambda>_. True) fine_start f \<and> (\<forall>s. f_acts f s = [])
        \<and> fst (client_receive order' (replicate 4 NUL) (Bytes (bytes_to 4 (f_server f)) # es)) = Shown [])
    \<and> (\<exists>f. fine_reachable order (\<lambda>_. True) fine_start f \<and> client_mapp (f_server f) = [(''ann'', 0)]
        \<and> bytes_to 0 (f_server f) = frame_of order ''Direct message from sender: hi''
        \<and> bytes_to 5 (f_server f) = frame_of order ''Direct message sent successfully.'')"
proof (intro conjI)
  have all: "fine_reachable order (\<lambda>_. True) fine_start f" if "schedule order cs fine_start = Some f" for cs f
  proof (rule schedule_reaches [OF that _ start_reachable])
    have "sends_only (\<lambda>_. True) c" for c by (cases c) (simp_all add: list_all_iff)
    then show "list_all (sends_only (\<lambda>_. True)) cs" by (simp add: list_all_iff)
  qed
  show "\<exists>f. fine_reachable order (\<lambda>_. True) fine_start f \<and> races f"
    using all racing_races by blast
  obtain f where f: "schedule order garbling fine_start = Some f" "\<forall>s. f_acts f s = []"
    and b: "bytes_to 4 (f_server f) = concat [frame_head order ''Login successful.'',
      frame_head order ''Broadcast: hi'', ''Login successful.'', ''Broadcast: hi'']"
    using garbling_garbles by blast
  have "fst (client_receive order' (replicate 4 NUL) (Bytes (bytes_to 4 (f_server f)) # es)) = Shown []"
    unfolding b by (rule conjunct2 [OF interleaved_sends_garble]) (simp_all add: sendable_def)
  then show "\<exists>f. fine_reachable order (\<lambda>_. True) fine_start f \<and> (\<forall>s. f_acts f s = [])
      \<and> fst (client_receive order' (replicate 4 NUL) (Bytes (bytes_to 4 (f_server f)) # es)) = Shown []"
    using all [OF f(1)] f(2) by blast
  show "\<exists>f. fine_reachable order (\<lambda>_. True) fine_start f \<and> client_mapp (f_server f) = [(''ann'', 0)]
      \<and> bytes_to 0 (f_server f) = frame_of order ''Direct message from sender: hi''
      \<and> bytes_to 5 (f_server f) = frame_of order ''Direct message sent successfully.''"
    using all losing_loses by blast
qed

end
