(* ===== verification/Echo_Net.thy ===== *)
theory Echo_Net
  imports Wire
begin

text \<open>
  What the echo servers of \<^verbatim>\<open>socket_prog/\<close> share: the system calls they make on a world of
  connections, the locale \<^verbatim>\<open>echo_service\<close> of serving one client once, and the round in
  which a server visits its clients.
\<close>

section \<open>System calls\<close>

text \<open>
  A descriptor that was closed may be given to a later connection. A connection is therefore
  a descriptor together with how often \<^verbatim>\<open>accept\<close> had returned this descriptor by then.
\<close>

type_synonym conn = "int \<times> nat"

text \<open>
  The world of a server: what each connection still delivers, the descriptors that the coming
  calls of \<^verbatim>\<open>accept\<close> may return (-1 for a failure, and when there are no more), the open
  descriptors, how often each was returned by \<^verbatim>\<open>accept\<close>, everything sent and closed, and
  the lines printed on \<^verbatim>\<open>cout\<close> (those of \<^verbatim>\<open>perror\<close> are left out).
\<close>

record world =
  conns :: "conn \<Rightarrow> incoming"
  accepts :: "int list"
  open_fds :: "int set"
  uses :: "int \<Rightarrow> nat"
  sent_log :: "(conn \<times> string) list"
  closed_log :: "conn list"
  screen :: "string list"

text \<open>The connection that a descriptor stands for now, and what it still delivers.\<close>

definition conn_of :: "world \<Rightarrow> int \<Rightarrow> conn" where
  "conn_of w fd = (fd, uses w fd)"

abbreviation arriving :: "world \<Rightarrow> int \<Rightarrow> incoming" where
  "arriving w fd \<equiv> conns w (conn_of w fd)"

lemma conn_of_eq [simp]: "conn_of w fd = conn_of w fd' \<longleftrightarrow> fd = fd'"
  by (auto simp: conn_of_def)

lemma conn_of_cong: "uses w = uses w' \<Longrightarrow> conn_of w fd = conn_of w' fd"
  by (simp add: conn_of_def)

definition sys_recv :: "nat \<Rightarrow> int \<Rightarrow> world \<Rightarrow> string option \<times> world" where
  "sys_recv n fd w =
     (let (r, es) = sock_recv n (arriving w fd) in (r, w\<lparr>conns := (conns w)(conn_of w fd := es)\<rparr>))"

definition sys_send :: "int \<Rightarrow> string \<Rightarrow> world \<Rightarrow> world" where
  "sys_send fd bs w = w\<lparr>sent_log := sent_log w @ [(conn_of w fd, bs)]\<rparr>"

definition sys_close :: "int \<Rightarrow> world \<Rightarrow> world" where
  "sys_close fd w = w\<lparr>closed_log := closed_log w @ [conn_of w fd], open_fds := open_fds w - {fd}\<rparr>"

text \<open>\<^verbatim>\<open>accept\<close> never returns a descriptor that is open; to offer one counts as a failing call.\<close>

definition sys_accept :: "world \<Rightarrow> int \<times> world" where
  "sys_accept w =
     (case accepts w of
        [] \<Rightarrow> (- 1, w)
      | r # rs \<Rightarrow>
          if r < 0 \<or> r \<in> open_fds w then (- 1, w\<lparr>accepts := rs\<rparr>)
          else (r, w\<lparr>accepts := rs, open_fds := insert r (open_fds w), uses := (uses w)(r := Suc (uses w r))\<rparr>))"

text \<open>What the next call is offered.\<close>

definition offered :: "world \<Rightarrow> int" where
  "offered w = (case accepts w of [] \<Rightarrow> - 1 | r # rs \<Rightarrow> r)"

definition say :: "string \<Rightarrow> world \<Rightarrow> world" where
  "say line w = w\<lparr>screen := screen w @ [line]\<rparr>"

definition num :: "int \<Rightarrow> string" where
  "num fd = (if fd < 0 then CHR ''-'' # dec (nat (- fd)) else dec (nat fd))"

text \<open>Branching on a result of \<^verbatim>\<open>recv\<close>: not positive, or some bytes.\<close>

definition on_recv :: "string option \<Rightarrow> 'a \<Rightarrow> (string \<Rightarrow> 'a) \<Rightarrow> 'a" where
  "on_recv r gone data = (case r of None \<Rightarrow> gone | Some bs \<Rightarrow> if bs = [] then gone else data bs)"

lemma on_recv_simps [simp]:
  "on_recv None g d = g"
  "on_recv (Some []) g d = g"
  "bs \<noteq> [] \<Longrightarrow> on_recv (Some bs) g d = d bs"
  by (simp_all add: on_recv_def)

named_theorems call_defs

lemmas sys_calls [call_defs] = sys_recv_def sys_send_def sys_close_def sys_accept_def say_def

section \<open>Serving one client once\<close>

text \<open>Whether a connection has bytes for a \<^verbatim>\<open>recv\<close> of \<open>n\<close> bytes, and which.\<close>

definition alive :: "nat \<Rightarrow> incoming \<Rightarrow> bool" where
  "alive n es = on_recv (fst (sock_recv n es)) False (\<lambda>_. True)"

definition piece :: "nat \<Rightarrow> incoming \<Rightarrow> string" where
  "piece n es = on_recv (fst (sock_recv n es)) [] (\<lambda>bs. bs)"

text \<open>The echo of one \<^verbatim>\<open>recv\<close>, or closing the connection; nothing is printed.\<close>

definition echo :: "nat \<Rightarrow> int \<Rightarrow> world \<Rightarrow> world" where
  "echo n fd w =
     (let (r, w1) = sys_recv n fd w in on_recv r (sys_close fd w1) (\<lambda>bs. sys_send fd bs w1))"

text \<open>The world but for what was printed.\<close>

definition quiet :: "world \<Rightarrow> world" where
  "quiet w = w\<lparr>screen := []\<rparr>"

definition bytes_sent :: "conn \<Rightarrow> world \<Rightarrow> string" where
  "bytes_sent c w = concat (map snd (filter (\<lambda>e. fst e = c) (sent_log w)))"

lemma quiet_say [simp]: "quiet (say l w) = quiet w"
  by (simp add: quiet_def say_def)

lemma quietD:
  assumes "quiet w = quiet w'"
  shows "conns w = conns w'" and "accepts w = accepts w'" and "closed_log w = closed_log w'"
    and "sent_log w = sent_log w'" and "bytes_sent c w = bytes_sent c w'"
    and "uses w = uses w'" and "open_fds w = open_fds w'"
  using assms by (cases w; cases w'; simp add: quiet_def bytes_sent_def)+

lemma sock_recv_cases:
  obtains (gone) r es' where "sock_recv n es = (r, es')" "r = None \<or> r = Some []"
  | (data) bs es' where "sock_recv n es = (Some bs, es')" "bs \<noteq> []"
  by (cases "sock_recv n es") (metis option.exhaust)

lemma echo_effect:
  "conns (echo n fd w) = (conns w)(conn_of w fd := snd (sock_recv n (arriving w fd)))"
  "accepts (echo n fd w) = accepts w"
  "uses (echo n fd w) = uses w"
  "open_fds (echo n fd w) = (if alive n (arriving w fd) then open_fds w else open_fds w - {fd})"
  "closed_log (echo n fd w) = closed_log w @ (if alive n (arriving w fd) then [] else [conn_of w fd])"
  "bytes_sent c (echo n fd w) = bytes_sent c w @ (if c = conn_of w fd then piece n (arriving w fd) else [])"
  by (cases rule: sock_recv_cases [of n "arriving w fd"];
      auto simp: echo_def call_defs alive_def piece_def bytes_sent_def conn_of_def)+

locale echo_service =
  fixes bufsize :: nat
    and service :: "int \<Rightarrow> world \<Rightarrow> bool \<times> world"
  assumes service_alive: "fst (service fd w) = alive bufsize (arriving w fd)"
    and service_echo: "quiet (snd (service fd w)) = quiet (echo bufsize fd w)"
begin

lemma service_effect:
  "conns (snd (service fd w)) = (conns w)(conn_of w fd := snd (sock_recv bufsize (arriving w fd)))"
  "accepts (snd (service fd w)) = accepts w"
  "uses (snd (service fd w)) = uses w"
  "open_fds (snd (service fd w)) = (if alive bufsize (arriving w fd) then open_fds w else open_fds w - {fd})"
  "closed_log (snd (service fd w)) = closed_log w @ (if alive bufsize (arriving w fd) then [] else [conn_of w fd])"
  "bytes_sent c (snd (service fd w)) = bytes_sent c w @ (if c = conn_of w fd then piece bufsize (arriving w fd) else [])"
  using quietD [OF service_echo [of fd w]] by (simp_all add: echo_effect)

end

section \<open>A round over the clients\<close>

text \<open>
  Each ready descriptor is served once, in order; the ones that are kept, and the world.
\<close>

fun serve_list ::
  "(int \<Rightarrow> world \<Rightarrow> bool \<times> world) \<Rightarrow> (int \<Rightarrow> bool) \<Rightarrow> int list \<Rightarrow> world \<Rightarrow> int list \<times> world" where
  "serve_list service ready [] w = ([], w)"
| "serve_list service ready (fd # fds) w =
     (if ready fd
      then
        let (ok, w1) = service fd w;
            (kept, w2) = serve_list service ready fds w1
        in (if ok then fd # kept else kept, w2)
      else
        let (kept, w2) = serve_list service ready fds w in (fd # kept, w2))"

section \<open>What a server does to its clients\<close>

text \<open>
  From \<open>w\<close> to \<open>w'\<close> exactly the connections in \<open>S\<close> have been served, each once: its next
  bytes were received and sent back, or it was closed.
\<close>

definition echoed :: "nat \<Rightarrow> conn set \<Rightarrow> world \<Rightarrow> world \<Rightarrow> bool" where
  "echoed n S w w' \<longleftrightarrow>
     (\<forall>c. bytes_sent c w' = bytes_sent c w @ (if c \<in> S then piece n (conns w c) else [])
       \<and> conns w' c = (if c \<in> S then snd (sock_recv n (conns w c)) else conns w c)
       \<and> count_list (closed_log w') c = count_list (closed_log w) c
           + (if c \<in> S \<and> \<not> alive n (conns w c) then 1 else 0))"

lemma echoed_refl [simp]: "echoed n {} w w"
  by (simp add: echoed_def)

lemma echoed_trans:
  assumes "echoed n S w w'" and "echoed n T w' w''" and "S \<inter> T = {}"
  shows "echoed n (S \<union> T) w w''"
  unfolding echoed_def
proof
  fix c
  have "c \<notin> S \<or> c \<notin> T"
    using assms(3) by blast
  then show "bytes_sent c w'' = bytes_sent c w @ (if c \<in> S \<union> T then piece n (conns w c) else [])
      \<and> conns w'' c = (if c \<in> S \<union> T then snd (sock_recv n (conns w c)) else conns w c)
      \<and> count_list (closed_log w'') c = count_list (closed_log w) c
          + (if c \<in> S \<union> T \<and> \<not> alive n (conns w c) then 1 else 0)"
    using spec [OF assms(1) [unfolded echoed_def], of c] spec [OF assms(2) [unfolded echoed_def], of c]
    by (cases "c \<in> S"; cases "c \<in> T"; simp)
qed

lemma echoed_conns: "echoed n S w w' \<Longrightarrow> c \<notin> S \<Longrightarrow> conns w' c = conns w c"
  unfolding echoed_def by (drule spec [of _ c]) simp

lemma echoed_silent:
  "conns w' = conns w \<Longrightarrow> sent_log w' = sent_log w \<Longrightarrow> closed_log w' = closed_log w \<Longrightarrow> echoed n {} w w'"
  by (simp add: echoed_def bytes_sent_def)

lemma echoed_say [simp]: "echoed n {} w (say l w)"
  by (rule echoed_silent) (simp_all add: say_def)

lemma say_fields [simp]:
  "accepts (say l w) = accepts w" "conns (say l w) = conns w" "uses (say l w) = uses w"
  "open_fds (say l w) = open_fds w" "conn_of (say l w) = conn_of w"
  by (simp_all add: say_def conn_of_def fun_eq_iff)

lemma accept_effect:
  "echoed n {} w (snd (sys_accept w))"
  "accepts (snd (sys_accept w)) = tl (accepts w)"
  "conns (snd (sys_accept w)) = conns w" "sent_log (snd (sys_accept w)) = sent_log w"
  "closed_log (snd (sys_accept w)) = closed_log w"
  "uses (snd (sys_accept w)) = (if 0 \<le> fst (sys_accept w)
     then (uses w)(fst (sys_accept w) := Suc (uses w (fst (sys_accept w)))) else uses w)"
  "open_fds (snd (sys_accept w)) = (if 0 \<le> fst (sys_accept w)
     then insert (fst (sys_accept w)) (open_fds w) else open_fds w)"
  by (cases "accepts w"; simp add: sys_accept_def echoed_silent)+

lemma accept_result:
  "fst (sys_accept w) = (if offered w < 0 \<or> offered w \<in> open_fds w then - 1 else offered w)"
  by (simp add: sys_accept_def offered_def split: list.split)

lemma accepted_fresh: "0 \<le> fst (sys_accept w) \<Longrightarrow> fst (sys_accept w) \<notin> open_fds w"
  by (simp add: accept_result split: if_splits)

lemma accepted_offered: "0 \<le> fst (sys_accept w) \<Longrightarrow> fst (sys_accept w) \<in> set (accepts w)"
  by (cases "accepts w") (auto simp: accept_result offered_def split: if_splits)

lemma accept_conn_of:
  "(0 \<le> fst (sys_accept w) \<Longrightarrow> fst (sys_accept w) \<noteq> fd) \<Longrightarrow> conn_of (snd (sys_accept w)) fd = conn_of w fd"
  by (auto simp: conn_of_def accept_effect)

context echo_service
begin

lemma service_echoed: "echoed bufsize {conn_of w fd} w (snd (service fd w))"
  by (simp add: echoed_def service_effect)

lemma service_conn_of [simp]: "conn_of (snd (service fd w)) = conn_of w"
  by (simp add: fun_eq_iff conn_of_def service_effect)

lemma serve_list_effect:
  "distinct fds \<Longrightarrow>
     fst (serve_list service ready fds w) = filter (\<lambda>fd. ready fd \<longrightarrow> alive bufsize (arriving w fd)) fds
   \<and> echoed bufsize (conn_of w ` {fd \<in> set fds. ready fd}) w (snd (serve_list service ready fds w))
   \<and> accepts (snd (serve_list service ready fds w)) = accepts w
   \<and> uses (snd (serve_list service ready fds w)) = uses w"
proof (induction fds arbitrary: w)
  case Nil
  then show ?case by simp
next
  case (Cons fd fds)
  show ?case
  proof (cases "ready fd")
    case False
    moreover have "{c \<in> set (fd # fds). ready c} = {c \<in> set fds. ready c}"
      using False by auto
    ultimately show ?thesis
      using Cons by (simp add: split_beta Let_def)
  next
    case True
    let ?w1 = "snd (service fd w)"
    have IH: "fst (serve_list service ready fds ?w1) = filter (\<lambda>fd. ready fd \<longrightarrow> alive bufsize (arriving ?w1 fd)) fds"
      "echoed bufsize (conn_of ?w1 ` {fd \<in> set fds. ready fd}) ?w1 (snd (serve_list service ready fds ?w1))"
      "accepts (snd (serve_list service ready fds ?w1)) = accepts ?w1"
      "uses (snd (serve_list service ready fds ?w1)) = uses ?w1"
      using Cons.IH [of ?w1] Cons.prems by auto
    have other: "arriving ?w1 c = arriving w c" if "c \<in> set fds" for c
      using that Cons.prems by (auto simp: service_effect)
    have "filter (\<lambda>fd. ready fd \<longrightarrow> alive bufsize (arriving ?w1 fd)) fds
        = filter (\<lambda>fd. ready fd \<longrightarrow> alive bufsize (arriving w fd)) fds"
      by (rule filter_cong) (simp_all only: other)
    moreover have "echoed bufsize ({conn_of w fd} \<union> conn_of w ` {fd \<in> set fds. ready fd}) w (snd (serve_list service ready fds ?w1))"
      using Cons.prems IH(2) by (intro echoed_trans [OF service_echoed]) auto
    moreover have "{c \<in> set (fd # fds). ready c} = insert fd {c \<in> set fds. ready c}"
      using True by auto
    moreover have "serve_list service ready (fd # fds) w
        = (if fst (service fd w) then fd # fst (serve_list service ready fds ?w1)
           else fst (serve_list service ready fds ?w1), snd (serve_list service ready fds ?w1))"
      using True by (simp add: split_beta Let_def)
    ultimately show ?thesis
      using IH(1,3,4) True by (simp add: service_alive service_effect(2,3))
  qed
qed

end

text \<open>
  A round of a server: the clients that are left, the accepted one behind them (\<open>ok\<close> says
  which results of \<^verbatim>\<open>accept\<close> the program takes), and what was done to the world.
\<close>

definition correct_round ::
  "nat \<Rightarrow> (int \<Rightarrow> bool) \<Rightarrow> int \<Rightarrow> (int \<Rightarrow> bool) \<Rightarrow> int list \<Rightarrow> world \<Rightarrow> int list \<Rightarrow> world \<Rightarrow> bool" where
  "correct_round n ok listener ready clients w clients' w' \<longleftrightarrow>
     clients' = filter (\<lambda>fd. ready fd \<longrightarrow> alive n (arriving w fd)) clients
       @ (if ready listener \<and> ok (fst (sys_accept w)) then [fst (sys_accept w)] else [])
   \<and> echoed n (conn_of w ` {fd \<in> set clients. ready fd}) w w'
   \<and> accepts w' = accepts (if ready listener then snd (sys_accept w) else w)
   \<and> uses w' = uses (if ready listener then snd (sys_accept w) else w)"

section \<open>Step by step\<close>

text \<open>
  What every echo server does is a sequence of such steps, seen at its list of connected
  clients and at the world (but for what it prints): it accepts a connection, or serves one
  client, which leaves the list when it has gone.
\<close>

inductive net_step :: "nat \<Rightarrow> int list \<times> world \<Rightarrow> int list \<times> world \<Rightarrow> bool" for n where
  N_accept: "quiet w' = quiet (snd (sys_accept w)) \<Longrightarrow>
    clients' = clients @ (if 0 \<le> fst (sys_accept w) then [fst (sys_accept w)] else []) \<Longrightarrow>
    net_step n (clients, w) (clients', w')"
| N_serve: "fd \<in> set clients \<Longrightarrow> quiet w' = quiet (echo n fd w) \<Longrightarrow>
    clients' = (if alive n (arriving w fd) then clients else removeAll fd clients) \<Longrightarrow>
    net_step n (clients, w) (clients', w')"

abbreviation net_steps :: "nat \<Rightarrow> int list \<times> world \<Rightarrow> int list \<times> world \<Rightarrow> bool" where
  "net_steps n \<equiv> (net_step n)\<^sup>*\<^sup>*"

text \<open>
  The clients are open and listed once; so are the descriptors in \<open>base\<close>, which were open
  from the start and are no clients.
\<close>

definition sound :: "int set \<Rightarrow> int list \<Rightarrow> world \<Rightarrow> bool" where
  "sound base clients w \<longleftrightarrow> distinct clients \<and> set clients \<subseteq> open_fds w \<and> base \<subseteq> open_fds w
     \<and> base \<inter> set clients = {} \<and> (\<forall>fd \<in> base. uses w fd = 0)"

text \<open>No descriptor is beyond an \<^verbatim>\<open>fd_set\<close>.\<close>

abbreviation FD_SETSIZE :: int where "FD_SETSIZE \<equiv> 1024"

definition in_range :: "int list \<Rightarrow> world \<Rightarrow> bool" where
  "in_range clients w \<longleftrightarrow> (\<forall>fd \<in> set clients \<union> set (accepts w). fd < FD_SETSIZE)"

lemma quiet_arriving: "quiet w = quiet w' \<Longrightarrow> conn_of w = conn_of w'"
  using quietD(6) [of w w'] by (simp add: conn_of_def fun_eq_iff)

lemma set_tlD: "x \<in> set (tl xs) \<Longrightarrow> x \<in> set xs"
  by (cases xs) simp_all

lemma sound_step:
  assumes "net_step n (clients, w) (clients', w')" and "sound base clients w"
  shows "sound base clients' w'"
  using assms(1)
proof cases
  case N_accept
  note q = quietD [OF N_accept(1)]
  show ?thesis
    using assms(2) accepted_fresh [of w] N_accept(2)
    by (cases "0 \<le> fst (sys_accept w)") (auto simp: sound_def q accept_effect)
next
  case (N_serve fd)
  note q = quietD [OF N_serve(2)]
  show ?thesis
    using assms(2) N_serve(1,3) by (auto simp: sound_def q echo_effect distinct_removeAll)
qed

lemma in_range_step:
  assumes "net_step n (clients, w) (clients', w')" and "in_range clients w"
  shows "in_range clients' w'"
  using assms(1)
proof cases
  case N_accept
  note q = quietD [OF N_accept(1)]
  show ?thesis
    using assms(2) accepted_offered [of w] N_accept(2)
    by (cases "0 \<le> fst (sys_accept w)") (auto simp: in_range_def q accept_effect dest: set_tlD)
next
  case (N_serve fd)
  note q = quietD [OF N_serve(2)]
  show ?thesis
    using assms(2) N_serve(1,3) by (auto simp: in_range_def q echo_effect)
qed

lemma in_range_steps: "net_steps n (clients, w) (clients', w') \<Longrightarrow> in_range clients w \<Longrightarrow> in_range clients' w'"
  by (induction rule: rtranclp_induct2) (auto intro: in_range_step)

lemma sound_steps: "net_steps n (clients, w) (clients', w') \<Longrightarrow> sound base clients w \<Longrightarrow> sound base clients' w'"
  by (induction rule: rtranclp_induct2) (auto intro: sound_step)

context echo_service
begin

lemma service_step:
  "fd \<in> set clients \<Longrightarrow>
    net_step bufsize (clients, w) (if fst (service fd w) then clients else removeAll fd clients, snd (service fd w))"
  by (rule N_serve) (simp_all add: service_echo service_alive)

text \<open>A walk over some of the clients.\<close>

lemma serve_list_steps:
  "distinct (before @ fds @ rest) \<Longrightarrow>
    net_steps bufsize (before @ fds @ rest, w)
      (before @ fst (serve_list service ready fds w) @ rest, snd (serve_list service ready fds w))"
proof (induction fds arbitrary: before w)
  case (Cons fd fds)
  show ?case
  proof (cases "ready fd")
    case False
    then show ?thesis
      using Cons.IH [of "before @ [fd]" w] Cons.prems by (simp add: split_beta Let_def)
  next
    case True
    let ?w1 = "snd (service fd w)"
    have rem: "removeAll fd (before @ (fd # fds) @ rest) = before @ fds @ rest"
      using Cons.prems by (simp add: removeAll_id)
    have "fd \<in> set (before @ (fd # fds) @ rest)" by simp
    from service_step [OF this, of w] have step: "net_step bufsize (before @ (fd # fds) @ rest, w)
        (if fst (service fd w) then before @ (fd # fds) @ rest else before @ fds @ rest, ?w1)"
      unfolding rem .
    have "net_steps bufsize (if fst (service fd w) then before @ (fd # fds) @ rest else before @ fds @ rest, ?w1)
        (before @ (if fst (service fd w) then [fd] else []) @ fst (serve_list service ready fds ?w1) @ rest,
         snd (serve_list service ready fds ?w1))"
      using Cons.IH [of "before @ [fd]" ?w1] Cons.IH [of before ?w1] Cons.prems by auto
    with step show ?thesis
      using True by (auto simp: split_beta Let_def intro: converse_rtranclp_into_rtranclp)
  qed
qed simp

end

end
