(* ===== verification/Echo_Servers.thy ===== *)
theory Echo_Servers
  imports Echo_Net
begin

text \<open>
  The echo servers of \<^verbatim>\<open>socket_prog/\<close> with \<^verbatim>\<open>poll\<close>, \<^verbatim>\<open>select\<close>, \<^verbatim>\<open>epoll\<close> and one thread per
  client, and the steps that lead to them. Which descriptors are ready is an input.
\<close>

unbundle bit_operations_syntax

section \<open>Starting\<close>

text \<open>
  \<^verbatim>\<open>socket\<close>, \<^verbatim>\<open>bind\<close>, \<^verbatim>\<open>listen\<close>: the first call whose result is bad is reported, and the
  programs that \<open>tidy\<close> up close the socket then.
\<close>

definition start_up :: "bool \<Rightarrow> (int \<Rightarrow> bool) \<Rightarrow> int \<Rightarrow> int \<Rightarrow> int \<Rightarrow> string \<times> int list + int" where
  "start_up tidy bad socket_result bind_result listen_result =
     (if bad socket_result then Inl (''socket'', [])
      else if bad bind_result then Inl (''bind'', if tidy then [socket_result] else [])
      else if bad listen_result then Inl (''listen'', if tidy then [socket_result] else [])
      else Inr socket_result)"

section \<open>poll\<close>

definition poll_client :: "int \<Rightarrow> world \<Rightarrow> bool \<times> world" where
  "poll_client fd w =
     (let (r, w1) = sys_recv 1024 fd w in
      on_recv r
        (False, sys_close fd (say (''Client FD '' @ num fd @ '' disconnected.'' @ [NL]) w1))
        (\<lambda>bs. (True, sys_send fd bs w1)))"

text \<open>A \<^verbatim>\<open>pollfd\<close>: the descriptor, and whether \<^verbatim>\<open>POLLIN\<close> is set in its \<open>revents\<close>.\<close>

type_synonym pollfd = "int \<times> bool"

definition poll_accept :: "pollfd list \<Rightarrow> world \<Rightarrow> pollfd list \<times> world" where
  "poll_accept fds w =
     (let (client_fd, w1) = sys_accept w in
      if client_fd > 0
      then (fds @ [(client_fd, False)], say (''New client: FD = '' @ num client_fd @ [NL]) w1)
      else (fds, w1))"

lemma drop_at: "i < length xs \<Longrightarrow> drop i xs = xs ! i # drop (Suc i) xs"
  by (rule Cons_nth_drop_Suc [symmetric])

text \<open>
  The loop over the vector from index \<open>i\<close>. Erasing decrements the index before the loop
  increments it (from 0, through the largest \<^verbatim>\<open>size_t\<close>), so it stays.
\<close>

function poll_for :: "int \<Rightarrow> nat \<Rightarrow> pollfd list \<Rightarrow> world \<Rightarrow> pollfd list \<times> world" where
  "poll_for listener i fds w =
     (if i < length fds
      then
        if snd (fds ! i)
        then
          if fst (fds ! i) = listener
          then (let (fds', w') = poll_accept fds w in poll_for listener (Suc i) fds' w')
          else
            (let (connected, w') = poll_client (fst (fds ! i)) w in
             if connected then poll_for listener (Suc i) fds w'
             else poll_for listener i (take i fds @ drop (Suc i) fds) w')
        else poll_for listener (Suc i) fds w
      else (fds, w))"
  by pat_completeness auto

termination
proof (relation "measures [\<lambda>(listener, i, fds, w). length (filter snd (drop i fds)),
    \<lambda>(listener, i, fds, w). length fds - i]", goal_cases)
  case 1
  then show ?case by simp
next
  case (2 listener i fds w x fds' w')
  then show ?case
    by (auto simp: drop_at poll_accept_def split: prod.splits if_splits)
next
  case (3 listener i fds w x connected w')
  then show ?case by (simp add: drop_at)
next
  case (4 listener i fds w x connected w')
  then show ?case by (simp add: drop_at min_absorb2)
next
  case (5 listener i fds w)
  then show ?case by (simp add: drop_at)
qed

declare poll_for.simps [simp del]

text \<open>One iteration of the main loop after \<^verbatim>\<open>poll\<close> has filled in \<open>revents\<close>.\<close>

definition poll_round :: "int \<Rightarrow> (int \<Rightarrow> bool) \<Rightarrow> pollfd list \<Rightarrow> world \<Rightarrow> pollfd list \<times> world" where
  "poll_round listener ready fds w = poll_for listener 0 (map (\<lambda>(fd, _). (fd, ready fd)) fds) w"

text \<open>
  The main loop over the results of \<^verbatim>\<open>poll\<close>; a negative one (\<open>None\<close>) ends it and closes
  everything.
\<close>

fun poll_loop :: "int \<Rightarrow> (int \<Rightarrow> bool) option list \<Rightarrow> pollfd list \<Rightarrow> world \<Rightarrow> pollfd list \<times> world" where
  "poll_loop listener [] fds w = (fds, w)"
| "poll_loop listener (None # rs) fds w = ([], fold (\<lambda>(fd, _). sys_close fd) fds w)"
| "poll_loop listener (Some ready # rs) fds w =
     (let (fds', w') = poll_round listener ready fds w in poll_loop listener rs fds' w')"

section \<open>select\<close>

definition select_client :: "int \<Rightarrow> world \<Rightarrow> bool \<times> world" where
  "select_client fd w =
     (let (r, w1) = sys_recv 1023 fd w in
      on_recv r
        (False, sys_close fd (say (''Client disconnected: FD = '' @ num fd @ [NL]) w1))
        (\<lambda>bs. (True, sys_send fd bs
                 (say (''From FD '' @ num fd @ '': '' @ c_string (bs @ [NUL])) w1))))"

definition select_accept :: "int list \<Rightarrow> world \<Rightarrow> int list \<times> world" where
  "select_accept clients w =
     (let (new_fd, w1) = sys_accept w in
      if new_fd < 0 then (clients, w1)
      else (clients @ [new_fd], say (''New client: FD = '' @ num new_fd @ [NL]) w1))"

text \<open>The loop over the existing clients, which collects the disconnected ones.\<close>

fun select_clients :: "(int \<Rightarrow> bool) \<Rightarrow> int list \<Rightarrow> int list \<Rightarrow> world \<Rightarrow> int list \<times> world" where
  "select_clients read_fds [] disconnected w = (disconnected, w)"
| "select_clients read_fds (fd # fds) disconnected w =
     (if read_fds fd
      then
        let (connected, w') = select_client fd w
        in select_clients read_fds fds (if connected then disconnected else disconnected @ [fd]) w'
      else select_clients read_fds fds disconnected w)"

text \<open>
  One iteration. \<^verbatim>\<open>FD_SET\<close> and \<^verbatim>\<open>FD_ISSET\<close> on a descriptor of 1024 or more are undefined
  (\<open>None\<close>); \<^verbatim>\<open>select\<close> leaves the ready ones of the set.
\<close>

definition select_round ::
  "int \<Rightarrow> (int \<Rightarrow> bool) \<Rightarrow> int list \<Rightarrow> world \<Rightarrow> (int list \<times> world) option" where
  "select_round listener ready clients w =
     (if list_ex (\<lambda>fd. FD_SETSIZE \<le> fd) (listener # clients) then None
      else
        let read_fds = (\<lambda>fd. fd \<in> set (listener # clients) \<and> ready fd);
            (clients1, w1) = (if read_fds listener then select_accept clients w else (clients, w))
        in if list_ex (\<lambda>fd. FD_SETSIZE \<le> fd) clients1 then None
           else
             let (disconnected, w2) = select_clients read_fds clients1 [] w1
             in Some (fold removeAll disconnected clients1, w2))"

text \<open>
  The main loop over the results of \<^verbatim>\<open>select\<close>; a negative one ends it and closes everything.
\<close>

fun select_loop ::
  "int \<Rightarrow> (int \<Rightarrow> bool) option list \<Rightarrow> int list \<Rightarrow> world \<Rightarrow> (int list \<times> world) option" where
  "select_loop listener [] clients w = Some (clients, w)"
| "select_loop listener (None # rs) clients w = Some ([], fold sys_close (listener # clients) w)"
| "select_loop listener (Some ready # rs) clients w =
     (case select_round listener ready clients w of
        None \<Rightarrow> None
      | Some (clients', w') \<Rightarrow> select_loop listener rs clients' w')"

section \<open>epoll\<close>

text \<open>
  \<^verbatim>\<open>fcntl\<close> with the value it reads for the flags, the result of setting them, and the bit of
  \<^verbatim>\<open>O_NONBLOCK\<close>: the flags that are set, if any, and the result, which \<^verbatim>\<open>main\<close> ignores.
\<close>

definition make_socket_non_blocking ::
  "32 word \<Rightarrow> 32 word \<Rightarrow> 32 word \<Rightarrow> 32 word option \<times> 32 word" where
  "make_socket_non_blocking o_nonblock flags set_result =
     (if flags = - 1 then (None, - 1) else (Some (flags OR o_nonblock), set_result))"

lemma make_socket_non_blocking_keeps:
  "flags \<noteq> - 1 \<Longrightarrow> \<exists>new. fst (make_socket_non_blocking b flags r) = Some new
    \<and> (\<forall>n. bit new n \<longleftrightarrow> bit flags n \<or> bit b n)"
  by (simp add: make_socket_non_blocking_def bit_or_iff)

definition epoll_client :: "int \<Rightarrow> world \<Rightarrow> bool \<times> world" where
  "epoll_client fd w =
     (let (r, w1) = sys_recv 1024 fd w in
      on_recv r
        (False, sys_close fd (say (''Client disconnected: FD = '' @ num fd @ [NL]) w1))
        (\<lambda>bs. (True, sys_send fd bs w1)))"

definition epoll_accept :: "int list \<Rightarrow> world \<Rightarrow> int list \<times> world" where
  "epoll_accept interest w =
     (let (client_fd, w1) = sys_accept w in
      if client_fd \<noteq> - 1
      then (interest @ [client_fd], say (''New client connected. FD: '' @ num client_fd @ [NL]) w1)
      else (interest, w1))"

text \<open>
  The loop over the events. \<open>interest\<close> are the client sockets in the interest list of the
  kernel; closing a socket takes it out, so that the \<^verbatim>\<open>EPOLL_CTL_DEL\<close> that follows fails
  and changes nothing.
\<close>

fun epoll_events :: "int \<Rightarrow> int list \<Rightarrow> int list \<Rightarrow> world \<Rightarrow> int list \<times> world" where
  "epoll_events server_fd [] interest w = (interest, w)"
| "epoll_events server_fd (fd # events) interest w =
     (if fd = server_fd
      then (let (interest', w') = epoll_accept interest w in epoll_events server_fd events interest' w')
      else
        (let (connected, w') = epoll_client fd w
         in epoll_events server_fd events (if connected then interest else removeAll fd interest) w'))"

text \<open>The main loop; when \<^verbatim>\<open>epoll_wait\<close> fails the two descriptors are closed, the clients are not.\<close>

fun epoll_loop ::
  "int \<Rightarrow> int \<Rightarrow> int list option list \<Rightarrow> int list \<Rightarrow> world \<Rightarrow> int list \<times> world" where
  "epoll_loop server_fd epoll_fd [] interest w = (interest, w)"
| "epoll_loop server_fd epoll_fd (None # rs) interest w =
     (interest, sys_close epoll_fd (sys_close server_fd w))"
| "epoll_loop server_fd epoll_fd (Some events # rs) interest w =
     (let (interest', w') = epoll_events server_fd events interest w
      in epoll_loop server_fd epoll_fd rs interest' w')"

section \<open>One client per thread\<close>

definition thread_client :: "int \<Rightarrow> world \<Rightarrow> bool \<times> world" where
  "thread_client fd w =
     (let (r, w1) = sys_recv 1024 fd w in
      on_recv r (False, sys_close fd (say (''Client disconnected.'' @ [NL]) w1))
        (\<lambda>bs. (True, sys_send fd bs w1)))"

lemma conns_calls:
  "conns (snd (sys_recv n fd w)) = (conns w)(conn_of w fd := snd (sock_recv n (arriving w fd)))"
  "conns (sys_send fd bs w) = conns w" "conns (sys_close fd w) = conns w"
  "conn_of (snd (sys_recv n fd w)) = conn_of w" "conn_of (sys_send fd bs w) = conn_of w"
  "conn_of (sys_close fd w) = conn_of w"
  by (simp_all add: call_defs split_beta fun_eq_iff conn_of_def)

text \<open>The loop of a client's thread; every iteration consumes bytes.\<close>

lemma thread_client_decreases:
  assumes "thread_client fd w = (True, w')"
  shows "incoming_size (arriving w' fd) < incoming_size (arriving w fd)"
proof (cases rule: sock_recv_cases [of 1024 "arriving w fd"])
  case (gone r es')
  then show ?thesis
    using assms by (auto simp: thread_client_def sys_recv_def)
next
  case (data bs es')
  then have "arriving w' fd = es'"
    using assms by (auto simp: thread_client_def sys_recv_def sys_send_def conn_of_def)
  then show ?thesis
    using sock_recv_size_less [of 1024 "arriving w fd" bs] data by simp
qed

function echo_thread :: "int \<Rightarrow> world \<Rightarrow> world" where
  "echo_thread fd w =
     (case thread_client fd w of
        (True, w') \<Rightarrow> echo_thread fd w'
      | (False, w') \<Rightarrow> w')"
  by pat_completeness auto
termination
  by (relation "measure (\<lambda>(fd, w). incoming_size (arriving w fd))") (auto simp: thread_client_decreases)

declare echo_thread.simps [simp del]

text \<open>
  One pass of the accept loop, and one pass of the loop of the thread that serves \<open>fd\<close>;
  \<open>threads\<close> are the sockets whose threads have not ended.
\<close>

definition threaded_accept :: "int list \<Rightarrow> world \<Rightarrow> int list \<times> world" where
  "threaded_accept threads w =
     (let (client_fd, w1) = sys_accept w in
      if client_fd = - 1 then (threads, w1)
      else (threads @ [client_fd], say (''New client connected. FD: '' @ num client_fd @ [NL]) w1))"

definition thread_pass :: "int \<Rightarrow> int list \<Rightarrow> world \<Rightarrow> int list \<times> world" where
  "thread_pass fd threads w =
     (if fd \<in> set threads
      then
        let (connected, w') = thread_client fd w
        in (if connected then threads else removeAll fd threads, w')
      else (threads, w))"

text \<open>The accept loop and the threads are interleaved pass by pass.\<close>

datatype server_turn = Accepting | Passing int

fun threaded_run :: "server_turn list \<Rightarrow> int list \<Rightarrow> world \<Rightarrow> int list \<times> world" where
  "threaded_run [] threads w = (threads, w)"
| "threaded_run (t # turns) threads w =
     (let (threads', w') =
            (case t of Accepting \<Rightarrow> threaded_accept threads w | Passing fd \<Rightarrow> thread_pass fd threads w)
      in threaded_run turns threads' w')"

section \<open>The main functions\<close>

text \<open>
  Each \<^verbatim>\<open>main\<close> from the results of its first system calls on: the argument of \<^verbatim>\<open>perror\<close>
  with the descriptors closed, or what its loop makes of the world.
\<close>

definition poll_main ::
  "int \<Rightarrow> int \<Rightarrow> int \<Rightarrow> (int \<Rightarrow> bool) option list \<Rightarrow> world \<Rightarrow> string \<times> int list + pollfd list \<times> world" where
  "poll_main socket_result bind_result listen_result rs w =
     (case start_up False (\<lambda>r. r < 0) socket_result bind_result listen_result of
        Inl e \<Rightarrow> Inl e
      | Inr listener \<Rightarrow> Inr (poll_loop listener rs [(listener, False)]
          (say (''Listening with poll() on port 8080...'' @ [NL]) w)))"

definition select_main ::
  "int \<Rightarrow> int \<Rightarrow> int \<Rightarrow> (int \<Rightarrow> bool) option list \<Rightarrow> world \<Rightarrow>
     string \<times> int list + (int list \<times> world) option" where
  "select_main socket_result bind_result listen_result rs w =
     (case start_up True (\<lambda>r. r < 0) socket_result bind_result listen_result of
        Inl e \<Rightarrow> Inl e
      | Inr listener \<Rightarrow> Inr (select_loop listener rs [] (say (''Listening on port 8080...'' @ [NL]) w)))"

definition epoll_main ::
  "int \<Rightarrow> int \<Rightarrow> int \<Rightarrow> int \<Rightarrow> int \<Rightarrow> int list option list \<Rightarrow> world \<Rightarrow>
     string \<times> int list + int list \<times> world" where
  "epoll_main socket_result bind_result listen_result epoll_fd ctl_result rs w =
     (if socket_result = - 1 then Inl (''socket'', [])
      else if bind_result < 0 then Inl (''bind'', [])
      else if listen_result < 0 then Inl (''listen'', [])
      else if epoll_fd = - 1 then Inl (''epoll_create1'', [])
      else if ctl_result = - 1 then Inl (''epoll_ctl: listen_fd'', [])
      else Inr (epoll_loop socket_result epoll_fd rs []
        (say (''Server using epoll() on port 8080...'' @ [NL]) w)))"

definition threaded_main ::
  "int \<Rightarrow> int \<Rightarrow> int \<Rightarrow> server_turn list \<Rightarrow> world \<Rightarrow> string \<times> int list + int list \<times> world" where
  "threaded_main socket_result bind_result listen_result turns w =
     (case start_up True (\<lambda>r. r = - 1) socket_result bind_result listen_result of
        Inl e \<Rightarrow> Inl e
      | Inr server_fd \<Rightarrow> Inr (threaded_run turns [] (say (''Server listening on port 8080...'' @ [NL]) w)))"

section \<open>The steps\<close>

text \<open>
  The programs that only open and close sockets: the lines printed, those printed as an
  error (for \<^verbatim>\<open>perror\<close> its argument), the exit status, and the descriptors closed, in order.
\<close>

type_synonym report = "string list \<times> string list \<times> int \<times> int list"

definition step1 :: "int \<Rightarrow> report" where
  "step1 sockfd =
     (if sockfd = - 1 then ([], [''failed to create socket''], 1, [])
      else ([''Socket created. File descriptor : '' @ num sockfd], [], 0, [sockfd]))"

definition step2 :: "int \<Rightarrow> int \<Rightarrow> report" where
  "step2 sockfd bind_result =
     (if sockfd = - 1 then ([], [''socket''], 1, [])
      else if bind_result = - 1 then ([], [''bind''], 1, [sockfd])
      else ([''Socket bound to port 8080!''], [], 0, [sockfd]))"

definition step3 :: "int \<Rightarrow> int \<Rightarrow> int \<Rightarrow> int \<Rightarrow> report" where
  "step3 socket_result bind_result listen_result client_fd =
     (case start_up True (\<lambda>r. r = - 1) socket_result bind_result listen_result of
        Inl (call, closed) \<Rightarrow> ([], [call], 1, closed)
      | Inr server_fd \<Rightarrow>
          if client_fd = - 1 then ([''Server is listening on 8080''], [''accept''], 1, [server_fd])
          else
            ([''Server is listening on 8080'', ''Client connected! File descriptor: '' @ num client_fd], [], 0,
             [client_fd, server_fd]))"

text \<open>The last step: the loop that echoes one client, and why it ended (\<open>True\<close>: the peer closed).\<close>

function step4_loop :: "int \<Rightarrow> world \<Rightarrow> bool \<times> world" where
  "step4_loop fd w =
     (case sock_recv 1023 (arriving w fd) of
        (None, es) \<Rightarrow> (False, w\<lparr>conns := (conns w)(conn_of w fd := es)\<rparr>)
      | (Some bs, es) \<Rightarrow>
          if bs = [] then (True, w\<lparr>conns := (conns w)(conn_of w fd := es)\<rparr>)
          else step4_loop fd (sys_send fd bs
                 (say (''Received : '' @ c_string (bs @ [NUL]) @ [NL]) (w\<lparr>conns := (conns w)(conn_of w fd := es)\<rparr>))))"
  by pat_completeness auto
termination
proof (relation "measure (\<lambda>(fd, w). incoming_size (arriving w fd))", goal_cases)
  case 1
  then show ?case by simp
next
  case (2 fd w x es bs)
  then show ?case
    using sock_recv_size_less [of 1023 "arriving w fd" bs]
    by (cases "sock_recv 1023 (arriving w fd)") (simp add: sys_send_def say_def conn_of_def)
qed

declare step4_loop.simps [simp del]

definition step4 :: "int \<Rightarrow> int \<Rightarrow> int \<Rightarrow> int \<Rightarrow> world \<Rightarrow> string list \<times> int \<times> world" where
  "step4 socket_result bind_result listen_result client_fd w =
     (case start_up True (\<lambda>r. r = - 1) socket_result bind_result listen_result of
        Inl (call, closed) \<Rightarrow> ([call], 1, fold sys_close closed w)
      | Inr server_fd \<Rightarrow>
          let w1 = say (''Waiting for client...'' @ [NL]) w in
          if client_fd = - 1 then ([''accept''], 1, sys_close server_fd w1)
          else
            (let (peer_closed, w2) =
                   step4_loop client_fd (say (''Client connected. Receiving data...'' @ [NL]) w1);
                 w3 = (if peer_closed then say ([NL] @ ''Client disconnected.'' @ [NL]) w2 else w2)
             in (if peer_closed then [] else [''recv''], 0, sys_close server_fd (sys_close client_fd w3))))"

end
