(* ===== verification/Echo_Rounds.thy ===== *)
theory Echo_Rounds
  imports Echo_Servers
begin

text \<open>
  Correctness of the echo servers: every one of them serves a client as the contract
  \<^verbatim>\<open>echo_service\<close> says, the three event loops do the same to clients and connections in a
  round, and a client that has its own thread gets its whole stream back.
\<close>

section \<open>The servers serve a client\<close>

lemmas service_defs = echo_def alive_def call_defs quiet_def conn_of_def

interpretation poll: echo_service 1024 poll_client
proof
  show "fst (poll_client fd w) = alive 1024 (arriving w fd)" for fd w
    by (cases rule: sock_recv_cases [of 1024 "arriving w fd"]) (auto simp: poll_client_def service_defs)
  show "quiet (snd (poll_client fd w)) = quiet (echo 1024 fd w)" for fd w
    by (cases rule: sock_recv_cases [of 1024 "arriving w fd"]) (auto simp: poll_client_def service_defs)
qed

interpretation select: echo_service 1023 select_client
proof
  show "fst (select_client fd w) = alive 1023 (arriving w fd)" for fd w
    by (cases rule: sock_recv_cases [of 1023 "arriving w fd"]) (auto simp: select_client_def service_defs)
  show "quiet (snd (select_client fd w)) = quiet (echo 1023 fd w)" for fd w
    by (cases rule: sock_recv_cases [of 1023 "arriving w fd"]) (auto simp: select_client_def service_defs)
qed

interpretation epoll: echo_service 1024 epoll_client
proof
  show "fst (epoll_client fd w) = alive 1024 (arriving w fd)" for fd w
    by (cases rule: sock_recv_cases [of 1024 "arriving w fd"]) (auto simp: epoll_client_def service_defs)
  show "quiet (snd (epoll_client fd w)) = quiet (echo 1024 fd w)" for fd w
    by (cases rule: sock_recv_cases [of 1024 "arriving w fd"]) (auto simp: epoll_client_def service_defs)
qed

interpretation thread: echo_service 1024 thread_client
proof
  show "fst (thread_client fd w) = alive 1024 (arriving w fd)" for fd w
    by (cases rule: sock_recv_cases [of 1024 "arriving w fd"]) (auto simp: thread_client_def service_defs)
  show "quiet (snd (thread_client fd w)) = quiet (echo 1024 fd w)" for fd w
    by (cases rule: sock_recv_cases [of 1024 "arriving w fd"]) (auto simp: thread_client_def service_defs)
qed

section \<open>poll\<close>

abbreviation polled :: "(int \<Rightarrow> bool) \<Rightarrow> int list \<Rightarrow> pollfd list" where
  "polled ready \<equiv> map (\<lambda>fd. (fd, ready fd))"

lemma poll_for_rest:
  "\<forall>p \<in> set post. \<not> snd p \<Longrightarrow> poll_for listener (length pre) (pre @ post) w = (pre @ post, w)"
proof (induction post arbitrary: pre)
  case Nil
  then show ?case by (simp add: poll_for.simps)
next
  case (Cons p post)
  have "poll_for listener (length pre) (pre @ p # post) w = poll_for listener (length (pre @ [p])) ((pre @ [p]) @ post) w"
    using Cons.prems by (subst poll_for.simps) simp
  then show ?case
    using Cons.IH [of "pre @ [p]"] Cons.prems by simp
qed

lemma poll_for_clients:
  "listener \<notin> set fds \<Longrightarrow> \<forall>p \<in> set post. \<not> snd p \<Longrightarrow>
     poll_for listener (length pre) (pre @ polled ready fds @ post) w
     = (pre @ polled ready (fst (serve_list poll_client ready fds w)) @ post,
        snd (serve_list poll_client ready fds w))"
proof (induction fds arbitrary: pre w)
  case Nil
  then show ?case by (simp add: poll_for_rest)
next
  case (Cons fd fds)
  obtain ok w1 where c: "poll_client fd w = (ok, w1)" by fastforce
  have IH: "poll_for listener (length pre') (pre' @ polled ready fds @ post) v
      = (pre' @ polled ready (fst (serve_list poll_client ready fds v)) @ post,
         snd (serve_list poll_client ready fds v))" for pre' v
    using Cons.IH Cons.prems by simp
  let ?p = "pre @ [(fd, ready fd)]"
  have next_fd: "poll_for listener (Suc (length pre)) (pre @ (fd, ready fd) # polled ready fds @ post) v
      = (?p @ polled ready (fst (serve_list poll_client ready fds v)) @ post,
         snd (serve_list poll_client ready fds v))" for v
    using IH [of ?p v] by simp
  show ?case
  proof (cases "ready fd")
    case False
    then show ?thesis
      using next_fd [of w] by (subst poll_for.simps) (simp add: split_beta Let_def)
  next
    case True
    then show ?thesis
      using next_fd [of w1] IH [of pre w1] Cons.prems c
      by (subst poll_for.simps) (simp add: split_beta Let_def)
  qed
qed

lemma poll_round_clients:
  fixes ready :: "int \<Rightarrow> bool" and w :: world
  assumes "map fst fds = listener # clients" and "listener \<notin> set clients"
  defines "w1 \<equiv> if ready listener then snd (poll_accept [] w) else w"
    and "new \<equiv> if ready listener then fst (poll_accept [] w) else []"
  shows "poll_round listener ready fds w
    = ((listener, ready listener) # polled ready (fst (serve_list poll_client ready clients w1)) @ new,
       snd (serve_list poll_client ready clients w1))"
proof -
  have "map (\<lambda>(fd, _). (fd, ready fd)) fds = polled ready (map fst fds)"
    by (simp add: split_beta)
  then have fds: "map (\<lambda>(fd, _). (fd, ready fd)) fds = (listener, ready listener) # polled ready clients"
    using assms(1) by simp
  have post: "\<forall>p \<in> set new. \<not> snd p"
    by (auto simp: new_def poll_accept_def split_beta Let_def split: if_splits)
  have acc: "poll_accept xs w = (xs @ fst (poll_accept [] w), snd (poll_accept [] w))" for xs
    by (simp add: poll_accept_def split_beta Let_def)
  have "poll_round listener ready fds w
      = poll_for listener (length [(listener, ready listener)])
          ([(listener, ready listener)] @ polled ready clients @ new) w1"
    unfolding poll_round_def fds
    by (subst poll_for.simps) (simp add: acc [of "_ # _"] new_def w1_def)
  then show ?thesis
    using poll_for_clients [OF assms(2) post, of "[(listener, ready listener)]" ready w1] by simp
qed

lemma poll_accept_effect:
  "echoed n {} w (snd (poll_accept [] w))"
  "conns (snd (poll_accept [] w)) = conns w"
  "accepts (snd (poll_accept [] w)) = accepts (snd (sys_accept w))"
  "uses (snd (poll_accept [] w)) = uses (snd (sys_accept w))"
  "quiet (snd (poll_accept [] w)) = quiet (snd (sys_accept w))"
  "map fst (fst (poll_accept [] w)) = (if fst (sys_accept w) > 0 then [fst (sys_accept w)] else [])"
  using echoed_trans [OF accept_effect(1) echoed_say, of n w]
  by (simp_all add: poll_accept_def split_beta Let_def accept_effect)

text \<open>A descriptor other than the accepted one stands for the connection it stood for before.\<close>

lemma same_conns:
  assumes "uses w1 = uses (if accepting then snd (sys_accept w) else w)"
    and "0 \<le> fst (sys_accept w) \<Longrightarrow> fst (sys_accept w) \<notin> set clients" and "fd \<in> set clients"
  shows "conn_of w1 fd = conn_of w fd"
  using assms accept_conn_of [of w fd] by (cases accepting) (auto simp: conn_of_def)

lemma poll_round_correct:
  assumes "map fst fds = listener # clients" and "distinct (listener # clients)"
    and "0 \<le> fst (sys_accept w) \<Longrightarrow> fst (sys_accept w) \<notin> set clients"
  shows "\<exists>clients'. map fst (fst (poll_round listener ready fds w)) = listener # clients'
    \<and> correct_round 1024 (\<lambda>r. r > 0) listener ready clients w clients' (snd (poll_round listener ready fds w))"
proof -
  let ?w1 = "if ready listener then snd (poll_accept [] w) else w"
  have w1: "conns ?w1 = conns w" "echoed 1024 {} w ?w1"
    "accepts ?w1 = accepts (if ready listener then snd (sys_accept w) else w)"
    "uses ?w1 = uses (if ready listener then snd (sys_accept w) else w)"
    by (simp_all add: poll_accept_effect)
  have c: "conn_of ?w1 fd = conn_of w fd" if "fd \<in> set clients" for fd
    using same_conns [OF w1(4) assms(3) that] .
  note serve = poll.serve_list_effect [of clients ready ?w1]
  have img: "conn_of ?w1 ` {fd \<in> set clients. ready fd} = conn_of w ` {fd \<in> set clients. ready fd}"
    using c by (intro image_cong) auto
  have "echoed 1024 ({} \<union> conn_of w ` {fd \<in> set clients. ready fd}) w (snd (serve_list poll_client ready clients ?w1))"
    using serve assms(2) w1(2) by (intro echoed_trans [of _ _ _ ?w1]) (simp_all only: img distinct.simps simp_thms Int_empty_left)
  moreover have "fst (serve_list poll_client ready clients ?w1) = filter (\<lambda>fd. ready fd \<longrightarrow> alive 1024 (arriving w fd)) clients"
    using serve assms(2) c w1(1) by (simp cong: filter_cong)
  moreover have "accepts (snd (serve_list poll_client ready clients ?w1)) = accepts (if ready listener then snd (sys_accept w) else w)"
    "uses (snd (serve_list poll_client ready clients ?w1)) = uses (if ready listener then snd (sys_accept w) else w)"
    using serve assms(2) w1(3,4) by simp_all
  moreover have "map fst (if ready listener then fst (poll_accept [] w) else [])
      = (if ready listener \<and> fst (sys_accept w) > 0 then [fst (sys_accept w)] else [])"
    by (cases "ready listener") (simp_all only: poll_accept_effect if_True if_False simp_thms list.map)
  ultimately show ?thesis
    using poll_round_clients [OF assms(1), of ready w] assms(2)
    by (simp only: correct_round_def fst_conv snd_conv list.map map_append map_map comp_def map_ident distinct.simps
        Un_empty_left simp_thms) blast
qed

section \<open>select\<close>

lemma fold_removeAll: "fold removeAll ds xs = filter (\<lambda>x. x \<notin> set ds) xs"
proof (induction ds arbitrary: xs)
  case Nil
  then show ?case by simp
next
  case (Cons d ds)
  have "filter (\<lambda>x. x \<notin> set ds) (removeAll d xs) = filter (\<lambda>x. x \<notin> set (d # ds)) xs"
    unfolding removeAll_filter_not_eq filter_filter by (rule filter_cong) auto
  then show ?case by (simp add: Cons)
qed

lemma serve_list_subset: "set (fst (serve_list service ready fds w)) \<subseteq> set fds"
proof (induction fds arbitrary: w)
  case Nil
  then show ?case by simp
next
  case (Cons fd fds)
  then show ?case
    by (simp add: split_beta Let_def) (meson subset_insertI2)
qed

lemma select_clients_serve:
  "distinct fds \<Longrightarrow> select_clients read_fds fds disconnected w
     = (disconnected @ filter (\<lambda>fd. fd \<notin> set (fst (serve_list select_client read_fds fds w))) fds,
        snd (serve_list select_client read_fds fds w))"
proof (induction fds arbitrary: disconnected w)
  case Nil
  then show ?case by simp
next
  case (Cons fd fds)
  obtain ok w1 where c: "select_client fd w = (ok, w1)" by fastforce
  have out: "fd \<notin> set (fst (serve_list select_client read_fds fds v))" for v
    using serve_list_subset [of select_client read_fds fds v] Cons.prems by auto
  have rest: "filter (\<lambda>c. c \<notin> insert fd (set (fst (serve_list select_client read_fds fds v)))) fds
      = filter (\<lambda>c. c \<notin> set (fst (serve_list select_client read_fds fds v))) fds" for v
    using Cons.prems by (intro filter_cong) auto
  show ?case
    using Cons c out rest by (simp add: split_beta Let_def)
qed

lemma select_accept_effect:
  "echoed n {} w (snd (select_accept clients w))"
  "conns (snd (select_accept clients w)) = conns w"
  "accepts (snd (select_accept clients w)) = accepts (snd (sys_accept w))"
  "uses (snd (select_accept clients w)) = uses (snd (sys_accept w))"
  "quiet (snd (select_accept clients w)) = quiet (snd (sys_accept w))"
  "fst (select_accept clients w) = clients @ (if 0 \<le> fst (sys_accept w) then [fst (sys_accept w)] else [])"
  using echoed_trans [OF accept_effect(1) echoed_say, of n w]
  by (simp_all add: select_accept_def split_beta Let_def accept_effect)

lemma removed_are_kept:
  assumes "kept = filter P fds"
  shows "fold removeAll (filter (\<lambda>fd. fd \<notin> set kept) fds) fds = kept"
proof -
  have "fold removeAll (filter (\<lambda>fd. fd \<notin> set kept) fds) fds = filter (\<lambda>fd. fd \<in> set kept) fds"
    unfolding fold_removeAll by (rule filter_cong) auto
  also have "\<dots> = kept"
    unfolding assms by (rule filter_cong) auto
  finally show ?thesis .
qed

text \<open>The result of an iteration when every descriptor fits into the set.\<close>

lemma select_round_result:
  assumes "distinct (clients @ new)" and "\<forall>fd \<in> set (listener # clients @ new). fd < FD_SETSIZE"
    and "(if ready listener then select_accept clients w else (clients, w)) = (clients @ new, w1)"
  defines "read_fds \<equiv> (\<lambda>fd. fd \<in> set (listener # clients) \<and> ready fd)"
  shows "select_round listener ready clients w = Some (serve_list select_client read_fds (clients @ new) w1)"
proof -
  have small: "\<not> list_ex (\<lambda>fd. FD_SETSIZE \<le> fd) (listener # clients)"
    "\<not> list_ex (\<lambda>fd. FD_SETSIZE \<le> fd) (clients @ new)"
    using assms(2) by (simp_all add: list_ex_iff not_le ball_Un)
  have acc: "(if read_fds listener then select_accept clients w else (clients, w)) = (clients @ new, w1)"
    using assms(3) by (simp add: read_fds_def)
  note serve = select.serve_list_effect [OF assms(1), of read_fds w1]
  show ?thesis
    using small removed_are_kept [OF serve [THEN conjunct1]]
    unfolding select_round_def Let_def read_fds_def [symmetric]
    by (simp add: acc select_clients_serve [OF assms(1)])
qed

lemma select_round_correct:
  assumes "distinct (listener # clients)" and "\<forall>fd \<in> set (listener # clients). fd < FD_SETSIZE"
    and "0 \<le> fst (sys_accept w) \<Longrightarrow> fst (sys_accept w) \<notin> set (listener # clients)"
    and "fst (sys_accept w) < FD_SETSIZE"
  shows "\<exists>clients' w'. select_round listener ready clients w = Some (clients', w')
    \<and> correct_round 1023 (\<lambda>r. 0 \<le> r) listener ready clients w clients' w'"
proof -
  define read_fds where "read_fds = (\<lambda>fd. fd \<in> set (listener # clients) \<and> ready fd)"
  define new where "new = (if ready listener \<and> 0 \<le> fst (sys_accept w) then [fst (sys_accept w)] else [])"
  define w1 where "w1 = (if ready listener then snd (select_accept clients w) else w)"
  have acc: "(if ready listener then select_accept clients w else (clients, w)) = (clients @ new, w1)"
    using select_accept_effect(6) [of clients w] by (simp add: new_def w1_def prod_eq_iff)
  have w1: "conns w1 = conns w" "echoed 1023 {} w w1"
    "accepts w1 = accepts (if ready listener then snd (sys_accept w) else w)"
    "uses w1 = uses (if ready listener then snd (sys_accept w) else w)"
    by (simp_all add: w1_def select_accept_effect)
  have fresh: "fd \<notin> set (listener # clients)" if "fd \<in> set new" for fd
    using that assms(3) by (auto simp: new_def split: if_splits)
  have c: "conn_of w1 fd = conn_of w fd" if "fd \<in> set clients" for fd
    using same_conns [OF w1(4) _ that] assms(3) by simp
  have dist: "distinct (clients @ new)"
    using assms(1) fresh by (auto simp: new_def)
  note serve = select.serve_list_effect [OF dist, of read_fds w1]
  have new: "filter (\<lambda>fd. read_fds fd \<longrightarrow> alive 1023 (arriving w1 fd)) new = new"
    using fresh by (intro filter_True) (auto simp: read_fds_def)
  have old: "filter (\<lambda>fd. read_fds fd \<longrightarrow> alive 1023 (arriving w1 fd)) clients
      = filter (\<lambda>fd. ready fd \<longrightarrow> alive 1023 (arriving w fd)) clients"
    by (rule filter_cong) (auto simp: read_fds_def c w1(1))
  have set: "{fd \<in> set (clients @ new). read_fds fd} = {fd \<in> set clients. ready fd}"
    using fresh by (auto simp: read_fds_def)
  have img: "conn_of w1 ` {fd \<in> set (clients @ new). read_fds fd} = conn_of w ` {fd \<in> set clients. ready fd}"
    unfolding set using c by (intro image_cong) auto
  let ?kept = "fst (serve_list select_client read_fds (clients @ new) w1)"
  let ?w2 = "snd (serve_list select_client read_fds (clients @ new) w1)"
  have kept: "?kept = filter (\<lambda>fd. ready fd \<longrightarrow> alive 1023 (arriving w fd)) clients @ new"
    using serve by (simp only: filter_append new old)
  have res: "select_round listener ready clients w = Some (?kept, ?w2)"
    unfolding prod.collapse read_fds_def
    by (rule select_round_result [where new = new and ready = ready and listener = listener, OF dist _ acc]) (use assms(2,4) in \<open>auto simp: new_def\<close>)
  have new_if: "(if ready listener \<and> 0 \<le> fst (sys_accept w) then [fst (sys_accept w)] else []) = new"
    by (simp only: new_def)
  have acc2: "accepts ?w2 = accepts (if ready listener then snd (sys_accept w) else w)"
    "uses ?w2 = uses (if ready listener then snd (sys_accept w) else w)"
    using serve w1(3,4) by metis+
  have "echoed 1023 ({} \<union> conn_of w ` {fd \<in> set clients. ready fd}) w ?w2"
    using serve unfolding img by (intro echoed_trans [OF w1(2)]) simp_all
  then have "correct_round 1023 (\<lambda>r. 0 \<le> r) listener ready clients w ?kept ?w2"
    by (simp only: correct_round_def kept acc2 new_if Un_empty_left simp_thms)
  with res show ?thesis by blast
qed

section \<open>epoll\<close>

lemma epoll_events_append:
  "epoll_events server_fd (xs @ ys) interest w
     = (let (interest', w') = epoll_events server_fd xs interest w
        in epoll_events server_fd ys interest' w')"
  by (induction server_fd xs interest w rule: epoll_events.induct) (simp_all add: split_beta Let_def)

text \<open>Events of clients only.\<close>

lemma epoll_events_clients:
  "server_fd \<notin> set events \<Longrightarrow> distinct events \<Longrightarrow>
     fst (epoll_events server_fd events interest w)
       = filter (\<lambda>fd. fd \<in> set events \<longrightarrow> alive 1024 (arriving w fd)) interest
   \<and> echoed 1024 (conn_of w ` set events) w (snd (epoll_events server_fd events interest w))
   \<and> accepts (snd (epoll_events server_fd events interest w)) = accepts w
   \<and> uses (snd (epoll_events server_fd events interest w)) = uses w
   \<and> open_fds w - set events \<subseteq> open_fds (snd (epoll_events server_fd events interest w))
   \<and> open_fds (snd (epoll_events server_fd events interest w)) \<subseteq> open_fds w"
proof (induction events arbitrary: interest w)
  case Nil
  then show ?case by simp
next
  case (Cons fd events)
  let ?w1 = "snd (epoll_client fd w)"
  let ?i1 = "if alive 1024 (arriving w fd) then interest else removeAll fd interest"
  have other: "arriving ?w1 c = arriving w c" if "c \<noteq> fd" for c
    using that by (simp add: epoll.service_effect)
  have step: "epoll_events server_fd (fd # events) interest w = epoll_events server_fd events ?i1 ?w1"
    using Cons.prems(1) epoll.service_alive [of fd w] by (simp add: split_beta Let_def)
  have IH: "fst (epoll_events server_fd events ?i1 ?w1)
       = filter (\<lambda>fd. fd \<in> set events \<longrightarrow> alive 1024 (arriving ?w1 fd)) ?i1"
    "echoed 1024 (conn_of ?w1 ` set events) ?w1 (snd (epoll_events server_fd events ?i1 ?w1))"
    "accepts (snd (epoll_events server_fd events ?i1 ?w1)) = accepts ?w1"
    "uses (snd (epoll_events server_fd events ?i1 ?w1)) = uses ?w1"
    "open_fds ?w1 - set events \<subseteq> open_fds (snd (epoll_events server_fd events ?i1 ?w1))"
    "open_fds (snd (epoll_events server_fd events ?i1 ?w1)) \<subseteq> open_fds ?w1"
    using Cons.IH [of ?i1 ?w1] Cons.prems by auto
  have "filter (\<lambda>c. c \<in> set events \<longrightarrow> alive 1024 (arriving ?w1 c)) ?i1
      = filter (\<lambda>c. c \<in> set (fd # events) \<longrightarrow> alive 1024 (arriving w c)) interest"
  proof -
    have i1: "?i1 = filter (\<lambda>c. c = fd \<longrightarrow> alive 1024 (arriving w c)) interest"
      by (auto simp: removeAll_filter_not_eq intro!: filter_cong)
    have ne: "c \<noteq> fd" if "c \<in> set events" for c
      using that Cons.prems(2) by auto
    show ?thesis
      unfolding i1 filter_filter by (rule filter_cong) (use ne other in auto)
  qed
  moreover have "echoed 1024 ({conn_of w fd} \<union> conn_of w ` set events) w (snd (epoll_events server_fd events ?i1 ?w1))"
    using Cons.prems(2) IH(2) by (intro echoed_trans [OF epoll.service_echoed]) auto
  moreover have "open_fds w - set (fd # events) \<subseteq> open_fds (snd (epoll_events server_fd events ?i1 ?w1))"
    "open_fds (snd (epoll_events server_fd events ?i1 ?w1)) \<subseteq> open_fds w"
    using IH(5,6) by (auto simp: epoll.service_effect(4) split: if_splits)
  ultimately show ?case
    unfolding step using IH(1,3,4) by (simp add: epoll.service_effect(2,3))
qed

lemma epoll_accept_effect:
  "echoed n {} w (snd (epoll_accept interest w))"
  "conns (snd (epoll_accept interest w)) = conns w"
  "accepts (snd (epoll_accept interest w)) = accepts (snd (sys_accept w))"
  "uses (snd (epoll_accept interest w)) = uses (snd (sys_accept w))"
  "quiet (snd (epoll_accept interest w)) = quiet (snd (sys_accept w))"
  "fst (epoll_accept interest w) = interest @ (if fst (sys_accept w) \<noteq> - 1 then [fst (sys_accept w)] else [])"
  using echoed_trans [OF accept_effect(1) echoed_say, of n w]
  by (simp_all add: epoll_accept_def split_beta Let_def accept_effect)

text \<open>Serving \<open>xs\<close>, accepting, serving \<open>ys\<close> keeps the same clients as serving both from the start.\<close>

lemma kept_in_two_parts:
  assumes "set xs \<inter> set ys = {}" and "server_fd \<notin> set interest" and "\<forall>fd \<in> set new. fd \<notin> set ys"
    and "\<And>fd. fd \<in> set ys \<Longrightarrow> arriving w2 fd = arriving w fd"
  shows "filter (\<lambda>fd. fd \<in> set ys \<longrightarrow> alive n (arriving w2 fd))
      (filter (\<lambda>fd. fd \<in> set xs \<longrightarrow> alive n (arriving w fd)) interest @ new)
    = filter (\<lambda>fd. fd \<in> set (xs @ server_fd # ys) \<longrightarrow> alive n (arriving w fd)) interest @ new"
proof -
  have "server_fd \<noteq> fd" if "fd \<in> set interest" for fd
    using that assms(2) by auto
  then have "filter (\<lambda>fd. fd \<in> set ys \<longrightarrow> alive n (arriving w2 fd))
      (filter (\<lambda>fd. fd \<in> set xs \<longrightarrow> alive n (arriving w fd)) interest)
    = filter (\<lambda>fd. fd \<in> set (xs @ server_fd # ys) \<longrightarrow> alive n (arriving w fd)) interest"
    unfolding filter_filter using assms(4) by (intro filter_cong) auto
  moreover have "filter (\<lambda>fd. fd \<in> set ys \<longrightarrow> alive n (arriving w2 fd)) new = new"
    using assms(3) by simp
  ultimately show ?thesis by simp
qed

lemma epoll_round_no_accept:
  assumes "distinct events" and "set events \<subseteq> set interest" and "server_fd \<notin> set events"
  shows "correct_round 1024 (\<lambda>r. r \<noteq> - 1) server_fd (\<lambda>fd. fd \<in> set events) interest w
    (fst (epoll_events server_fd events interest w)) (snd (epoll_events server_fd events interest w))"
proof -
  have "{fd \<in> set interest. fd \<in> set events} = set events"
    using assms(2) by auto
  then show ?thesis
    using epoll_events_clients [OF assms(3,1), of interest w] assms(3) by (simp add: correct_round_def)
qed

text \<open>A call of \<^verbatim>\<open>accept\<close> behaves as before when only other descriptors were closed since.\<close>

lemma accept_later:
  assumes "accepts w1 = accepts w" and "uses w1 = uses w"
    and "open_fds w - F \<subseteq> open_fds w1" and "open_fds w1 \<subseteq> open_fds w" and "offered w \<notin> F"
  shows "fst (sys_accept w1) = fst (sys_accept w)" and "uses (snd (sys_accept w1)) = uses (snd (sys_accept w))"
proof -
  have o: "offered w1 = offered w"
    using assms(1) by (simp add: offered_def)
  have "offered w \<in> open_fds w1 \<longleftrightarrow> offered w \<in> open_fds w"
    using assms(3-5) by auto
  then show r: "fst (sys_accept w1) = fst (sys_accept w)"
    by (simp add: accept_result o)
  show "uses (snd (sys_accept w1)) = uses (snd (sys_accept w))"
    by (simp add: accept_effect r assms(2))
qed

lemma epoll_round_accept:
  assumes "distinct events" and "set events \<subseteq> set (server_fd # interest)" and "server_fd \<notin> set interest"
    and "offered w \<notin> set (server_fd # interest)"
    and "server_fd \<in> set events"
  shows "correct_round 1024 (\<lambda>r. r \<noteq> - 1) server_fd (\<lambda>fd. fd \<in> set events) interest w
    (fst (epoll_events server_fd events interest w)) (snd (epoll_events server_fd events interest w))"
proof -
  obtain xs ys where ev: "events = xs @ server_fd # ys"
    using assms(5) by (auto simp: in_set_conv_decomp)
  have xs: "server_fd \<notin> set xs" "distinct xs" and ys: "server_fd \<notin> set ys" "distinct ys"
    and disj: "set xs \<inter> set ys = {}" and cl: "set xs \<subseteq> set interest" "set ys \<subseteq> set interest"
    using assms(1,2) by (auto simp: ev)
  define i1 where "i1 = fst (epoll_events server_fd xs interest w)"
  define w1 where "w1 = snd (epoll_events server_fd xs interest w)"
  define w2 where "w2 = snd (epoll_accept i1 w1)"
  define new where "new = (if fst (sys_accept w) \<noteq> - 1 then [fst (sys_accept w)] else [])"
  note p1 = epoll_events_clients [OF xs, of interest w, folded i1_def w1_def]
  have later: "fst (sys_accept w1) = fst (sys_accept w)" "uses (snd (sys_accept w1)) = uses (snd (sys_accept w))"
    using accept_later [of w1 w "set xs"] p1 assms(4) cl(1) by auto
  have fresh: "fst (sys_accept w) \<notin> set (server_fd # interest)" if "0 \<le> fst (sys_accept w)"
    using that assms(4) by (simp add: accept_result split: if_splits)
  have i2: "fst (epoll_accept i1 w1) = i1 @ new"
    by (simp add: epoll_accept_effect later new_def)
  note p2 = epoll_events_clients [OF ys, of "i1 @ new" w2]
  have run: "epoll_events server_fd events interest w = epoll_events server_fd ys (i1 @ new) w2"
    using i2 by (simp add: ev epoll_events_append split_beta Let_def i1_def w1_def w2_def)
  have u2: "uses w2 = uses (if True then snd (sys_accept w) else w)"
    by (simp add: w2_def epoll_accept_effect later)
  have c2: "conn_of w2 fd = conn_of w fd" if "fd \<in> set interest" for fd
    using same_conns [OF u2 _ that] fresh by simp
  have a2: "arriving w2 fd = arriving w fd" if "fd \<in> set ys" for fd
  proof -
    have "conn_of w fd \<notin> conn_of w ` set xs"
      using that disj by auto
    then have "conns w1 (conn_of w fd) = arriving w fd"
      using p1 echoed_conns [of 1024 "conn_of w ` set xs" w w1] by blast
    moreover have "conns w2 = conns w1"
      by (simp add: w2_def epoll_accept_effect)
    moreover have "conn_of w2 fd = conn_of w fd"
      using that cl(2) by (intro c2) auto
    ultimately show ?thesis by simp
  qed
  have "\<forall>fd \<in> set new. fd \<notin> set ys"
    using fresh cl(2) accept_result [of w] by (auto simp: new_def split: if_splits)
  then have "filter (\<lambda>fd. fd \<in> set ys \<longrightarrow> alive 1024 (arriving w2 fd)) (i1 @ new)
      = filter (\<lambda>fd. fd \<in> set events \<longrightarrow> alive 1024 (arriving w fd)) interest @ new"
    unfolding p1 [THEN conjunct1] ev by (rule kept_in_two_parts [OF disj assms(3) _ a2])
  moreover have img: "conn_of w2 ` set ys = conn_of w ` set ys"
    using c2 cl(2) by (intro image_cong) auto
  have "echoed 1024 (conn_of w ` set xs \<union> ({} \<union> conn_of w ` set ys)) w (snd (epoll_events server_fd ys (i1 @ new) w2))"
  proof (rule echoed_trans)
    show "echoed 1024 (conn_of w ` set xs) w w1" using p1 by blast
    have e2: "echoed 1024 (conn_of w ` set ys) w2 (snd (epoll_events server_fd ys (i1 @ new) w2))"
      using p2 unfolding img by blast
    show "echoed 1024 ({} \<union> conn_of w ` set ys) w1 (snd (epoll_events server_fd ys (i1 @ new) w2))"
      using e2 unfolding w2_def
      by (intro echoed_trans [OF epoll_accept_effect(1) [where interest = i1]]) simp_all
  qed (use disj in auto)
  moreover have "conn_of w ` {fd \<in> set interest. fd \<in> set events} = conn_of w ` set xs \<union> ({} \<union> conn_of w ` set ys)"
    using cl assms(3) by (auto simp: ev)
  moreover have "accepts (snd (epoll_events server_fd ys (i1 @ new) w2)) = accepts (snd (sys_accept w))"
    "uses (snd (epoll_events server_fd ys (i1 @ new) w2)) = uses (snd (sys_accept w))"
    using p1 p2 u2 by (simp_all add: w2_def epoll_accept_effect accept_effect)
  ultimately show ?thesis
    using p2 assms(5) unfolding correct_round_def run by (simp add: new_def)
qed

lemma epoll_round_correct:
  assumes "distinct events" and "set events \<subseteq> set (server_fd # interest)" and "server_fd \<notin> set interest"
    and "offered w \<notin> set (server_fd # interest)"
  shows "correct_round 1024 (\<lambda>r. r \<noteq> - 1) server_fd (\<lambda>fd. fd \<in> set events) interest w
    (fst (epoll_events server_fd events interest w)) (snd (epoll_events server_fd events interest w))"
proof (cases "server_fd \<in> set events")
  case False
  then have "set events \<subseteq> set interest"
    using assms(2) by auto
  with False assms(1) show ?thesis
    by (intro epoll_round_no_accept)
next
  case True
  then show ?thesis
    using assms by (intro epoll_round_accept)
qed

section \<open>A thread\<close>

text \<open>What a connection delivers up to its end or its first error.\<close>

fun stream :: "incoming \<Rightarrow> string" where
  "stream [] = []"
| "stream (Fail # es) = []"
| "stream (Bytes c # es) = (if c = [] then [] else c @ stream es)"

lemma stream_recv:
  assumes "0 < n" and "sock_recv n es = (Some bs, es')" and "bs \<noteq> []"
  shows "stream es = bs @ stream es'"
  using assms by (cases "(n, es)" rule: sock_recv.cases) (auto split: if_splits)

lemma stream_gone:
  assumes "0 < n" and "sock_recv n es = (r, es')" and "r = None \<or> r = Some []"
  shows "stream es = []"
  using assms by (cases "(n, es)" rule: sock_recv.cases) (auto split: if_splits)

lemma echo_thread_stream:
  "bytes_sent (conn_of w fd) (echo_thread fd w) = bytes_sent (conn_of w fd) w @ stream (arriving w fd)
   \<and> closed_log (echo_thread fd w) = closed_log w @ [conn_of w fd]
   \<and> (\<forall>c. c \<noteq> conn_of w fd \<longrightarrow> bytes_sent c (echo_thread fd w) = bytes_sent c w
            \<and> conns (echo_thread fd w) c = conns w c)"
proof (induction fd w rule: echo_thread.induct)
  case (1 fd w)
  obtain ok w1 where c: "thread_client fd w = (ok, w1)" by fastforce
  have effect: "conns w1 = (conns w)(conn_of w fd := snd (sock_recv 1024 (arriving w fd)))"
      "closed_log w1 = closed_log w @ (if alive 1024 (arriving w fd) then [] else [conn_of w fd])"
      "bytes_sent c w1 = bytes_sent c w @ (if c = conn_of w fd then piece 1024 (arriving w fd) else [])"
      "conn_of w1 = conn_of w" for c
    using thread.service_effect [where fd = fd and w = w] thread.service_conn_of [of fd w] by (simp_all add: c)
  have ok: "ok = alive 1024 (arriving w fd)"
    using thread.service_alive [of fd w] c by simp
  show ?case
  proof (cases rule: sock_recv_cases [of 1024 "arriving w fd"])
    case (gone r es')
    then have "\<not> ok" by (auto simp: ok alive_def)
    moreover have "stream (arriving w fd) = []"
      using stream_gone [of 1024 "arriving w fd" r es'] gone by simp
    moreover have "piece 1024 (arriving w fd) = []"
      using gone by (auto simp: piece_def)
    ultimately show ?thesis
      using effect ok c by (simp add: echo_thread.simps [of fd w])
  next
    case (data bs es')
    then have ok': "ok" and p: "piece 1024 (arriving w fd) = bs" and e: "arriving w1 fd = es'"
      by (simp_all add: ok alive_def piece_def effect)
    have "stream (arriving w fd) = bs @ stream es'"
      using stream_recv [of 1024 "arriving w fd" bs es'] data by simp
    moreover have "echo_thread fd w = echo_thread fd w1"
      using c ok' by (simp add: echo_thread.simps [of fd w])
    ultimately show ?thesis
      using "1.IH" [OF c [symmetric]] ok' ok effect data(1) by (simp add: p e)
  qed
qed

section \<open>Properties\<close>

text \<open>
  C15: The three event loops agree. For the same readiness, an iteration of the poll, the
  select and the epoll server each receives once from every ready client, sends exactly
  these bytes back to it or, if there are none, closes it once and drops it from its
  list, appends a newly accepted connection, and touches nothing else; erasing inside
  the index loop of the poll server skips nobody. The descriptors are below 1024, and the one
  that \<^verbatim>\<open>accept\<close> is offered is not that of a client of the round.
\<close>

theorem event_loops_echo:
  assumes "distinct (listener # clients)" and "\<forall>fd \<in> set (listener # clients). fd < 1024"
    and "offered w \<notin> set (listener # clients)" and "offered w < 1024"
    and "map fst fds = listener # clients"
    and "distinct events" and "\<forall>fd. fd \<in> set events \<longleftrightarrow> fd \<in> set (listener # clients) \<and> ready fd"
  shows "(\<exists>clients'. map fst (fst (poll_round listener ready fds w)) = listener # clients'
      \<and> correct_round 1024 (\<lambda>r. r > 0) listener ready clients w clients' (snd (poll_round listener ready fds w)))
    \<and> (\<exists>clients' w'. select_round listener ready clients w = Some (clients', w')
      \<and> correct_round 1023 (\<lambda>r. 0 \<le> r) listener ready clients w clients' w')
    \<and> (\<exists>clients' w'. epoll_events listener events clients w = (clients', w')
      \<and> correct_round 1024 (\<lambda>r. r \<noteq> - 1) listener ready clients w clients' w')"
proof -
  have fresh: "fst (sys_accept w) \<notin> set (listener # clients)" if "0 \<le> fst (sys_accept w)"
    using that assms(3) by (simp add: accept_result split: if_splits)
  have small: "fst (sys_accept w) < 1024"
    using assms(4) by (simp add: accept_result)
  have "correct_round 1024 (\<lambda>r. r \<noteq> - 1) listener (\<lambda>fd. fd \<in> set events) clients w
      (fst (epoll_events listener events clients w)) (snd (epoll_events listener events clients w))"
    using assms(1,3,6,7) by (intro epoll_round_correct) auto
  moreover have "filter (\<lambda>fd. fd \<in> set events \<longrightarrow> alive 1024 (arriving w fd)) clients
      = filter (\<lambda>fd. ready fd \<longrightarrow> alive 1024 (arriving w fd)) clients"
    "{fd \<in> set clients. fd \<in> set events} = {fd \<in> set clients. ready fd}"
    "listener \<in> set events \<longleftrightarrow> ready listener"
    using assms(7) by (auto intro: filter_cong)
  ultimately have "correct_round 1024 (\<lambda>r. r \<noteq> - 1) listener ready clients w
      (fst (epoll_events listener events clients w)) (snd (epoll_events listener events clients w))"
    by (simp only: correct_round_def)
  then show ?thesis
    using poll_round_correct [OF assms(5,1), of w ready] select_round_correct [OF assms(1,2) _ small, of ready] fresh
    by (metis (no_types, lifting) list.set_intros(2) prod.collapse)
qed

definition sample_world :: world where
  "sample_world = \<lparr>conns = (\<lambda>c. if c = (5, 0) then [Bytes ''hello''] else if c = (7, 2) then [Bytes ''again''] else []),
     accepts = [7, 7], open_fds = {0, 3, 4}, uses = (\<lambda>_. 0), sent_log = [], closed_log = [], screen = []\<rparr>"

theorem event_loops_echo_witness:
  "\<exists>clients' w'. select_round 3 (\<lambda>fd. fd \<noteq> 4) [4, 5, 6] sample_world = Some (clients', w')
      \<and> correct_round 1023 (\<lambda>r. 0 \<le> r) 3 (\<lambda>fd. fd \<noteq> 4) [4, 5, 6] sample_world clients' w'"
  by (rule event_loops_echo [where events = "[6, 3, 5]" and fds = "[(3, True), (4, True), (5, False), (6, True)]",
        THEN conjunct2, THEN conjunct1])
    (auto simp: offered_def sample_world_def)

text \<open>
  A client with a thread of its own gets back exactly the bytes it sent, up to the end
  of its connection or its first error, however they were cut; then its socket is closed,
  and no other connection is touched.
\<close>

lemma echo_thread_returns_stream:
  "bytes_sent (conn_of w fd) (echo_thread fd w) = bytes_sent (conn_of w fd) w @ stream (arriving w fd)
   \<and> closed_log (echo_thread fd w) = closed_log w @ [conn_of w fd]
   \<and> (c \<noteq> conn_of w fd \<longrightarrow> bytes_sent c (echo_thread fd w) = bytes_sent c w
        \<and> conns (echo_thread fd w) c = conns w c)"
  using echo_thread_stream [of w fd] by blast

end
