(* ===== verification/Echo_Runs.thy ===== *)
theory Echo_Runs
  imports Echo_Rounds
begin

text \<open>
  Whole runs of the event loops of \<^verbatim>\<open>socket_prog/\<close>: what the steps of a server do to the
  streams and the descriptors of all connections, the locale \<open>event_loop\<close> of a server whose
  iterations are sequences of such steps, and its three interpretations. A descriptor that
  was closed may be accepted again, within the same iteration too.
\<close>

section \<open>Where a run stands\<close>

text \<open>
  \<open>w0\<close> is the world at the start, \<open>c\<close> a connection: a descriptor \<open>fd\<close> and a number \<open>g\<close>. What
  a connected client has got back and what it has still to send make up its stream; a
  connection that is over has got its whole stream back and was closed once; one that was
  not accepted has not been touched.
\<close>

definition conn_account :: "world \<Rightarrow> int list \<Rightarrow> world \<Rightarrow> conn \<Rightarrow> bool" where
  "conn_account w0 clients w c \<longleftrightarrow>
     (let (fd, g) = c in
      if fd \<in> set clients \<and> g = uses w fd
      then bytes_sent c w @ stream (conns w c) = stream (conns w0 c) \<and> count_list (closed_log w) c = 0
      else if 1 \<le> g \<and> g \<le> uses w fd
      then bytes_sent c w = stream (conns w0 c) \<and> count_list (closed_log w) c = 1
      else bytes_sent c w = [] \<and> conns w c = conns w0 c \<and> count_list (closed_log w) c = 0)"

definition echo_so_far :: "world \<Rightarrow> int list \<Rightarrow> world \<Rightarrow> bool" where
  "echo_so_far w0 clients w \<longleftrightarrow>
     distinct clients \<and> (\<forall>fd \<in> set clients. 1 \<le> uses w fd) \<and> (\<forall>c. conn_account w0 clients w c)"

lemma echo_so_far_start:
  "sent_log w = [] \<Longrightarrow> closed_log w = [] \<Longrightarrow> uses w = (\<lambda>_. 0) \<Longrightarrow> echo_so_far w [] w"
  by (auto simp: echo_so_far_def conn_account_def bytes_sent_def)

lemma stream_piece:
  assumes "0 < n"
  shows "stream es = piece n es @ (if alive n es then stream (snd (sock_recv n es)) else [])"
proof (cases rule: sock_recv_cases [of n es])
  case (gone r es')
  then show ?thesis
    using stream_gone [OF assms gone] by (auto simp: piece_def alive_def)
next
  case (data bs es')
  then show ?thesis
    using stream_recv [OF assms data] by (simp add: piece_def alive_def)
qed

lemma gone_piece: "\<not> alive n es \<Longrightarrow> piece n es = []"
  by (cases rule: sock_recv_cases [of n es]) (auto simp: piece_def alive_def)

lemma conn_account_accept:
  assumes "quiet w' = quiet (snd (sys_accept w))" and "conn_account w0 clients w c"
    and "clients' = clients @ (if 0 \<le> fst (sys_accept w) then [fst (sys_accept w)] else [])"
    and "set clients \<subseteq> open_fds w"
  shows "conn_account w0 clients' w' c"
proof -
  note q = quietD [OF assms(1)]
  obtain fd g where c: "c = (fd, g)" by (cases c)
  have b: "bytes_sent c w' = bytes_sent c w"
    by (simp add: bytes_sent_def q accept_effect)
  have "fst (sys_accept w) \<notin> set clients" if "0 \<le> fst (sys_accept w)"
    using accepted_fresh [OF that] assms(4) by blast
  then show ?thesis
    using assms(2,3) b unfolding c
    by (cases "0 \<le> fst (sys_accept w)") (auto simp: conn_account_def q accept_effect le_Suc_eq split: if_splits)
qed

lemma conn_account_serve:
  assumes "quiet w' = quiet (echo n fd w)" and "conn_account w0 clients w c" and "fd \<in> set clients" and "0 < n"
    and "clients' = (if alive n (arriving w fd) then clients else removeAll fd clients)"
    and "1 \<le> uses w fd"
  shows "conn_account w0 clients' w' c"
proof -
  note q = quietD [OF assms(1)]
  obtain d g where c: "c = (d, g)" by (cases c)
  show ?thesis
  proof (cases "c = conn_of w fd")
    case True
    then have "d = fd" "g = uses w fd" by (simp_all add: c conn_of_def)
    then show ?thesis
      using assms(2,3,5,6) stream_piece [OF assms(4), of "arriving w fd"] gone_piece [of n "arriving w fd"] unfolding c
      by (auto simp: conn_account_def q echo_effect conn_of_def split: if_splits)
  next
    case False
    then have "d \<noteq> fd \<or> g \<noteq> uses w fd" by (simp add: c conn_of_def)
    then show ?thesis
      using assms(2,5) False unfolding c by (auto simp: conn_account_def q echo_effect split: if_splits)
  qed
qed

lemma echo_so_far_step:
  assumes "net_step n (clients, w) (clients', w')" and "sound base clients w" and "0 < n"
    and "echo_so_far w0 clients w"
  shows "echo_so_far w0 clients' w'"
proof -
  have d: "distinct clients'"
    using sound_step [OF assms(1,2)] by (simp add: sound_def)
  have opened: "set clients \<subseteq> open_fds w"
    using assms(2) by (simp add: sound_def)
  have u: "\<forall>fd \<in> set clients. 1 \<le> uses w fd" and a: "conn_account w0 clients w c" for c
    using assms(4) unfolding echo_so_far_def by blast+
  show ?thesis
    using assms(1)
  proof cases
    case N_accept
    have "\<forall>fd \<in> set clients'. 1 \<le> uses w' fd"
      using u by (simp add: N_accept(2) quietD [OF N_accept(1)] accept_effect)
    then show ?thesis
      using d conn_account_accept [OF N_accept(1) a N_accept(2) opened] unfolding echo_so_far_def by blast
  next
    case (N_serve fd)
    have "\<forall>fd \<in> set clients'. 1 \<le> uses w' fd"
      using u by (simp add: N_serve(3) quietD [OF N_serve(2)] echo_effect)
    then show ?thesis
      using d conn_account_serve [OF N_serve(2) a N_serve(1) assms(3) N_serve(3)] u N_serve(1)
      unfolding echo_so_far_def by blast
  qed
qed

lemma echo_so_far_steps:
  "net_steps n (clients, w) (clients', w') \<Longrightarrow> sound base clients w \<Longrightarrow> 0 < n \<Longrightarrow> echo_so_far w0 clients w \<Longrightarrow>
    echo_so_far w0 clients' w'"
proof (induction rule: rtranclp_induct2)
  case (step clients1 w1 clients2 w2)
  have "sound base clients1 w1"
    using sound_steps [OF step.hyps(1) step.prems(1)] .
  then show ?case
    using echo_so_far_step [OF step.hyps(2) _ step.prems(2)] step.IH step.prems by blast
qed

section \<open>A run of rounds\<close>

fun run_rounds ::
  "('i \<Rightarrow> 'st \<Rightarrow> world \<Rightarrow> ('st \<times> world) option) \<Rightarrow> 'i list \<Rightarrow> 'st \<Rightarrow> world \<Rightarrow> ('st \<times> world) option" where
  "run_rounds step [] st w = Some (st, w)"
| "run_rounds step (i # is) st w =
     (case step i st w of None \<Rightarrow> None | Some (st', w') \<Rightarrow> run_rounds step is st' w')"

text \<open>What the kernel reports in each round makes sense in the state it is reported in.\<close>

fun reports_ok ::
  "('i \<Rightarrow> 'st \<Rightarrow> world \<Rightarrow> ('st \<times> world) option) \<Rightarrow> ('i \<Rightarrow> 'st \<Rightarrow> bool) \<Rightarrow> 'i list \<Rightarrow> 'st \<Rightarrow> world \<Rightarrow> bool" where
  "reports_ok step sensible [] st w = True"
| "reports_ok step sensible (i # is) st w \<longleftrightarrow> sensible i st \<and>
     (case step i st w of None \<Rightarrow> True | Some (st', w') \<Rightarrow> reports_ok step sensible is st' w')"

lemma reports_ok_trivial [simp]: "reports_ok step (\<lambda>i st. True) is st w"
  by (induction "is" arbitrary: st w) (auto split: option.split)

text \<open>
  A server whose iterations are sequences of the steps above, as long as its own descriptors
  and the standard input are open and none is beyond an \<^verbatim>\<open>fd_set\<close>.
\<close>

locale event_loop =
  fixes bufsize :: nat and listener :: int
    and step :: "'i \<Rightarrow> 'st \<Rightarrow> world \<Rightarrow> ('st \<times> world) option"
    and clients_of :: "'st \<Rightarrow> int list" and valid :: "'st \<Rightarrow> bool"
    and sensible :: "'i \<Rightarrow> 'st \<Rightarrow> bool"
  assumes bufsize: "0 < bufsize"
    and step_refines: "valid st \<Longrightarrow> sensible i st \<Longrightarrow> {0, listener} \<subseteq> base \<Longrightarrow> sound base (clients_of st) w \<Longrightarrow>
      in_range (clients_of st) w \<Longrightarrow>
      \<exists>st' w'. step i st w = Some (st', w') \<and> valid st' \<and> net_steps bufsize (clients_of st, w) (clients_of st', w')"
begin

lemma run_refines:
  "valid st \<Longrightarrow> {0, listener} \<subseteq> base \<Longrightarrow> sound base (clients_of st) w \<Longrightarrow> in_range (clients_of st) w \<Longrightarrow>
    reports_ok step sensible is st w \<Longrightarrow>
    \<exists>st' w'. run_rounds step is st w = Some (st', w') \<and> valid st'
      \<and> net_steps bufsize (clients_of st, w) (clients_of st', w')"
proof (induction "is" arbitrary: st w)
  case Nil
  then show ?case by simp
next
  case (Cons i "is")
  obtain st1 w1 where s1: "step i st w = Some (st1, w1)" "valid st1"
      "net_steps bufsize (clients_of st, w) (clients_of st1, w1)"
    using step_refines [OF Cons.prems(1) _ Cons.prems(2-4), of i] Cons.prems(5) by auto
  obtain st' w' where "run_rounds step is st1 w1 = Some (st', w')" "valid st'"
      "net_steps bufsize (clients_of st1, w1) (clients_of st', w')"
    using Cons.IH [OF s1(2) Cons.prems(2) sound_steps [OF s1(3) Cons.prems(3)] in_range_steps [OF s1(3) Cons.prems(4)]]
      Cons.prems(5) s1(1) by auto
  then show ?case
    using s1 by (auto intro: rtranclp_trans)
qed

lemma run_correct:
  assumes "valid st" and "{0, listener} \<subseteq> base" and "sound base (clients_of st) w" and "in_range (clients_of st) w"
    and "reports_ok step sensible is st w" and "echo_so_far w0 (clients_of st) w"
  shows "\<exists>st' w'. run_rounds step is st w = Some (st', w') \<and> valid st' \<and> sound base (clients_of st') w'
    \<and> echo_so_far w0 (clients_of st') w'"
  using run_refines [OF assms(1-5)] sound_steps [OF _ assms(3)] echo_so_far_steps [OF _ assms(3) bufsize assms(6)]
  by blast

end

section \<open>The three servers\<close>

abbreviation poll_step :: "int \<Rightarrow> (int \<Rightarrow> bool) \<Rightarrow> pollfd list \<Rightarrow> world \<Rightarrow> (pollfd list \<times> world) option" where
  "poll_step listener ready fds w \<equiv> Some (poll_round listener ready fds w)"

abbreviation epoll_step :: "int \<Rightarrow> int list \<Rightarrow> int list \<Rightarrow> world \<Rightarrow> (int list \<times> world) option" where
  "epoll_step server_fd events interest w \<equiv> Some (epoll_events server_fd events interest w)"

text \<open>\<^verbatim>\<open>epoll_wait\<close> reports registered descriptors, each once.\<close>

abbreviation epoll_sensible :: "int \<Rightarrow> int list \<Rightarrow> int list \<Rightarrow> bool" where
  "epoll_sensible server_fd events interest \<equiv> distinct events \<and> set events \<subseteq> set (server_fd # interest)"

text \<open>Accepting when the listener is ready, as a step or none.\<close>

lemma accept_steps:
  assumes "quiet w1 = quiet (if ready then snd (sys_accept w) else w)" and "\<not> ready \<longrightarrow> w1 = w"
    and "new = (if ready \<and> 0 \<le> fst (sys_accept w) then [fst (sys_accept w)] else [])"
  shows "net_steps n (clients, w) (clients @ new, w1)"
  using assms N_accept [of w1 w "clients @ new" clients n] by (cases ready) auto

lemma accept_distinct:
  assumes "sound base clients w" and "new = (if ready \<and> 0 \<le> fst (sys_accept w) then [fst (sys_accept w)] else [])"
  shows "distinct (clients @ new)"
  using assms accepted_fresh [of w] by (auto simp: sound_def)

interpretation poll_server: event_loop 1024 listener "poll_step listener" "\<lambda>fds. tl (map fst fds)"
  "\<lambda>fds. \<exists>clients. map fst fds = listener # clients" "\<lambda>i st. True"
  for listener :: int
proof
  fix fds :: "pollfd list" and i :: "int \<Rightarrow> bool" and base w
  assume "\<exists>clients. map fst fds = listener # clients" and base: "{0, listener} \<subseteq> base"
    and sound: "sound base (tl (map fst fds)) w"
  then obtain clients where fds: "map fst fds = listener # clients" by auto
  then have so: "sound base clients w" and out: "listener \<notin> set clients"
    using sound base by (auto simp: sound_def)
  define w1 where "w1 = (if i listener then snd (poll_accept [] w) else w)"
  define new where "new = (if i listener then fst (poll_accept [] w) else [])"
  have "fst (sys_accept w) \<noteq> 0"
    using so base accepted_fresh [of w] by (auto simp: sound_def)
  then have pos: "0 < fst (sys_accept w) \<longleftrightarrow> 0 \<le> fst (sys_accept w)"
    by auto
  have new: "map fst new = (if i listener \<and> 0 \<le> fst (sys_accept w) then [fst (sys_accept w)] else [])"
    unfolding new_def by (cases "i listener") (simp_all only: poll_accept_effect pos if_True if_False simp_thms list.map)
  have "net_steps 1024 (clients, w) (clients @ map fst new, w1)"
    by (rule accept_steps [where ready = "i listener", OF _ _ new]) (simp_all add: w1_def poll_accept_effect)
  moreover have "net_steps 1024 ([] @ clients @ map fst new, w1)
      ([] @ fst (serve_list poll_client i clients w1) @ map fst new, snd (serve_list poll_client i clients w1))"
    using accept_distinct [OF so new] by (intro poll.serve_list_steps) simp
  ultimately have "net_steps 1024 (clients, w)
      (fst (serve_list poll_client i clients w1) @ map fst new, snd (serve_list poll_client i clients w1))"
    by simp
  moreover have "poll_round listener i fds w
      = ((listener, i listener) # polled i (fst (serve_list poll_client i clients w1)) @ new,
         snd (serve_list poll_client i clients w1))"
    unfolding w1_def new_def by (rule poll_round_clients [OF fds out])
  ultimately show "\<exists>st' w'. poll_step listener i fds w = Some (st', w') \<and> (\<exists>clients. map fst st' = listener # clients)
      \<and> net_steps 1024 (tl (map fst fds), w) (tl (map fst st'), w')"
    by (simp add: fds comp_def)
qed simp_all

interpretation select_server: event_loop 1023 listener "select_round listener" "\<lambda>clients. clients"
  "\<lambda>clients. listener < FD_SETSIZE" "\<lambda>i st. True"
  for listener :: int
proof
  fix clients :: "int list" and i :: "int \<Rightarrow> bool" and base w
  assume small: "listener < FD_SETSIZE" and base: "{0, listener} \<subseteq> base" and so: "sound base clients w"
    and range: "in_range clients w"
  define w1 where "w1 = (if i listener then snd (select_accept clients w) else w)"
  define new where "new = (if i listener \<and> 0 \<le> fst (sys_accept w) then [fst (sys_accept w)] else [])"
  define read_fds where "read_fds = (\<lambda>fd. fd \<in> set (listener # clients) \<and> i fd)"
  have acc: "(if i listener then select_accept clients w else (clients, w)) = (clients @ new, w1)"
    using select_accept_effect(6) [of clients w] by (simp add: new_def w1_def prod_eq_iff)
  have dist: "distinct (clients @ new)"
    by (rule accept_distinct [OF so new_def])
  have "net_steps 1023 (clients, w) (clients @ new, w1)"
    by (rule accept_steps [where ready = "i listener", OF _ _ new_def]) (simp_all add: w1_def select_accept_effect)
  moreover have "in_range (clients @ new) w1"
    by (rule in_range_steps [OF calculation range])
  then have "\<forall>fd \<in> set (listener # clients @ new). fd < FD_SETSIZE"
    using small by (auto simp: in_range_def)
  then have "select_round listener i clients w = Some (serve_list select_client read_fds (clients @ new) w1)"
    unfolding read_fds_def by (rule select_round_result [where listener = listener and ready = i and new = new, OF dist _ acc])
  moreover have "net_steps 1023 ([] @ (clients @ new) @ [], w1)
      ([] @ fst (serve_list select_client read_fds (clients @ new) w1) @ [], snd (serve_list select_client read_fds (clients @ new) w1))"
    using dist by (intro select.serve_list_steps) simp
  ultimately show "\<exists>st' w'. select_round listener i clients w = Some (st', w') \<and> listener < FD_SETSIZE
      \<and> net_steps 1023 (clients, w) (st', w')"
    using small by (cases "serve_list select_client read_fds (clients @ new) w1") (auto intro: rtranclp_trans)
qed simp

text \<open>Each event is a step; a client accepted in between may have a descriptor that was closed before.\<close>

lemma epoll_events_steps:
  "distinct events \<Longrightarrow> set events \<subseteq> set (server_fd # interest) \<Longrightarrow>
    net_steps 1024 (interest, w) (epoll_events server_fd events interest w)"
proof (induction events arbitrary: interest w)
  case (Cons fd events)
  show ?case
  proof (cases "fd = server_fd")
    case True
    let ?i1 = "fst (epoll_accept interest w)" and ?w1 = "snd (epoll_accept interest w)"
    have "?i1 = interest @ (if 0 \<le> fst (sys_accept w) then [fst (sys_accept w)] else [])"
      using epoll_accept_effect(6) [of interest w] accept_result [of w] by (auto split: if_splits)
    then have "net_step 1024 (interest, w) (?i1, ?w1)"
      by (intro N_accept) (simp_all add: epoll_accept_effect)
    moreover have "net_steps 1024 (?i1, ?w1) (epoll_events server_fd events ?i1 ?w1)"
      using Cons.prems by (intro Cons.IH) (auto simp: epoll_accept_effect(6))
    ultimately show ?thesis
      using True by (simp add: split_beta Let_def)
  next
    case False
    let ?i1 = "if fst (epoll_client fd w) then interest else removeAll fd interest" and ?w1 = "snd (epoll_client fd w)"
    have "net_step 1024 (interest, w) (?i1, ?w1)"
      using Cons.prems(2) False by (intro epoll.service_step) simp
    moreover have "net_steps 1024 (?i1, ?w1) (epoll_events server_fd events ?i1 ?w1)"
      using Cons.prems by (intro Cons.IH) auto
    ultimately show ?thesis
      using False by (simp add: split_beta Let_def)
  qed
qed simp

interpretation epoll_server: event_loop 1024 server_fd "epoll_step server_fd" "\<lambda>interest. interest"
  "\<lambda>interest. True" "epoll_sensible server_fd"
  for server_fd :: int
proof
  fix interest events :: "int list" and base w
  assume "epoll_sensible server_fd events interest"
  then have "net_steps 1024 (interest, w) (epoll_events server_fd events interest w)"
    by (intro epoll_events_steps) simp_all
  then show "\<exists>st' w'. epoll_step server_fd events interest w = Some (st', w') \<and> True
      \<and> net_steps 1024 (interest, w) (st', w')"
    by (cases "epoll_events server_fd events interest w") simp
qed simp

lemma poll_loop_rounds:
  "run_rounds (poll_step listener) rs fds w = Some (fds', w') \<Longrightarrow>
    poll_loop listener (map Some rs @ rest) fds w = poll_loop listener rest fds' w'"
  by (induction rs arbitrary: fds w) (auto split: prod.splits)

lemma select_loop_rounds:
  "run_rounds (select_round listener) rs clients w = Some (clients', w') \<Longrightarrow>
    select_loop listener (map Some rs @ rest) clients w = select_loop listener rest clients' w'"
  by (induction rs arbitrary: clients w) (auto split: prod.splits option.splits)

lemma epoll_loop_rounds:
  "run_rounds (epoll_step server_fd) es interest w = Some (interest', w') \<Longrightarrow>
    epoll_loop server_fd epoll_fd (map Some es @ rest) interest w
    = epoll_loop server_fd epoll_fd rest interest' w'"
  by (induction es arbitrary: interest w) (auto split: prod.splits)

section \<open>Whole programs\<close>

text \<open>
  The world when a server starts: the listening socket and the standard input are open,
  nothing was accepted, sent or closed, and descriptors are below the limit of an \<^verbatim>\<open>fd_set\<close>.
  The list of what \<^verbatim>\<open>accept\<close> may return is arbitrary otherwise: it may hold the same
  descriptor any number of times.
\<close>

definition echo_start :: "int \<Rightarrow> world \<Rightarrow> bool" where
  "echo_start listener w \<longleftrightarrow> 0 < listener \<and> listener < FD_SETSIZE \<and> {0, listener} \<subseteq> open_fds w
     \<and> sent_log w = [] \<and> closed_log w = [] \<and> uses w = (\<lambda>_. 0) \<and> (\<forall>r \<in> set (accepts w). r < FD_SETSIZE)"

lemma bytes_sent_say [simp]: "bytes_sent c (say l w) = bytes_sent c w"
  by (simp add: bytes_sent_def say_def)

lemma conn_account_say [simp]: "conn_account (say l w0) clients w c = conn_account w0 clients w c"
  by (simp add: conn_account_def)

lemma echo_so_far_say [simp]: "echo_so_far (say l w0) clients w = echo_so_far w0 clients w"
  by (simp add: echo_so_far_def)

lemma start_sound:
  assumes "echo_start listener w" and "base \<subseteq> open_fds w"
  shows "sound base [] (say l w)" and "in_range [] (say l w)" and "echo_so_far (say l w) [] (say l w)"
proof -
  show "sound base [] (say l w)" "in_range [] (say l w)"
    using assms by (simp_all add: echo_start_def sound_def in_range_def)
  show "echo_so_far (say l w) [] (say l w)"
    using assms(1) by (intro echo_so_far_start) (simp_all add: echo_start_def say_def)
qed

lemma poll_run:
  assumes "echo_start listener w"
  obtains fds clients w' where "map fst fds = listener # clients" and "sound {0, listener} clients w'"
    and "echo_so_far w clients w'"
    and "\<forall>rest. poll_main listener 0 0 (map Some rs @ rest) w = Inr (poll_loop listener rest fds w')"
proof -
  let ?w = "say (''Listening with poll() on port 8080...'' @ [NL]) w"
  have base: "{0, listener} \<subseteq> open_fds w"
    using assms by (simp add: echo_start_def)
  note start = start_sound [OF assms base, of "''Listening with poll() on port 8080...'' @ [NL]"]
  obtain fds w' where r: "run_rounds (poll_step listener) rs [(listener, False)] ?w = Some (fds, w')"
    and fds: "\<exists>clients. map fst fds = listener # clients"
    and inv: "sound {0, listener} (tl (map fst fds)) w'" "echo_so_far ?w (tl (map fst fds)) w'"
    using poll_server.run_correct [where st = "[(listener, False)]" and listener = listener and base = "{0, listener}"
        and w = ?w and ?w0.0 = ?w and ?is = rs] start by auto
  from fds have "map fst fds = listener # tl (map fst fds)" by auto
  moreover have "poll_main listener 0 0 (map Some rs @ rest) w = Inr (poll_loop listener rest fds w')" for rest
    using poll_loop_rounds [OF r] assms by (simp add: poll_main_def start_up_def echo_start_def)
  ultimately show ?thesis
    using inv that by simp
qed

lemma select_run:
  assumes "echo_start listener w"
  obtains clients w' where "sound {0, listener} clients w'" and "echo_so_far w clients w'"
    and "\<forall>rest. select_main listener 0 0 (map Some rs @ rest) w = Inr (select_loop listener rest clients w')"
proof -
  let ?w = "say (''Listening on port 8080...'' @ [NL]) w"
  have base: "{0, listener} \<subseteq> open_fds w"
    using assms by (simp add: echo_start_def)
  note start = start_sound [OF assms base, of "''Listening on port 8080...'' @ [NL]"]
  obtain clients w' where r: "run_rounds (select_round listener) rs [] ?w = Some (clients, w')"
    and inv: "sound {0, listener} clients w'" "echo_so_far ?w clients w'"
    using select_server.run_correct [where st = "[]" and listener = listener and base = "{0, listener}"
        and w = ?w and ?w0.0 = ?w and ?is = rs] start assms by (auto simp: echo_start_def)
  have "select_main listener 0 0 (map Some rs @ rest) w = Inr (select_loop listener rest clients w')" for rest
    using select_loop_rounds [OF r] assms by (simp add: select_main_def start_up_def echo_start_def)
  then show ?thesis
    using inv that by simp
qed

lemma epoll_run:
  assumes "echo_start listener w" and "epoll_fd \<noteq> - 1" and "{0, listener} \<subseteq> base" and "base \<subseteq> open_fds w"
    and "reports_ok (epoll_step listener) (epoll_sensible listener) es []
      (say (''Server using epoll() on port 8080...'' @ [NL]) w)"
  obtains clients w' where "sound base clients w'" and "echo_so_far w clients w'"
    and "\<forall>rest. epoll_main listener 0 0 epoll_fd 0 (map Some es @ rest) w
        = Inr (epoll_loop listener epoll_fd rest clients w')"
proof -
  let ?w = "say (''Server using epoll() on port 8080...'' @ [NL]) w"
  note start = start_sound [OF assms(1,4), of "''Server using epoll() on port 8080...'' @ [NL]"]
  obtain clients w' where r: "run_rounds (epoll_step listener) es [] ?w = Some (clients, w')"
    and inv: "sound base clients w'" "echo_so_far ?w clients w'"
    using epoll_server.run_correct [where st = "[]" and server_fd = listener and base = base
        and w = ?w and ?w0.0 = ?w and ?is = es] start assms(3,5) by auto
  have "epoll_main listener 0 0 epoll_fd 0 (map Some es @ rest) w
      = Inr (epoll_loop listener epoll_fd rest clients w')" for rest
    using epoll_loop_rounds [OF r] assms(1,2) by (simp add: epoll_main_def echo_start_def)
  then show ?thesis
    using inv that by simp
qed

text \<open>Closing some descriptors closes the connections they stand for.\<close>

lemma fold_close:
  "closed_log (fold sys_close fds w) = closed_log w @ map (conn_of w) fds"
  "uses (fold sys_close fds w) = uses w"
proof (induction fds arbitrary: w)
  case (Cons fd fds)
  { case 1 then show ?case using Cons(1) [of "sys_close fd w"] by (simp add: conns_calls(6)) (simp add: sys_close_def) }
  { case 2 then show ?case using Cons(2) [of "sys_close fd w"] by (simp add: sys_close_def) }
qed simp_all

lemma count_list_distinct: "distinct xs \<Longrightarrow> count_list xs x = (if x \<in> set xs then 1 else 0)"
  by (induction xs) auto

lemma count_conns:
  "distinct fds \<Longrightarrow> count_list (map (conn_of w) fds) (fd, g) = (if fd \<in> set fds \<and> g = uses w fd then 1 else 0)"
  by (subst count_list_distinct) (auto simp: distinct_map inj_on_def conn_of_def)

text \<open>The connections closed in a run that ends by closing some descriptors in \<open>base\<close> as well.\<close>

lemma closed_in_run:
  assumes "echo_so_far w clients w'" and "sound base clients w'"
  shows "count_list (closed_log w') (fd, g)
    = (if 1 \<le> g \<and> g \<le> uses w' fd \<and> \<not> (fd \<in> set clients \<and> g = uses w' fd) then 1 else 0)"
proof -
  have "conn_account w clients w' (fd, g)"
    using assms(1) unfolding echo_so_far_def by blast
  then show ?thesis
    by (auto simp: conn_account_def split: if_splits)
qed

lemma closes_all:
  assumes "echo_so_far w clients w'" and "sound {0, listener} clients w'"
  shows "count_list (closed_log (fold sys_close (listener # clients) w')) (fd, g)
    = (if 1 \<le> g \<and> g \<le> uses (fold sys_close (listener # clients) w') fd \<or> (fd, g) = (listener, 0) then 1 else 0)"
proof -
  have d: "distinct (listener # clients)" and l: "uses w' listener = 0" "listener \<notin> set clients"
    using assms(2) by (auto simp: sound_def)
  have u: "\<forall>fd \<in> set clients. 1 \<le> uses w' fd"
    using assms(1) unfolding echo_so_far_def by blast
  have "count_list (closed_log (fold sys_close (listener # clients) w')) (fd, g)
      = (if 1 \<le> g \<and> g \<le> uses w' fd \<and> \<not> (fd \<in> set clients \<and> g = uses w' fd) then 1 else 0)
        + (if fd \<in> set (listener # clients) \<and> g = uses w' fd then 1 else 0)"
    unfolding fold_close count_list_append closed_in_run [OF assms] count_conns [OF d] by (rule refl)
  also have "\<dots> = (if 1 \<le> g \<and> g \<le> uses w' fd \<or> (fd, g) = (listener, 0) then 1 else 0)"
    using u l by auto
  finally show ?thesis
    by (simp only: fold_close)
qed

section \<open>Properties\<close>

text \<open>
  C16: The event servers over whole runs, from their start and for any number of iterations
  with any readiness, \<^verbatim>\<open>accept\<close> returning any descriptor that is not open (one that was closed
  may come back, also within an iteration). When descriptors are below 1024 and the standard
  input is open, the poll, the select and the epoll server (for the last, when every
  \<^verbatim>\<open>epoll_wait\<close> reports registered descriptors, each once) keep going; what every connected
  client has got back and what it has still to send make up its stream, a connection that is
  over has got its whole stream back and was closed once, and no other is touched.
\<close>

theorem event_servers_return_streams:
  assumes "echo_start listener w" and "epoll_fd \<noteq> - 1"
    and "reports_ok (epoll_step listener) (epoll_sensible listener) es []
      (say (''Server using epoll() on port 8080...'' @ [NL]) w)"
  shows "(\<exists>fds clients w'. poll_main listener 0 0 (map Some rs) w = Inr (fds, w')
      \<and> map fst fds = listener # clients \<and> echo_so_far w clients w')
    \<and> (\<exists>clients w'. select_main listener 0 0 (map Some rs) w = Inr (Some (clients, w'))
      \<and> echo_so_far w clients w')
    \<and> (\<exists>clients w'. epoll_main listener 0 0 epoll_fd 0 (map Some es) w = Inr (clients, w')
      \<and> echo_so_far w clients w')"
proof (intro conjI)
  obtain fds clients w' where "map fst fds = listener # clients" "sound {0, listener} clients w'" "echo_so_far w clients w'"
    and r: "\<forall>rest. poll_main listener 0 0 (map Some rs @ rest) w = Inr (poll_loop listener rest fds w')"
    by (rule poll_run [OF assms(1), of rs])
  then show "\<exists>fds clients w'. poll_main listener 0 0 (map Some rs) w = Inr (fds, w')
      \<and> map fst fds = listener # clients \<and> echo_so_far w clients w'"
    using spec [OF r, of "[]"] by simp
  obtain clients w' where "sound {0, listener} clients w'" "echo_so_far w clients w'"
    and r: "\<forall>rest. select_main listener 0 0 (map Some rs @ rest) w = Inr (select_loop listener rest clients w')"
    by (rule select_run [OF assms(1), of rs])
  then show "\<exists>clients w'. select_main listener 0 0 (map Some rs) w = Inr (Some (clients, w'))
      \<and> echo_so_far w clients w'"
    using spec [OF r, of "[]"] by simp
  have base: "{0, listener} \<subseteq> open_fds w"
    using assms(1) by (simp add: echo_start_def)
  obtain clients w' where "sound {0, listener} clients w'" "echo_so_far w clients w'"
    and r: "\<forall>rest. epoll_main listener 0 0 epoll_fd 0 (map Some es @ rest) w
      = Inr (epoll_loop listener epoll_fd rest clients w')"
    by (rule epoll_run [OF assms(1,2) subset_refl base assms(3)])
  then show "\<exists>clients w'. epoll_main listener 0 0 epoll_fd 0 (map Some es) w = Inr (clients, w')
      \<and> echo_so_far w clients w'"
    using spec [OF r, of "[]"] by simp
qed

lemmas sample_defs = echo_start_def sample_world_def epoll_accept_def epoll_client_def call_defs conn_of_def

theorem event_servers_return_streams_witness:
  "(\<exists>fds clients w'. poll_main 3 0 0 (map Some [\<lambda>fd. True, \<lambda>fd. fd = 7, \<lambda>fd. True]) sample_world = Inr (fds, w')
      \<and> map fst fds = 3 # clients \<and> echo_so_far sample_world clients w')
    \<and> (\<exists>clients w'. select_main 3 0 0 (map Some [\<lambda>fd. True, \<lambda>fd. fd = 7, \<lambda>fd. True]) sample_world
        = Inr (Some (clients, w'))
      \<and> echo_so_far sample_world clients w')
    \<and> (\<exists>clients w'. epoll_main 3 0 0 4 0 (map Some [[3], [7, 3], [7]]) sample_world = Inr (clients, w')
      \<and> echo_so_far sample_world clients w')"
  by (rule event_servers_return_streams) (simp_all add: sample_defs)

text \<open>
  C34: Shutting down. When \<^verbatim>\<open>poll\<close> or \<^verbatim>\<open>select\<close> fails, every connection that the server has
  accepted and its listening socket have been closed exactly once, and nothing else, whether
  or not descriptors were used again. The epoll server closes its own two descriptors once
  and leaves exactly its connected clients open.
\<close>

theorem event_servers_close_all:
  assumes "echo_start listener w" and "epoll_fd \<noteq> - 1" and "epoll_fd \<in> open_fds w" and "epoll_fd \<noteq> listener"
    and "reports_ok (epoll_step listener) (epoll_sensible listener) es []
      (say (''Server using epoll() on port 8080...'' @ [NL]) w)"
  shows "(\<exists>w'. poll_main listener 0 0 (map Some rs @ [None]) w = Inr ([], w')
      \<and> (\<forall>fd g. count_list (closed_log w') (fd, g)
          = (if 1 \<le> g \<and> g \<le> uses w' fd \<or> (fd, g) = (listener, 0) then 1 else 0)))
    \<and> (\<exists>w'. select_main listener 0 0 (map Some rs @ [None]) w = Inr (Some ([], w'))
      \<and> (\<forall>fd g. count_list (closed_log w') (fd, g)
          = (if 1 \<le> g \<and> g \<le> uses w' fd \<or> (fd, g) = (listener, 0) then 1 else 0)))
    \<and> (\<exists>clients w'. epoll_main listener 0 0 epoll_fd 0 (map Some es @ [None]) w = Inr (clients, w')
      \<and> (\<forall>fd g. count_list (closed_log w') (fd, g)
          = (if 1 \<le> g \<and> g \<le> uses w' fd \<and> \<not> (fd \<in> set clients \<and> g = uses w' fd)
               \<or> (fd, g) = (listener, 0) \<or> (fd, g) = (epoll_fd, 0) then 1 else 0)))"
proof (intro conjI)
  obtain fds clients w' where f: "map fst fds = listener # clients" "sound {0, listener} clients w'" "echo_so_far w clients w'"
    and r: "\<forall>rest. poll_main listener 0 0 (map Some rs @ rest) w = Inr (poll_loop listener rest fds w')"
    by (rule poll_run [OF assms(1), of rs])
  have "fold (\<lambda>(fd, _). sys_close fd) fds w' = fold sys_close (map fst fds) w'"
    by (induction fds arbitrary: w') auto
  then show "\<exists>w'. poll_main listener 0 0 (map Some rs @ [None]) w = Inr ([], w')
      \<and> (\<forall>fd g. count_list (closed_log w') (fd, g)
          = (if 1 \<le> g \<and> g \<le> uses w' fd \<or> (fd, g) = (listener, 0) then 1 else 0))"
    using spec [OF r, of "[None]"] closes_all [OF f(3,2)] f(1) by (simp only: poll_loop.simps) blast
  obtain clients w' where i: "sound {0, listener} clients w'" "echo_so_far w clients w'"
    and r: "\<forall>rest. select_main listener 0 0 (map Some rs @ rest) w = Inr (select_loop listener rest clients w')"
    by (rule select_run [OF assms(1), of rs])
  show "\<exists>w'. select_main listener 0 0 (map Some rs @ [None]) w = Inr (Some ([], w'))
      \<and> (\<forall>fd g. count_list (closed_log w') (fd, g)
          = (if 1 \<le> g \<and> g \<le> uses w' fd \<or> (fd, g) = (listener, 0) then 1 else 0))"
    using spec [OF r, of "[None]"] closes_all [OF i(2,1)] by (simp only: select_loop.simps) blast
  have base: "{0, listener} \<subseteq> {0, listener, epoll_fd}" "{0, listener, epoll_fd} \<subseteq> open_fds w"
    using assms(1,3) by (auto simp: echo_start_def)
  obtain clients w' where i: "sound {0, listener, epoll_fd} clients w'" "echo_so_far w clients w'"
    and r: "\<forall>rest. epoll_main listener 0 0 epoll_fd 0 (map Some es @ rest) w
      = Inr (epoll_loop listener epoll_fd rest clients w')"
    by (rule epoll_run [OF assms(1,2) base assms(5)])
  let ?w = "fold sys_close [listener, epoll_fd] w'"
  have u: "uses w' listener = 0" "uses w' epoll_fd = 0" "distinct [listener, epoll_fd]"
    using i(1) assms(4) by (auto simp: sound_def)
  have "count_list (closed_log ?w) (fd, g)
      = (if 1 \<le> g \<and> g \<le> uses ?w fd \<and> \<not> (fd \<in> set clients \<and> g = uses ?w fd)
           \<or> (fd, g) = (listener, 0) \<or> (fd, g) = (epoll_fd, 0) then 1 else 0)" for fd g
    unfolding fold_close count_list_append closed_in_run [OF i(2,1)] count_conns [OF u(3)] using u(1,2) by auto
  moreover have "epoll_main listener 0 0 epoll_fd 0 (map Some es @ [None]) w = Inr (clients, ?w)"
    using spec [OF r, of "[None]"] by simp
  ultimately show "\<exists>clients w'. epoll_main listener 0 0 epoll_fd 0 (map Some es @ [None]) w = Inr (clients, w')
      \<and> (\<forall>fd g. count_list (closed_log w') (fd, g)
          = (if 1 \<le> g \<and> g \<le> uses w' fd \<and> \<not> (fd \<in> set clients \<and> g = uses w' fd)
               \<or> (fd, g) = (listener, 0) \<or> (fd, g) = (epoll_fd, 0) then 1 else 0))"
    by blast
qed

theorem event_servers_close_all_witness:
  "\<exists>clients w'. epoll_main 3 0 0 4 0 (map Some [[3], [7, 3], [7]] @ [None]) sample_world = Inr (clients, w')
      \<and> (\<forall>fd g. count_list (closed_log w') (fd, g)
          = (if 1 \<le> g \<and> g \<le> uses w' fd \<and> \<not> (fd \<in> set clients \<and> g = uses w' fd)
               \<or> (fd, g) = (3, 0) \<or> (fd, g) = (4, 0) then 1 else 0))"
  by (rule event_servers_close_all [THEN conjunct2, THEN conjunct2]) (simp_all add: sample_defs)

end
