(* ===== verification/Echo_Threads.thy ===== *)
theory Echo_Threads
  imports Echo_Runs
begin

text \<open>
  The echo servers that serve a client by a loop of its own: the threaded server, whose accept
  loop and threads are interleaved pass by pass, and the last of the steps.
\<close>

section \<open>Threads\<close>

text \<open>Every turn of the accept loop or of a thread is a step, or nothing.\<close>

lemma threaded_accept_step: "net_step 1024 (threads, w) (threaded_accept threads w)"
proof -
  have "threaded_accept threads w
      = (threads @ (if 0 \<le> fst (sys_accept w) then [fst (sys_accept w)] else []), snd (threaded_accept threads w))"
    using accept_result [of w] by (auto simp: threaded_accept_def split_beta Let_def split: if_splits)
  moreover have "quiet (snd (threaded_accept threads w)) = quiet (snd (sys_accept w))"
    by (simp add: threaded_accept_def split_beta Let_def)
  ultimately show ?thesis
    by (metis N_accept)
qed

lemma thread_pass_steps: "net_steps 1024 (threads, w) (thread_pass fd threads w)"
proof (cases "fd \<in> set threads")
  case False
  then show ?thesis by (simp add: thread_pass_def)
next
  case True
  then have "thread_pass fd threads w
      = (if fst (thread_client fd w) then threads else removeAll fd threads, snd (thread_client fd w))"
    by (simp add: thread_pass_def split_beta Let_def)
  then show ?thesis
    using thread.service_step [OF True, of w] by (metis r_into_rtranclp)
qed

lemma threaded_run_steps: "net_steps 1024 (threads, w) (threaded_run turns threads w)"
proof (induction turns arbitrary: threads w)
  case (Cons t turns)
  let ?next = "case t of Accepting \<Rightarrow> threaded_accept threads w | Passing fd \<Rightarrow> thread_pass fd threads w"
  have "net_steps 1024 (threads, w) ?next"
    using threaded_accept_step [of threads w] thread_pass_steps [of threads w]
    by (cases t) (simp_all add: r_into_rtranclp)
  moreover have "net_steps 1024 ?next (threaded_run (t # turns) threads w)"
    using Cons [of "fst ?next" "snd ?next"] by (simp add: split_beta Let_def)
  ultimately show ?case
    by (rule rtranclp_trans)
qed simp

text \<open>What the threads have still to receive: each pass makes it smaller or ends a thread.\<close>

definition thread_work :: "int list \<Rightarrow> world \<Rightarrow> nat" where
  "thread_work threads w = (\<Sum>fd \<in> set threads. Suc (incoming_size (arriving w fd)))"

lemma thread_pass_work:
  assumes "t \<in> set threads" and "thread_client t w = (connected, w')"
  shows "thread_work (if connected then threads else removeAll t threads) w' < thread_work threads w"
proof -
  let ?size = "\<lambda>w fd. Suc (incoming_size (arriving w fd))"
  have "conns w' = (conns w)(conn_of w t := snd (sock_recv 1024 (arriving w t)))" "conn_of w' = conn_of w"
    using thread.service_effect(1) [of t w] thread.service_conn_of [of t w] assms(2) by simp_all
  then have other: "(\<Sum>fd \<in> set threads - {t}. ?size w' fd) = (\<Sum>fd \<in> set threads - {t}. ?size w fd)"
    by (intro sum.cong) auto
  have all: "thread_work threads v = ?size v t + (\<Sum>fd \<in> set threads - {t}. ?size v fd)" for v
    unfolding thread_work_def using assms(1) by (intro sum.remove) simp_all
  show ?thesis
  proof (cases connected)
    case True
    then show ?thesis
      using thread_client_decreases [of t w w'] assms(2) other by (simp add: all)
  next
    case False
    then show ?thesis
      using other by (simp add: all [of w]) (simp add: thread_work_def set_removeAll)
  qed
qed

lemma threads_end:
  "\<exists>passes w'. threaded_run (map Passing passes) threads w = ([], w')"
proof (induction "thread_work threads w" arbitrary: threads w rule: less_induct)
  case less
  show ?case
  proof (cases threads)
    case Nil
    then show ?thesis by (intro exI [of _ "[]"]) simp
  next
    case (Cons t ts)
    obtain connected w1 where p: "thread_client t w = (connected, w1)" by fastforce
    obtain passes w' where
        "threaded_run (map Passing passes) (if connected then threads else removeAll t threads) w1 = ([], w')"
      using less [OF thread_pass_work [of t threads w connected w1]] Cons p by (metis list.set_intros(1))
    then show ?thesis
      using Cons p by (intro exI [of _ "t # passes"]) (cases connected; auto simp: thread_pass_def)
  qed
qed

section \<open>The last step\<close>

lemma step4_loop_stream:
  "bytes_sent (conn_of w fd) (snd (step4_loop fd w)) = bytes_sent (conn_of w fd) w @ stream (arriving w fd)
   \<and> closed_log (snd (step4_loop fd w)) = closed_log w \<and> conn_of (snd (step4_loop fd w)) = conn_of w
   \<and> (\<forall>c. c \<noteq> conn_of w fd \<longrightarrow> bytes_sent c (snd (step4_loop fd w)) = bytes_sent c w
        \<and> conns (snd (step4_loop fd w)) c = conns w c)"
proof (induction fd w rule: step4_loop.induct)
  case (1 fd w)
  show ?case
  proof (cases rule: sock_recv_cases [of 1023 "arriving w fd"])
    case (gone r es')
    then show ?thesis
      using stream_gone [of 1023 "arriving w fd" r es']
      by (subst (1 2 3 4 5) step4_loop.simps) (auto simp: bytes_sent_def conn_of_def fun_eq_iff)
  next
    case (data bs es')
    then have "stream (arriving w fd) = bs @ stream es'"
      using stream_recv [of 1023 "arriving w fd" bs es'] by simp
    moreover have "step4_loop fd w = step4_loop fd (sys_send fd bs
        (say (''Received : '' @ c_string (bs @ [NUL]) @ [NL]) (w\<lparr>conns := (conns w)(conn_of w fd := es')\<rparr>)))"
      using data by (subst step4_loop.simps) simp
    ultimately show ?thesis
      using "1.IH" [OF data(1) [symmetric] refl data(2)]
      by (simp add: sys_send_def say_def bytes_sent_def conn_of_def fun_eq_iff)
  qed
qed

lemma bytes_sent_closed:
  "bytes_sent c (sys_close fd w) = bytes_sent c w"
  "closed_log (sys_close fd w) = closed_log w @ [conn_of w fd]"
  "closed_log (say l w) = closed_log w"
  by (simp_all add: sys_close_def bytes_sent_def say_def)

lemma step4_echoes:
  assumes "server_fd \<noteq> - 1" and "bind_result \<noteq> - 1" and "listen_result \<noteq> - 1" and "fd \<noteq> - 1"
    and "step4 server_fd bind_result listen_result fd w = (errors, status, w')"
  shows "status = 0 \<and> bytes_sent (conn_of w fd) w' = bytes_sent (conn_of w fd) w @ stream (arriving w fd)
    \<and> closed_log w' = closed_log w @ [conn_of w fd, conn_of w server_fd]
    \<and> (c \<noteq> conn_of w fd \<longrightarrow> bytes_sent c w' = bytes_sent c w)"
proof -
  define w1 where "w1 = say (''Client connected. Receiving data...'' @ [NL]) (say (''Waiting for client...'' @ [NL]) w)"
  have w1: "conn_of w1 = conn_of w" "conns w1 = conns w" "bytes_sent c w1 = bytes_sent c w" "closed_log w1 = closed_log w" for c
    by (simp_all add: w1_def) (simp add: say_def)
  obtain peer_closed w2 where l: "step4_loop fd w1 = (peer_closed, w2)" by fastforce
  have w2: "bytes_sent (conn_of w fd) w2 = bytes_sent (conn_of w fd) w @ stream (arriving w fd)"
    "closed_log w2 = closed_log w" "conn_of w2 = conn_of w" "c \<noteq> conn_of w fd \<longrightarrow> bytes_sent c w2 = bytes_sent c w"
    using step4_loop_stream [of w1 fd] unfolding l w1 snd_conv by blast+
  have "status = 0" "w' = sys_close server_fd (sys_close fd w2)
      \<or> w' = sys_close server_fd (sys_close fd (say ([NL] @ ''Client disconnected.'' @ [NL]) w2))"
    using assms l [unfolded w1_def] by (auto simp: step4_def start_up_def Let_def split: if_splits)
  then show ?thesis
    using w2 by (auto simp: bytes_sent_closed conns_calls)
qed

section \<open>Properties\<close>

text \<open>
  C26: The threaded server, from its start and for any interleaving of the passes of the accept
  loop and of the threads, \<^verbatim>\<open>accept\<close> returning any descriptor that is not open (one that a
  thread has closed may come back). Every connection gets a thread; what each client whose
  thread runs has got back and has still to send make up its stream, one whose thread has
  ended has got its whole stream back and was closed once, no other connection is touched,
  and there is always a way on, by passes of the threads alone, to the end of all of them.
\<close>

theorem threaded_server_returns_streams:
  assumes "server_fd \<noteq> - 1" and "sent_log w = []" and "closed_log w = []" and "uses w = (\<lambda>_. 0)"
  shows "\<exists>threads' w'. threaded_main server_fd 0 0 turns w = Inr (threads', w') \<and> echo_so_far w threads' w'
    \<and> (\<exists>passes w''. threaded_run (map Passing passes) threads' w' = ([], w'') \<and> echo_so_far w [] w'')"
proof -
  let ?w = "say (''Server listening on port 8080...'' @ [NL]) w"
  obtain threads' w' where run: "threaded_run turns [] ?w = (threads', w')" by fastforce
  obtain passes w'' where rest: "threaded_run (map Passing passes) threads' w' = ([], w'')"
    using threads_end [of threads' w'] by blast
  have sound: "sound {} [] ?w"
    by (simp add: sound_def)
  have steps: "net_steps 1024 ([], ?w) (threads', w')" "net_steps 1024 (threads', w') ([], w'')"
    using threaded_run_steps [of "[]" ?w turns] threaded_run_steps [of threads' w' "map Passing passes"] run rest
    by simp_all
  have "echo_so_far ?w [] ?w"
    using assms(2-4) by (intro echo_so_far_start) (simp_all add: say_def)
  from echo_so_far_steps [OF steps(1) sound _ this] have now: "echo_so_far ?w threads' w'" by simp
  from echo_so_far_steps [OF steps(2) sound_steps [OF steps(1) sound] _ now] have "echo_so_far ?w [] w''" by simp
  moreover have "threaded_main server_fd 0 0 turns w = Inr (threads', w')"
    using assms(1) run by (simp add: threaded_main_def start_up_def)
  ultimately show ?thesis
    using now rest by (metis echo_so_far_say)
qed

theorem threaded_server_returns_streams_witness:
  "\<exists>threads' w'. threaded_main 3 0 0 [Accepting, Passing 7, Accepting, Passing 7] sample_world = Inr (threads', w')
    \<and> echo_so_far sample_world threads' w'
    \<and> (\<exists>passes w''. threaded_run (map Passing passes) threads' w' = ([], w'') \<and> echo_so_far sample_world [] w'')"
  by (rule threaded_server_returns_streams) (simp_all add: sample_world_def)

end
