(* ===== verification/Counters.thy ===== *)
theory Counters
  imports Threads
begin

text \<open>
  The programs of \<^verbatim>\<open>cpp/multi_threading/\<close> in which threads change a variable under a mutex,
  and the two that take two mutexes: their instructions, the locale \<^verbatim>\<open>guarded_counter\<close> of
  the invariant they share, and what every run of them computes.
\<close>

section \<open>Threads that add to a guarded variable\<close>

text \<open>An increment by \<open>k\<close>, followed by printing the variable after each of the texts.\<close>

definition increment :: "nat \<Rightarrow> int \<times> string list \<Rightarrow> instr list" where
  "increment x p = [Load x, Add (fst p), Store x] @ map (\<lambda>s. Show s x) (snd p)"

definition increments :: "nat \<Rightarrow> (int \<times> string list) list \<Rightarrow> instr list" where
  "increments x ps = concat (map (increment x) ps)"

definition section_of :: "nat \<Rightarrow> nat \<Rightarrow> (int \<times> string list) list \<Rightarrow> instr list" where
  "section_of l x ps = Lock l # increments x ps @ [Unlock l]"

definition sections :: "nat \<Rightarrow> nat \<Rightarrow> (int \<times> string list) list list \<Rightarrow> instr list" where
  "sections l x pss = concat (map (section_of l x) pss)"

definition amount :: "(int \<times> string list) list \<Rightarrow> int" where
  "amount ps = sum_list (map fst ps)"

definition total_amount :: "(int \<times> string list) list list \<Rightarrow> int" where
  "total_amount pss = sum_list (map amount pss)"

lemma section_simps:
  "increments x [] = []" "increments x (p # ps) = increment x p @ increments x ps"
  "sections l x [] = []" "sections l x (ps # pss) = Lock l # increments x ps @ Unlock l # sections l x pss"
  "amount [] = 0" "amount (p # ps) = fst p + amount ps"
  "total_amount [] = 0" "total_amount (ps # pss) = amount ps + total_amount pss"
  by (simp_all add: increments_def sections_def section_of_def amount_def total_amount_def)

lemma ordered_shows: "ordered H (map (\<lambda>s. Show s x) ss @ is) = ordered H is"
  by (induction ss) simp_all

lemma ordered_increments: "ordered H (increments x ps @ is) = ordered H is"
  by (induction ps) (simp_all add: section_simps increment_def ordered_shows)

lemma ordered_sections: "ordered {} (sections l x pss)"
  by (induction pss) (simp_all add: section_simps ordered_increments)

text \<open>
  Where a thread is, and what it has still to add (\<open>r\<close>): outside the mutex, or inside with
  an increment not begun, loaded or added.
\<close>

inductive at :: "nat \<Rightarrow> nat \<Rightarrow> machine \<Rightarrow> nat \<Rightarrow> int \<Rightarrow> bool" for l x m t where
  outside: "code m t = sections l x pss \<Longrightarrow> owner m l \<noteq> Some t \<Longrightarrow> r = total_amount pss \<Longrightarrow> at l x m t r"
| inside: "code m t = map (\<lambda>s. Show s x) ss @ increments x ps @ Unlock l # sections l x pss \<Longrightarrow>
    owner m l = Some t \<Longrightarrow> r = amount ps + total_amount pss \<Longrightarrow> at l x m t r"
| loaded: "code m t = Add k # Store x # map (\<lambda>s. Show s x) ss @ increments x ps @ Unlock l # sections l x pss \<Longrightarrow>
    owner m l = Some t \<Longrightarrow> reg m t = mem m x \<Longrightarrow> r = k + amount ps + total_amount pss \<Longrightarrow> at l x m t r"
| added: "code m t = Store x # map (\<lambda>s. Show s x) ss @ increments x ps @ Unlock l # sections l x pss \<Longrightarrow>
    owner m l = Some t \<Longrightarrow> reg m t = mem m x + k \<Longrightarrow> r = k + amount ps + total_amount pss \<Longrightarrow> at l x m t r"

lemma at_finished: "at l x m t r \<Longrightarrow> code m t = [] \<Longrightarrow> r = 0"
  by (induction rule: at.induct) (auto simp: section_simps sections_def section_of_def total_amount_def)

text \<open>
  A step of the thread keeps the sum of the variable and of what the thread has still to
  add, and changes the variable only inside the mutex.
\<close>

abbreviation keeps_sum :: "nat \<Rightarrow> nat \<Rightarrow> machine \<Rightarrow> machine \<Rightarrow> nat \<Rightarrow> int \<Rightarrow> bool" where
  "keeps_sum l x m m' t r \<equiv> \<exists>r'. at l x m' t r' \<and> mem m' x + r' = mem m x + r
     \<and> (mem m' x = mem m x \<or> owner m l = Some t)"

lemma keeps_sum_same: "at l x m' t r \<Longrightarrow> mem m' x = mem m x \<Longrightarrow> keeps_sum l x m m' t r"
  by auto

lemma at_step_outside:
  assumes "code m t = sections l x pss" and "owner m l \<noteq> Some t" and "r = total_amount pss"
    and "thread_step t m = Some m'"
  shows "keeps_sum l x m m' t r"
proof -
  obtain ps pss' where pss: "pss = ps # pss'"
    using thread_step_code [OF assms(4)] assms(1) by (cases pss) (simp_all add: section_simps)
  have "at l x m' t r"
    by (rule at.inside [where ss = "[]" and ps = ps and pss = pss'])
      (use assms pss in \<open>auto simp: thread_step_def section_simps split: if_splits\<close>)
  then show ?thesis
    by (rule keeps_sum_same)
      (use assms pss in \<open>auto simp: thread_step_def section_simps split: if_splits\<close>)
qed

lemma at_step_printing:
  assumes "code m t = map (\<lambda>s. Show s x) (s # ss) @ increments x ps @ Unlock l # sections l x pss"
    and "owner m l = Some t" and "r = amount ps + total_amount pss" and "thread_step t m = Some m'"
  shows "keeps_sum l x m m' t r"
proof (rule keeps_sum_same)
  show "at l x m' t r"
    by (rule at.inside [where ss = ss and ps = ps and pss = pss])
      (use assms in \<open>auto simp: thread_step_def\<close>)
qed (use assms in \<open>auto simp: thread_step_def\<close>)

lemma at_step_leaving:
  assumes "code m t = Unlock l # sections l x pss"
    and "owner m l = Some t" and "r = total_amount pss" and "thread_step t m = Some m'"
  shows "keeps_sum l x m m' t r"
proof (rule keeps_sum_same)
  show "at l x m' t r"
    by (rule at.outside [where pss = pss])
      (use assms in \<open>auto simp: thread_step_def split: if_splits\<close>)
qed (use assms in \<open>auto simp: thread_step_def split: if_splits\<close>)

lemma at_step_loading:
  assumes "code m t = increments x (p # ps) @ Unlock l # sections l x pss"
    and "owner m l = Some t" and "r = amount (p # ps) + total_amount pss" and "thread_step t m = Some m'"
  shows "keeps_sum l x m m' t r"
proof (rule keeps_sum_same)
  show "at l x m' t r"
    by (rule at.loaded [where k = "fst p" and ss = "snd p" and ps = ps and pss = pss])
      (use assms in \<open>auto simp: thread_step_def section_simps increment_def\<close>)
qed (use assms in \<open>auto simp: thread_step_def section_simps increment_def\<close>)

lemma at_step:
  assumes "at l x m t r" and "thread_step t m = Some m'"
  shows "keeps_sum l x m m' t r"
  using assms(1)
proof cases
  case (outside pss)
  then show ?thesis
    using assms(2) by (rule at_step_outside)
next
  case (inside ss ps pss)
  then consider s ss' where "ss = s # ss'" | "ss = []" "ps = []" | p ps' where "ss = []" "ps = p # ps'"
    by (metis list.exhaust)
  then show ?thesis
  proof cases
    case 1
    then show ?thesis
      using inside assms(2) by (intro at_step_printing) auto
  next
    case 2
    then show ?thesis
      using inside assms(2) by (intro at_step_leaving) (auto simp: section_simps)
  next
    case 3
    then show ?thesis
      using inside assms(2) by (intro at_step_loading) auto
  qed
next
  case (loaded k ss ps pss)
  have "at l x m' t r"
    by (rule at.added [where k = k and ss = ss and ps = ps and pss = pss])
      (use loaded assms(2) in \<open>auto simp: thread_step_def\<close>)
  then show ?thesis
    by (rule keeps_sum_same) (use loaded assms(2) in \<open>auto simp: thread_step_def\<close>)
next
  case (added ss ps pss k)
  have "at l x m' t (r - k)"
    by (rule at.inside [where ss = ss and ps = ps and pss = pss])
      (use added assms(2) in \<open>auto simp: thread_step_def\<close>)
  then show ?thesis
    using added assms(2) by (intro exI [of _ "r - k"]) (auto simp: thread_step_def)
qed

text \<open>The step of another thread leaves it where it is.\<close>

lemma at_other:
  assumes "at l x m u r" and "code m' u = code m u" and "reg m' u = reg m u"
    and "owner m' l \<noteq> Some u \<longleftrightarrow> owner m l \<noteq> Some u" and "mem m' x = mem m x \<or> owner m l \<noteq> Some u"
  shows "at l x m' u r"
  using assms(1)
proof cases
  case (outside pss)
  then show ?thesis
    using assms by (intro at.outside [where pss = pss]) auto
next
  case (inside ss ps pss)
  then show ?thesis
    using assms by (intro at.inside [where ss = ss and ps = ps and pss = pss]) auto
next
  case (loaded k ss ps pss)
  then show ?thesis
    using assms by (intro at.loaded [where k = k and ss = ss and ps = ps and pss = pss]) auto
next
  case (added ss ps pss k)
  then show ?thesis
    using assms by (intro at.added [where k = k and ss = ss and ps = ps and pss = pss]) auto
qed

lemma thread_step_others:
  "thread_step t m = Some m' \<Longrightarrow> u \<noteq> t \<Longrightarrow>
     code m' u = code m u \<and> reg m' u = reg m u \<and> (owner m' l = Some u \<longleftrightarrow> owner m l = Some u)"
  by (auto simp: thread_step_def Let_def split: list.splits instr.splits if_splits)

locale guarded_counter =
  fixes threads :: "nat set"
    and prog :: "nat \<Rightarrow> instr list"
    and work :: "nat \<Rightarrow> (int \<times> string list) list list"
    and l x :: nat
  assumes finite_counters: "finite threads"
    and only_counters: "t \<notin> threads \<Longrightarrow> work t = []"
    and prog_sections: "prog t = sections l x (work t)"
begin

sublocale lock_order threads prog
  by unfold_locales (simp_all add: finite_counters only_counters prog_sections ordered_sections section_simps)

definition counted :: "machine \<Rightarrow> bool" where
  "counted m \<longleftrightarrow> (\<exists>r. (\<forall>t. at l x m t (r t))
     \<and> mem m x + (\<Sum>t \<in> threads. r t) = (\<Sum>t \<in> threads. total_amount (work t)))"

lemma counted_step:
  assumes "runs (start prog) m" and "thread_step t m = Some m'" and "counted m"
  shows "counted m'"
proof -
  obtain r where r: "\<And>u. at l x m u (r u)"
      "mem m x + (\<Sum>u \<in> threads. r u) = (\<Sum>u \<in> threads. total_amount (work u))"
    using assms(3) by (auto simp: counted_def)
  obtain r' where r': "at l x m' t r'" "mem m' x + r' = mem m x + r t"
      "mem m' x = mem m x \<or> owner m l = Some t"
    using at_step [OF r(1) assms(2)] by blast
  have t: "t \<in> threads"
    using thread_step_code [OF assms(2)] reach_inv [OF assms(1)] by blast
  have "at l x m' u ((r(t := r')) u)" for u
  proof (cases "u = t")
    case False
    then show ?thesis
      using at_other [OF r(1) [of u]] thread_step_others [OF assms(2), of u l] r'(3) by auto
  qed (use r' in simp)
  moreover have "(\<Sum>u \<in> threads. (r(t := r')) u) = (\<Sum>u \<in> threads. r u) - r t + r'"
    using t finite_counters by (simp add: sum.remove [of threads t])
  ultimately show ?thesis
    using r(2) r'(2) unfolding counted_def by (intro exI [of _ "r(t := r')"]) (simp only:, simp)
qed

lemma counted_start: "counted (start prog)"
proof -
  have "at l x (start prog) t (total_amount (work t))" for t
    by (rule at.outside [where pss = "work t"]) (simp_all add: start_def prog_sections)
  then show ?thesis
    unfolding counted_def by (intro exI [of _ "\<lambda>t. total_amount (work t)"]) (simp add: start_def)
qed

lemma reach_counted: "runs (start prog) m \<Longrightarrow> counted m"
proof (induction rule: rtranclp_induct)
  case base
  then show ?case by (rule counted_start)
next
  case (step m m')
  then obtain t where "thread_step t m = Some m'"
    by (auto elim: machine_stepE)
  with step show ?case
    by (blast intro: counted_step)
qed

lemma final_value:
  assumes "runs (start prog) m" and "finished m"
  shows "mem m x = (\<Sum>t \<in> threads. total_amount (work t))"
proof -
  obtain r where r: "\<And>u. at l x m u (r u)"
      "mem m x + (\<Sum>u \<in> threads. r u) = (\<Sum>u \<in> threads. total_amount (work u))"
    using reach_counted [OF assms(1)] by (auto simp: counted_def)
  have "r u = 0" for u
    using at_finished [OF r(1)] assms(2) by (simp add: finished_def)
  then show ?thesis using r(2) by simp
qed

text \<open>Two threads are never inside the mutex at the same time.\<close>

lemma exclusive:
  assumes "runs (start prog) m" and "\<not> ordered {} (code m t)" and "\<not> ordered {} (code m u)"
  shows "t = u"
proof -
  have in_section: "owner m l = Some v" if "\<not> ordered {} (code m v)" for v
  proof -
    obtain r where "at l x m v r"
      using reach_counted [OF assms(1)] by (auto simp: counted_def)
    then show ?thesis
      using that by cases (auto simp: ordered_sections)
  qed
  show ?thesis
    using in_section [OF assms(2)] in_section [OF assms(3)] by simp
qed

end

end
