(* ===== verification/Thread_Programs.thy ===== *)
theory Thread_Programs
  imports Counters
begin

text \<open>
  The programs themselves, instruction by instruction, the interpretations of
  \<^verbatim>\<open>lock_order\<close> and \<^verbatim>\<open>guarded_counter\<close> on them, and their properties. Sleeping is not
  modelled: every interleaving is considered anyway.
\<close>

section \<open>Programs\<close>

text \<open>The threads that \<^verbatim>\<open>main\<close> starts and joins.\<close>

definition spawn :: "instr list list \<Rightarrow> nat \<Rightarrow> instr list" where
  "spawn ps t = (if t < length ps then ps ! t else [])"

definition mutex_addMoney :: "instr list" where
  "mutex_addMoney = [Lock 0, Load 0, Add 1, Store 0, Unlock 0]"

definition mutex_program :: "nat \<Rightarrow> instr list" where
  "mutex_program = spawn [mutex_addMoney, mutex_addMoney]"

definition sync_addMoney :: "int \<Rightarrow> instr list" where
  "sync_addMoney val = [Lock 0, Load 0, Add val, Store 0, Unlock 0]"

definition thread_sync_program :: "nat \<Rightarrow> instr list" where
  "thread_sync_program = spawn [sync_addMoney 100, sync_addMoney 200]"

text \<open>A \<^verbatim>\<open>for\<close> loop from 0 to \<open>n\<close> whose body does not depend on the index.\<close>

definition repeat_code :: "nat \<Rightarrow> instr list \<Rightarrow> instr list" where
  "repeat_code n body = concat (replicate n body)"

definition increaseTheCounter :: "nat \<Rightarrow> instr list" where
  "increaseTheCounter n = repeat_code n [Lock 0, Load 0, Add 1, Store 0, Unlock 0]"

definition try_lock_mutex_program :: "nat \<Rightarrow> instr list" where
  "try_lock_mutex_program = spawn [increaseTheCounter 100000, increaseTheCounter 100000]"

text \<open>The lock object is destroyed, and the mutex released, at the end of the function.\<close>

definition guarded_task :: "string \<Rightarrow> nat \<Rightarrow> instr list" where
  "guarded_task threadNumber loopFor =
     [Lock 0] @ repeat_code loopFor [Load 0, Add 1, Store 0, Show threadNumber 0] @ [Unlock 0]"

definition lock_guard_program :: "nat \<Rightarrow> instr list" where
  "lock_guard_program = spawn [guarded_task ''T1 '' 10, guarded_task ''T0 '' 10]"

definition unique_lock_program :: "nat \<Rightarrow> instr list" where
  "unique_lock_program = spawn [guarded_task ''T1 '' 10, guarded_task ''T0 '' 10]"

definition dead_lock_thread1 :: "instr list" where
  "dead_lock_thread1 =
     [Lock 1, Lock 2, Print ''Critical section of Thread Thread One'', Unlock 1, Unlock 2]"

definition dead_lock_thread2 :: "instr list" where
  "dead_lock_thread2 =
     [Lock 1, Lock 2, Print ''Critical section of Thread Thread Two'', Unlock 2, Unlock 1]"

definition dead_lock_program :: "nat \<Rightarrow> instr list" where
  "dead_lock_program = spawn [dead_lock_thread1, dead_lock_thread2]"

text \<open>The second thread with its locks taken the other way round, against the advice of the comment.\<close>

definition reversed_program :: "nat \<Rightarrow> instr list" where
  "reversed_program = spawn [dead_lock_thread1,
     [Lock 2, Lock 1, Print ''Critical section of Thread Thread Two'', Unlock 2, Unlock 1]]"

section \<open>Interpretations\<close>

definition work_of :: "(int \<times> string list) list list list \<Rightarrow> nat \<Rightarrow> (int \<times> string list) list list" where
  "work_of ws t = (if t < length ws then ws ! t else [])"

lemma spawn_sections:
  assumes "ps = map (sections l x) ws"
  shows "spawn ps t = sections l x (work_of ws t)"
  using assms by (simp add: spawn_def work_of_def section_simps)

lemma mutex_sections: "mutex_addMoney = sections 0 0 [[(1, [])]]"
  by (simp add: mutex_addMoney_def section_simps increment_def)

lemma sync_sections: "sync_addMoney v = sections 0 0 [[(v, [])]]"
  by (simp add: sync_addMoney_def section_simps increment_def)

lemma increase_sections: "increaseTheCounter n = sections 0 0 (replicate n [(1, [])])"
  by (induction n) (simp_all add: increaseTheCounter_def repeat_code_def section_simps increment_def)

lemma repeat_increments:
  "repeat_code n [Load 0, Add 1, Store 0, Show s 0] = increments 0 (replicate n (1, [s]))"
  by (induction n) (simp_all add: repeat_code_def section_simps increment_def)

lemma task_sections: "guarded_task s n = sections 0 0 [replicate n (1, [s])]"
  by (simp add: guarded_task_def repeat_increments section_simps)

interpretation mutex: guarded_counter "{..<2}" mutex_program "work_of [[[(1, [])]], [[(1, [])]]]" 0 0
proof
  show "mutex_program t = sections 0 0 (work_of [[[(1, [])]], [[(1, [])]]] t)" for t
    unfolding mutex_program_def by (rule spawn_sections) (simp add: mutex_sections)
qed (simp_all add: work_of_def)

interpretation thread_sync:
  guarded_counter "{..<2}" thread_sync_program "work_of [[[(100, [])]], [[(200, [])]]]" 0 0
proof
  show "thread_sync_program t = sections 0 0 (work_of [[[(100, [])]], [[(200, [])]]] t)" for t
    unfolding thread_sync_program_def by (rule spawn_sections) (simp add: sync_sections)
qed (simp_all add: work_of_def)

interpretation try_lock_mutex:
  guarded_counter "{..<2}" try_lock_mutex_program
    "work_of [replicate 100000 [(1, [])], replicate 100000 [(1, [])]]" 0 0
proof
  show "try_lock_mutex_program t
      = sections 0 0 (work_of [replicate 100000 [(1, [])], replicate 100000 [(1, [])]] t)" for t
    unfolding try_lock_mutex_program_def by (rule spawn_sections) (simp only: increase_sections list.map)
qed (simp_all add: work_of_def)

interpretation lock_guard:
  guarded_counter "{..<2}" lock_guard_program
    "work_of [[replicate 10 (1, [''T1 ''])], [replicate 10 (1, [''T0 ''])]]" 0 0
proof
  show "lock_guard_program t
      = sections 0 0 (work_of [[replicate 10 (1, [''T1 ''])], [replicate 10 (1, [''T0 ''])]] t)" for t
    unfolding lock_guard_program_def by (rule spawn_sections) (simp only: task_sections list.map)
qed (simp_all add: work_of_def)

interpretation dead_lock: lock_order "{..<2}" dead_lock_program
proof
  show "ordered {} (dead_lock_program t)" for t
    by (auto simp: dead_lock_program_def spawn_def dead_lock_thread1_def dead_lock_thread2_def
        less_Suc_eq numeral_2_eq_2)
qed (simp_all add: dead_lock_program_def spawn_def)

section \<open>Properties\<close>

lemma unique_lock_same: "unique_lock_program = lock_guard_program"
  by (simp add: unique_lock_program_def lock_guard_program_def)

lemma sum_upto_2:
  fixes f :: "nat \<Rightarrow> int"
  shows "(\<Sum>t \<in> {..<2}. f t) = f 0 + f 1"
  by (simp add: numeral_2_eq_2)

lemma total_replicate: "total_amount (replicate n ps) = int n * amount ps"
  by (induction n) (simp_all add: section_simps algebra_simps)

lemma amount_replicate: "amount (replicate n p) = int n * fst p"
  by (induction n) (simp_all add: section_simps algebra_simps)

lemmas work_totals = sum_upto_2 work_of_def section_simps total_replicate amount_replicate

text \<open>
  C22: However the scheduler interleaves their instructions, the two threads of the mutex,
  the thread synchronisation, the counter, the lock guard and the unique lock programs
  can always run to their end, and when they have ended the variable has the exact sum: 2,
  300, 200000, 20 and 20.
\<close>

theorem counters_exact:
  assumes "(p, v) \<in> {(mutex_program, 2), (thread_sync_program, 300),
      (try_lock_mutex_program, 200000), (lock_guard_program, 20), (unique_lock_program, 20)}"
    and "runs (start p) m"
  shows "(\<exists>m'. runs m m' \<and> finished m') \<and> (finished m \<longrightarrow> mem m 0 = v)"
proof -
  consider "p = mutex_program" "v = 2" | "p = thread_sync_program" "v = 300"
    | "p = try_lock_mutex_program" "v = 200000" | "p = lock_guard_program" "v = 20"
    using assms(1) unique_lock_same by auto
  then show ?thesis
  proof cases
    case 1
    then show ?thesis
      using assms(2) mutex.completes mutex.final_value [of m] by (auto simp: work_totals)
  next
    case 2
    then show ?thesis
      using assms(2) thread_sync.completes thread_sync.final_value [of m] by (auto simp: work_totals)
  next
    case 3
    then show ?thesis
      using assms(2) try_lock_mutex.completes try_lock_mutex.final_value [of m]
      by (auto simp: work_totals simp del: replicate.simps)
  next
    case 4
    then show ?thesis
      using assms(2) lock_guard.completes lock_guard.final_value [of m]
      by (auto simp: work_totals simp del: replicate.simps)
  qed
qed

theorem counters_exact_witness:
  "\<exists>m'. runs (start thread_sync_program) m' \<and> finished m' \<and> mem m' 0 = 300"
proof -
  have p: "(thread_sync_program, 300) \<in> {(mutex_program, 2), (thread_sync_program, 300),
      (try_lock_mutex_program, 200000), (lock_guard_program, 20), (unique_lock_program, 20)}"
    by simp
  from counters_exact [OF p rtranclp.rtrancl_refl] obtain m' where
    m': "runs (start thread_sync_program) m'" "finished m'"
    by blast
  then show ?thesis
    using counters_exact [OF p m'(1)] by blast
qed

text \<open>
  C24: No deadlock. In every state that the two threads of the dead lock program can reach,
  some thread can go on unless both have ended, and both can be run to their end.
\<close>

theorem dead_lock_program_completes:
  assumes "runs (start dead_lock_program) m"
  shows "(finished m \<or> (\<exists>m'. machine_step m m')) \<and> (\<exists>m'. runs m m' \<and> finished m')"
  using dead_lock.no_deadlock [OF assms] dead_lock.completes [OF assms] by blast

theorem dead_lock_program_completes_witness:
  "\<exists>m'. runs (start dead_lock_program) m' \<and> finished m'"
  using dead_lock_program_completes [OF rtranclp.rtrancl_refl] by blast

text \<open>With the order reversed, both threads can be left waiting for each other.\<close>

lemma reversed_order_deadlocks:
  "\<exists>m. runs (start reversed_program) m \<and> \<not> finished m \<and> (\<forall>t. thread_step t m = None)"
proof -
  define m1 where "m1 = (start reversed_program)\<lparr>owner := [1 \<mapsto> 0],
    code := (reversed_program)(0 := tl dead_lock_thread1)\<rparr>"
  define m2 where "m2 = m1\<lparr>owner := [1 \<mapsto> 0, 2 \<mapsto> 1],
    code := (code m1)(1 := tl (reversed_program 1))\<rparr>"
  have "thread_step 0 (start reversed_program) = Some m1"
    by (simp add: thread_step_def start_def m1_def reversed_program_def spawn_def dead_lock_thread1_def)
  moreover have "thread_step 1 m1 = Some m2"
    by (simp add: thread_step_def start_def m1_def m2_def reversed_program_def spawn_def dead_lock_thread1_def
        Let_def)
  ultimately have "runs (start reversed_program) m2"
    by (meson machine_step.intros converse_rtranclp_into_rtranclp rtranclp.rtrancl_refl)
  moreover have "\<not> finished m2"
    by (auto simp: finished_def m2_def m1_def reversed_program_def spawn_def intro: exI [of _ 1])
  moreover have "thread_step t m2 = None" for t
    by (auto simp: thread_step_def m2_def m1_def reversed_program_def spawn_def dead_lock_thread1_def
        Let_def split: list.splits)
  ultimately show ?thesis by blast
qed

end
