(* ===== verification/Producer_Consumer.thy ===== *)
theory Producer_Consumer
  imports Prelude "HOL-Library.Multiset"
begin

text \<open>
  The bounded buffer of \<^verbatim>\<open>cpp/multi_threading/producer_consumer.cpp\<close> as a step relation. A
  step is what a thread does while it holds the mutex, so these steps exclude each other;
  \<^verbatim>\<open>notify_one\<close> comes after the mutex has been released and is a step of its own.
\<close>

section \<open>State and steps\<close>

text \<open>
  A thread is about to lock the mutex and test its condition (at the head of the loop or
  after it was woken), or has unlocked it and is about to notify, or waits on the
  condition variable, or has returned.
\<close>

datatype phase = Running | Notifying | Waiting | Returned

record pc_state =
  buffer :: "int list"
  val :: int
  producer :: phase
  consumer :: phase
  produced :: "int list"
  consumed :: "int list"

definition maxBufferSize :: nat where "maxBufferSize = 50"

definition pc_init :: "int \<Rightarrow> pc_state" where
  "pc_init v = \<lparr>buffer = [], val = v, producer = Running, consumer = Running, produced = [], consumed = []\<rparr>"

definition woken :: "phase \<Rightarrow> phase" where
  "woken p = (if p = Waiting then Running else p)"

text \<open>One step of the producer; \<open>None\<close> when it waits or has returned.\<close>

definition producer_step :: "pc_state \<Rightarrow> pc_state option" where
  "producer_step s =
     (case producer s of
        Running \<Rightarrow>
          if val s = 0 then Some (s\<lparr>producer := Returned\<rparr>)
          else if length (buffer s) < maxBufferSize
            then Some (s\<lparr>buffer := buffer s @ [val s], produced := produced s @ [val s],
                         val := val s - 1, producer := Notifying\<rparr>)
            else Some (s\<lparr>producer := Waiting\<rparr>)
      | Notifying \<Rightarrow> Some (s\<lparr>consumer := woken (consumer s), producer := Running\<rparr>)
      | Waiting \<Rightarrow> None
      | Returned \<Rightarrow> None)"

definition consumer_step :: "pc_state \<Rightarrow> pc_state option" where
  "consumer_step s =
     (case consumer s of
        Running \<Rightarrow>
          if length (buffer s) > 0
            then Some (s\<lparr>buffer := butlast (buffer s), consumed := consumed s @ [last (buffer s)],
                         consumer := Notifying\<rparr>)
            else Some (s\<lparr>consumer := Waiting\<rparr>)
      | Notifying \<Rightarrow> Some (s\<lparr>producer := woken (producer s), consumer := Running\<rparr>)
      | Waiting \<Rightarrow> None
      | Returned \<Rightarrow> None)"

text \<open>
  The steps the threads take, and the wake-ups without a notification that \<^verbatim>\<open>wait\<close> is
  allowed to have.
\<close>

inductive pc_step :: "pc_state \<Rightarrow> pc_state \<Rightarrow> bool" where
  Produce: "producer_step s = Some s' \<Longrightarrow> pc_step s s'"
| Consume: "consumer_step s = Some s' \<Longrightarrow> pc_step s s'"

inductive spurious :: "pc_state \<Rightarrow> pc_state \<Rightarrow> bool" where
  Producer: "producer s = Waiting \<Longrightarrow> spurious s (s\<lparr>producer := Running\<rparr>)"
| Consumer: "consumer s = Waiting \<Longrightarrow> spurious s (s\<lparr>consumer := Running\<rparr>)"

definition pc_reachable :: "int \<Rightarrow> pc_state \<Rightarrow> bool" where
  "pc_reachable v = (\<lambda>s w. pc_step s w \<or> spurious s w)\<^sup>*\<^sup>* (pc_init v)"

inductive_cases pc_stepE: "pc_step s s'"
inductive_cases spuriousE: "spurious s s'"

section \<open>The invariant\<close>

text \<open>
  Besides the bookkeeping: a waiting consumer with values in the buffer, or a waiting
  producer with room in it, has a notification on its way.
\<close>

definition pc_inv :: "int \<Rightarrow> pc_state \<Rightarrow> bool" where
  "pc_inv v s \<longleftrightarrow>
     0 \<le> val s \<and> produced s = rev [val s + 1..v]
   \<and> length (buffer s) \<le> maxBufferSize
   \<and> mset (produced s) = mset (consumed s) + mset (buffer s)
   \<and> consumer s \<noteq> Returned \<and> (producer s = Returned \<longrightarrow> val s = 0)
   \<and> (consumer s = Waiting \<longrightarrow> buffer s \<noteq> [] \<longrightarrow> producer s = Notifying)
   \<and> (producer s = Waiting \<longrightarrow> length (buffer s) < maxBufferSize \<longrightarrow> consumer s = Notifying)"

lemma pc_inv_init: "0 \<le> v \<Longrightarrow> pc_inv v (pc_init v)"
  by (simp add: pc_inv_def pc_init_def)

lemma upto_rev_snoc: "0 < k \<Longrightarrow> k \<le> v \<Longrightarrow> rev [k..v] = rev [k + 1..v] @ [k]"
  by (simp add: upto.simps [of k v])

lemma upto_step:
  fixes k v :: int
  assumes "rev [k + 1..v] = p" and "k \<noteq> 0" and "0 \<le> k"
  shows "k \<le> v \<longrightarrow> rev [k..v] = p @ [k]"
  using assms upto_rev_snoc [of k v] by auto

text \<open>The value never exceeds the one started with.\<close>

definition pc_low :: "int \<Rightarrow> pc_state \<Rightarrow> bool" where
  "pc_low v s \<longleftrightarrow> val s \<le> v"

lemma mset_butlast_last: "xs \<noteq> [] \<Longrightarrow> mset (butlast xs) + {#last xs#} = mset xs"
  by (metis append_butlast_last_id mset.simps(1) mset.simps(2) mset_append)

lemma producer_step_inv:
  assumes "producer_step s = Some s'" and "pc_inv v s" and "pc_low v s"
  shows "pc_inv v s' \<and> pc_low v s'"
  using assms upto_step [of "val s" v "produced s"]
  by (cases "producer s"; cases "consumer s";
      auto simp: producer_step_def pc_inv_def pc_low_def woken_def maxBufferSize_def split: if_splits)

lemma consumer_step_inv:
  assumes "consumer_step s = Some s'" and "pc_inv v s" and "pc_low v s"
  shows "pc_inv v s' \<and> pc_low v s'"
  using assms mset_butlast_last [of "buffer s"]
  by (cases "producer s"; cases "consumer s";
      auto simp: consumer_step_def pc_inv_def pc_low_def woken_def maxBufferSize_def split: if_splits)

lemma spurious_inv: "spurious s s' \<Longrightarrow> pc_inv v s \<and> pc_low v s \<Longrightarrow> pc_inv v s' \<and> pc_low v s'"
  by (auto elim!: spuriousE simp: pc_inv_def pc_low_def)

lemma pc_run_inv:
  assumes "(\<lambda>s w. pc_step s w \<or> spurious s w)\<^sup>*\<^sup>* s s'" and "pc_inv v s \<and> pc_low v s"
  shows "pc_inv v s' \<and> pc_low v s'"
  using assms
proof (induction rule: rtranclp_induct)
  case (step s s')
  then show ?case
    by (meson consumer_step_inv pc_stepE producer_step_inv spurious_inv)
qed simp

lemma pc_reachable_inv:
  assumes "pc_reachable v s" and "0 \<le> v"
  shows "pc_inv v s \<and> pc_low v s"
proof (rule pc_run_inv)
  show "(\<lambda>s w. pc_step s w \<or> spurious s w)\<^sup>*\<^sup>* (pc_init v) s"
    using assms(1) by (simp add: pc_reachable_def)
  show "pc_inv v (pc_init v) \<and> pc_low v (pc_init v)"
    using pc_inv_init [OF assms(2)] by (simp add: pc_low_def pc_init_def)
qed

section \<open>Progress\<close>

text \<open>A measure that every step of the threads makes smaller.\<close>

definition phase_weight :: "phase \<Rightarrow> nat" where
  "phase_weight p = (case p of Running \<Rightarrow> 1 | Notifying \<Rightarrow> 3 | Waiting \<Rightarrow> 0 | Returned \<Rightarrow> 0)"

definition pc_measure :: "pc_state \<Rightarrow> nat" where
  "pc_measure s = 6 * nat (val s) + 3 * length (buffer s) + phase_weight (producer s) + phase_weight (consumer s)"

lemma producer_step_measure:
  "producer_step s = Some s' \<Longrightarrow> 0 \<le> val s \<Longrightarrow> pc_measure s' < pc_measure s"
  by (cases "producer s"; cases "consumer s";
      auto simp: producer_step_def pc_measure_def phase_weight_def woken_def nat_diff_distrib split: if_splits)

lemma consumer_step_measure:
  "consumer_step s = Some s' \<Longrightarrow> pc_measure s' < pc_measure s"
  by (cases "producer s"; cases "consumer s"; cases "buffer s" rule: rev_cases;
      auto simp: consumer_step_def pc_measure_def phase_weight_def woken_def split: if_splits)

lemma pc_step_measure: "pc_step s s' \<Longrightarrow> 0 \<le> val s \<Longrightarrow> pc_measure s' < pc_measure s"
  by (auto elim!: pc_stepE simp: producer_step_measure consumer_step_measure)

lemma spurious_measure: "spurious s s' \<Longrightarrow> pc_measure s' = Suc (pc_measure s)"
  by (auto elim!: spuriousE simp: pc_measure_def phase_weight_def)

text \<open>However the steps are chosen, there are at most as many as the measure says.\<close>

lemma pc_steps_bounded:
  assumes "(pc_step ^^ n) s s'" and "pc_inv v s" and "pc_low v s"
  shows "n + pc_measure s' \<le> pc_measure s"
  using assms
proof (induction n arbitrary: s')
  case (Suc n)
  then obtain t where t: "(pc_step ^^ n) s t" "pc_step t s'" by auto
  have "(\<lambda>s w. pc_step s w \<or> spurious s w)\<^sup>*\<^sup>* s t"
    using relpowp_imp_rtranclp [OF t(1)] by (rule rtranclp_mono [THEN predicate2D, rotated]) blast
  then have "pc_inv v t \<and> pc_low v t"
    using Suc.prems(2,3) pc_run_inv by blast
  then have "0 \<le> val t" by (simp add: pc_inv_def)
  then show ?case
    using Suc.IH [OF t(1) Suc.prems(2,3)] pc_step_measure [OF t(2)] by simp
qed simp

definition stuck :: "pc_state \<Rightarrow> bool" where
  "stuck s \<longleftrightarrow> producer_step s = None \<and> consumer_step s = None"

lemma stuck_phases:
  "stuck s \<longleftrightarrow> producer s \<in> {Waiting, Returned} \<and> consumer s \<in> {Waiting, Returned}"
  by (auto simp: stuck_def producer_step_def consumer_step_def split: phase.splits if_splits)

lemma stuck_iff: "stuck s \<longleftrightarrow> \<not> (\<exists>s'. pc_step s s')"
  unfolding stuck_def
  by (metis Consume Produce not_None_eq pc_stepE option.distinct(1))

lemma runs_to_stuck:
  assumes "pc_inv v s" and "pc_low v s"
  shows "\<exists>s'. pc_step\<^sup>*\<^sup>* s s' \<and> stuck s'"
  using assms
proof (induction "pc_measure s" arbitrary: s rule: less_induct)
  case less
  show ?case
  proof (cases "stuck s")
    case True
    then show ?thesis by blast
  next
    case False
    then obtain s1 where s1: "pc_step s s1"
      using stuck_iff by blast
    have "pc_measure s1 < pc_measure s"
      using pc_step_measure [OF s1] less.prems(1) by (simp add: pc_inv_def)
    moreover have "pc_inv v s1 \<and> pc_low v s1"
      using s1 less.prems producer_step_inv consumer_step_inv by (blast elim: pc_stepE)
    ultimately show ?thesis
      using less.hyps [of s1] s1 by (meson converse_rtranclp_into_rtranclp)
  qed
qed

section \<open>Properties\<close>

text \<open>
  C17: Nothing is lost, invented or duplicated, in every interleaving and with every
  spurious wake-up: the buffer never holds more than 50 values, the values produced so
  far are those from the first down to the current one, and they are exactly the consumed
  values and those in the buffer.
\<close>

theorem buffer_conserves_values:
  assumes "pc_reachable v s" and "0 \<le> v"
  shows "length (buffer s) \<le> 50 \<and> produced s = rev [val s + 1..v]
    \<and> mset (produced s) = mset (consumed s) + mset (buffer s)"
  using pc_reachable_inv [OF assms] unfolding pc_inv_def maxBufferSize_def by blast

theorem buffer_conserves_values_witness:
  "length (buffer (pc_init 100)) \<le> 50 \<and> produced (pc_init 100) = rev [val (pc_init 100) + 1..100]
    \<and> mset (produced (pc_init 100)) = mset (consumed (pc_init 100)) + mset (buffer (pc_init 100))"
  by (rule buffer_conserves_values) (simp_all add: pc_reachable_def)

text \<open>
  C18: No wake-up is lost, and the program does not end. From every reachable state, however
  they are scheduled, the threads can take only boundedly many steps (a spurious wake-up
  allows one more), so every run comes to a state in which neither can go on; and in every
  such state the producer has returned, all values have been consumed, and the consumer
  waits for ever, so that \<^verbatim>\<open>main\<close> never gets past joining it.
\<close>

theorem drains_then_waits:
  assumes "pc_reachable v s" and "0 \<le> v"
  shows "(\<forall>n s'. (pc_step ^^ n) s s' \<longrightarrow> n + pc_measure s' \<le> pc_measure s)
    \<and> (\<forall>s'. spurious s s' \<longrightarrow> pc_measure s' = Suc (pc_measure s))
    \<and> (\<exists>s'. pc_step\<^sup>*\<^sup>* s s' \<and> stuck s')
    \<and> (stuck s \<longleftrightarrow> \<not> (\<exists>s'. pc_step s s'))
    \<and> (stuck s \<longrightarrow> producer s = Returned \<and> consumer s = Waiting \<and> buffer s = []
         \<and> mset (consumed s) = mset [1..v])"
proof -
  note inv = pc_reachable_inv [OF assms]
  have "producer s = Returned \<and> consumer s = Waiting \<and> buffer s = [] \<and> mset (consumed s) = mset [1..v]"
    if "stuck s"
    using that inv by (auto simp: stuck_phases pc_inv_def maxBufferSize_def)
  then show ?thesis
    using runs_to_stuck [of v s] inv pc_steps_bounded spurious_measure stuck_iff by blast
qed

theorem drains_then_waits_witness:
  "\<exists>s'. pc_step\<^sup>*\<^sup>* (pc_init 100) s' \<and> stuck s'"
  by (rule drains_then_waits [where v = 100, THEN conjunct2, THEN conjunct2, THEN conjunct1])
    (simp_all add: pc_reachable_def)

end
