(* ===== verification/Try_Lock_Std.thy ===== *)
theory Try_Lock_Std
  imports Main
begin

text \<open>
  The program of \<^verbatim>\<open>cpp/multi_threading/try_lock_std.cpp\<close>: two threads count X and Y up to
  five times each, a third collects both whenever it gets both mutexes. A step is what a
  thread does while it holds its mutexes.
\<close>

record collector =
  X :: int
  Y :: int
  left_X :: nat
  left_Y :: nat
  useCount :: int
  XplusY :: int
  ended :: bool

definition collector_init :: collector where
  "collector_init = \<lparr>X = 0, Y = 0, left_X = 5, left_Y = 5, useCount = 5, XplusY = 0, ended = False\<rparr>"

text \<open>One iteration of \<^verbatim>\<open>incrementXY\<close> on X or on Y; a thread whose loop is over does nothing.\<close>

definition increment_X :: "collector \<Rightarrow> collector" where
  "increment_X s = (if left_X s = 0 then s else s\<lparr>X := X s + 1, left_X := left_X s - 1\<rparr>)"

definition increment_Y :: "collector \<Rightarrow> collector" where
  "increment_Y s = (if left_Y s = 0 then s else s\<lparr>Y := Y s + 1, left_Y := left_Y s - 1\<rparr>)"

text \<open>One iteration of \<^verbatim>\<open>consumeXY\<close>; \<open>locked\<close> says whether \<^verbatim>\<open>try_lock\<close> got both mutexes.\<close>

definition consumeXY :: "bool \<Rightarrow> collector \<Rightarrow> collector" where
  "consumeXY locked s =
     (if ended s \<or> \<not> locked then s
      else
        let s1 = (if X s \<noteq> 0 \<and> Y s \<noteq> 0
                  then s\<lparr>useCount := useCount s - 1, XplusY := XplusY s + (X s + Y s), X := 0, Y := 0\<rparr>
                  else s)
        in s1\<lparr>ended := (useCount s1 = 0)\<rparr>)"

datatype turn = Turn_X | Turn_Y | Turn_consumer bool

fun take_turn :: "turn \<Rightarrow> collector \<Rightarrow> collector" where
  "take_turn Turn_X s = increment_X s"
| "take_turn Turn_Y s = increment_Y s"
| "take_turn (Turn_consumer locked) s = consumeXY locked s"

definition collector_run :: "turn list \<Rightarrow> collector \<Rightarrow> collector" where
  "collector_run ts s = fold take_turn ts s"

text \<open>What has not been collected never exceeds the number of collections still to come.\<close>

definition collector_inv :: "collector \<Rightarrow> bool" where
  "collector_inv s \<longleftrightarrow> 0 \<le> X s \<and> 0 \<le> Y s \<and> 0 \<le> useCount s
     \<and> X s + int (left_X s) \<le> useCount s \<and> Y s + int (left_Y s) \<le> useCount s
     \<and> XplusY s + X s + Y s + int (left_X s) + int (left_Y s) = 10
     \<and> (ended s \<longleftrightarrow> useCount s = 0)"

lemma take_turn_inv: "collector_inv s \<Longrightarrow> collector_inv (take_turn t s)"
  by (cases t) (auto simp: collector_inv_def increment_X_def increment_Y_def consumeXY_def Let_def)

lemma run_inv: "collector_inv s \<Longrightarrow> collector_inv (collector_run ts s)"
  unfolding collector_run_def by (induction ts arbitrary: s) (simp_all add: take_turn_inv)

lemma inv_init: "collector_inv collector_init"
  by (simp add: collector_inv_def collector_init_def)

text \<open>A counter was raised twice before a collection, or has been in one: too few increments are left.\<close>

definition overtaken :: "collector \<Rightarrow> bool" where
  "overtaken s \<longleftrightarrow> \<not> ended s \<and>
     (2 \<le> X s \<or> 2 \<le> Y s \<or> X s + int (left_X s) < useCount s \<or> Y s + int (left_Y s) < useCount s)"

lemma overtaken_turn: "collector_inv s \<Longrightarrow> overtaken s \<Longrightarrow> overtaken (take_turn t s)"
  by (cases t) (auto simp: collector_inv_def overtaken_def increment_X_def increment_Y_def consumeXY_def Let_def)

lemma overtaken_run: "collector_inv s \<Longrightarrow> overtaken s \<Longrightarrow> overtaken (collector_run ts s)"
  unfolding collector_run_def by (induction ts arbitrary: s) (simp_all add: take_turn_inv overtaken_turn)

text \<open>
  C35: The collecting thread. Under every schedule the collected sum, the two counters and
  the increments still to come add up to ten, and if the thread ends it has collected all
  ten. But it need not end: whenever, under any schedule, a counter stands at two or more,
  having been raised twice before a collection, no continuation lets the thread end; and
  two turns of one counting thread at the start are enough for that.
\<close>

theorem collector_conserves_but_may_starve:
  "XplusY (collector_run ts collector_init) + X (collector_run ts collector_init)
     + Y (collector_run ts collector_init) + int (left_X (collector_run ts collector_init))
     + int (left_Y (collector_run ts collector_init)) = 10
   \<and> (ended (collector_run ts collector_init) \<longrightarrow> XplusY (collector_run ts collector_init) = 10)
   \<and> (2 \<le> X (collector_run ts collector_init) \<or> 2 \<le> Y (collector_run ts collector_init) \<longrightarrow>
        \<not> ended (collector_run (ts @ ts') collector_init))
   \<and> \<not> ended (collector_run (Turn_X # Turn_X # ts') collector_init)"
proof (intro conjI impI)
  have inv: "collector_inv (collector_run us collector_init)" for us
    by (rule run_inv [OF inv_init])
  show "XplusY (collector_run ts collector_init) + X (collector_run ts collector_init)
     + Y (collector_run ts collector_init) + int (left_X (collector_run ts collector_init))
     + int (left_Y (collector_run ts collector_init)) = 10"
    using inv [of ts] by (simp add: collector_inv_def)
  show "XplusY (collector_run ts collector_init) = 10" if "ended (collector_run ts collector_init)"
    using inv [of ts] that by (auto simp: collector_inv_def)
  have late: "\<not> ended (collector_run (us @ ts') collector_init)"
    if "2 \<le> X (collector_run us collector_init) \<or> 2 \<le> Y (collector_run us collector_init)" for us
  proof -
    have "overtaken (collector_run us collector_init)"
      using that inv [of us] by (auto simp: overtaken_def collector_inv_def)
    from overtaken_run [OF inv this, of ts'] show ?thesis
      by (simp add: overtaken_def collector_run_def)
  qed
  then show "\<not> ended (collector_run (ts @ ts') collector_init)"
    if "2 \<le> X (collector_run ts collector_init) \<or> 2 \<le> Y (collector_run ts collector_init)"
    using that .
  show "\<not> ended (collector_run (Turn_X # Turn_X # ts') collector_init)"
    using late [of "[Turn_X, Turn_X]"] by (simp add: collector_run_def collector_init_def increment_X_def)
qed

theorem collector_conserves_but_may_starve_witness:
  "XplusY (collector_run (concat (replicate 5 [Turn_X, Turn_Y, Turn_consumer True])) collector_init) = 10"
proof -
  have "ended (collector_run (concat (replicate 5 [Turn_X, Turn_Y, Turn_consumer True])) collector_init)"
    by (simp add: collector_run_def collector_init_def increment_X_def increment_Y_def consumeXY_def
        eval_nat_numeral Let_def)
  then show ?thesis
    using collector_conserves_but_may_starve [of "concat (replicate 5 [Turn_X, Turn_Y, Turn_consumer True])"]
    by blast
qed

end
