(* ===== verification/Thread_Sums.thy ===== *)
theory Thread_Sums
  imports Main "HOL-Library.Word"
begin

text \<open>
  The summing loops of \<^verbatim>\<open>cpp/multi_threading/\<close> (\<^verbatim>\<open>basic.cpp\<close>, \<^verbatim>\<open>async_cpp.cpp\<close>,
  \<^verbatim>\<open>future_and_promise.cpp\<close>) on 64-bit integers.
\<close>

section \<open>Sums\<close>

text \<open>
  \<^verbatim>\<open>for (i = start; i <= end; i++)\<close> over unsigned 64-bit integers, adding the indices with
  property \<open>p\<close>. It does not end (\<open>None\<close>) when \<^verbatim>\<open>end\<close> is the largest value.
\<close>

partial_function (option) sum_loop ::
  "(64 word \<Rightarrow> bool) \<Rightarrow> 64 word \<Rightarrow> 64 word \<Rightarrow> 64 word \<Rightarrow> 64 word option" where
  "sum_loop p i e acc = (if i \<le> e then sum_loop p (i + 1) e (if p i then acc + i else acc) else Some acc)"

definition calc_odd_sum :: "64 word \<Rightarrow> 64 word \<Rightarrow> 64 word \<Rightarrow> 64 word option" where
  "calc_odd_sum start stop odd_sum = sum_loop (\<lambda>i. i mod 2 \<noteq> 0) start stop odd_sum"

definition calc_even_sum :: "64 word \<Rightarrow> 64 word \<Rightarrow> 64 word \<Rightarrow> 64 word option" where
  "calc_even_sum start stop even_sum = sum_loop (\<lambda>i. i mod 2 = 0) start stop even_sum"

text \<open>\<^verbatim>\<open>main\<close> of \<^verbatim>\<open>basic.cpp\<close>: the two threads work on different variables.\<close>

definition basic_main :: "(64 word option \<times> 64 word option)" where
  "basic_main = (calc_odd_sum 0 1900000000 0, calc_even_sum 0 1900000000 0)"

lemma sum_loop_sum:
  assumes "unat e + 1 < 2 ^ 64"
  shows "unat i \<le> unat e + 1 \<Longrightarrow>
    sum_loop p i e acc = Some (acc + (\<Sum>j \<in> {unat i..unat e}. if p (of_nat j) then of_nat j else 0))"
proof (induction "unat e + 1 - unat i" arbitrary: i acc)
  case 0
  then have "\<not> i \<le> e" by (simp add: word_le_nat_alt)
  then show ?case
    using 0 by (subst sum_loop.simps) (simp add: word_le_nat_alt)
next
  case (Suc d)
  then have le: "unat i \<le> unat e" by simp
  then have i1: "unat (i + 1) = unat i + 1"
    using assms by (intro unat_plus_simple [THEN iffD1, THEN trans]) (auto simp: no_olen_add_nat)
  have "sum_loop p i e acc = sum_loop p (i + 1) e (if p i then acc + i else acc)"
    using le by (subst sum_loop.simps) (simp add: word_le_nat_alt)
  also have "\<dots> = Some ((if p i then acc + i else acc)
      + (\<Sum>j \<in> {unat (i + 1)..unat e}. if p (of_nat j) then of_nat j else 0))"
    using Suc le i1 by (intro Suc.hyps(1)) simp_all
  also have "\<dots> = Some (acc + (\<Sum>j \<in> {unat i..unat e}. if p (of_nat j) then of_nat j else 0))"
    using le by (simp add: i1 sum.atLeast_Suc_atMost [of "unat i" "unat e"])
  finally show ?case .
qed

lemma word_odd_iff: "j < 2 ^ 64 \<Longrightarrow> ((of_nat j :: 64 word) mod 2 \<noteq> 0) = odd j"
  by (simp add: word_unat_eq_iff unat_mod unat_of_nat odd_iff_mod_2_eq_one)

lemma sum_loop_diverges: "sum_loop p i (- 1) acc = None"
proof -
  have "e \<noteq> - 1" if "sum_loop p i e acc = Some r" for e r
  proof (rule sum_loop.raw_induct [where P = "\<lambda>p i e acc r. e \<noteq> - 1", OF _ that])
    fix f p i e acc r
    assume IH: "\<And>p i e acc r. f p i e acc = Some r \<Longrightarrow> e \<noteq> (- 1 :: 64 word)"
      and "(if i \<le> e then f p (i + 1) e (if p i then acc + i else acc) else Some acc) = Some r"
    then show "e \<noteq> - 1"
      by (cases "i \<le> e") auto
  qed
  then show ?thesis
    by (cases "sum_loop p i (- 1) acc") auto
qed

lemma sum_odd: "(\<Sum>j \<in> {0..n}. if odd j then j else 0) = ((n + 1) div 2)\<^sup>2" for n :: nat
proof (induction n)
  case 0
  then show ?case by simp
next
  case (Suc n)
  show ?case
  proof (cases "odd n")
    case True
    then show ?thesis using Suc by simp
  next
    case False
    then obtain k where "n = 2 * k" by blast
    with Suc show ?thesis by (simp add: power2_eq_square)
  qed
qed

lemma sum_even: "(\<Sum>j \<in> {0..n}. if even j then j else 0) = (n div 2) * (n div 2 + 1)" for n :: nat
proof (induction n)
  case 0
  then show ?case by simp
next
  case (Suc n)
  show ?case
  proof (cases "odd n")
    case True
    then obtain k where "n = 2 * k + 1" by (blast elim: oddE)
    with Suc show ?thesis by simp
  next
    case False
    then show ?thesis using Suc by simp
  qed
qed

lemma calc_sums:
  assumes "n + 1 < 2 ^ 64"
  shows "calc_odd_sum 0 (of_nat n) acc = Some (acc + of_nat (((n + 1) div 2)\<^sup>2))"
    and "calc_even_sum 0 (of_nat n) acc = Some (acc + of_nat ((n div 2) * (n div 2 + 1)))"
proof -
  have u: "unat (of_nat n :: 64 word) = n"
    using assms by (simp add: unat_of_nat)
  have small: "j < 2 ^ 64" if "j \<in> {0..n}" for j
    using that assms by simp
  have "(\<Sum>j \<in> {0..n}. if (of_nat j :: 64 word) mod 2 \<noteq> 0 then of_nat j else 0)
      = of_nat (\<Sum>j \<in> {0..n}. if odd j then j else 0)"
    unfolding of_nat_sum by (rule sum.cong) (use small word_odd_iff in auto)
  then show "calc_odd_sum 0 (of_nat n) acc = Some (acc + of_nat (((n + 1) div 2)\<^sup>2))"
    using sum_loop_sum [of "of_nat n" 0 "\<lambda>i. i mod 2 \<noteq> 0" acc] assms
    unfolding calc_odd_sum_def sum_odd u by simp
  have "(\<Sum>j \<in> {0..n}. if (of_nat j :: 64 word) mod 2 = 0 then of_nat j else 0)
      = of_nat (\<Sum>j \<in> {0..n}. if even j then j else 0)"
    unfolding of_nat_sum by (rule sum.cong) (use small word_odd_iff in auto)
  then show "calc_even_sum 0 (of_nat n) acc = Some (acc + of_nat ((n div 2) * (n div 2 + 1)))"
    using sum_loop_sum [of "of_nat n" 0 "\<lambda>i. i mod 2 = 0" acc] assms
    unfolding calc_even_sum_def sum_even u by simp
qed

section \<open>The sum of a task\<close>

text \<open>
  \<^verbatim>\<open>findOdd\<close> on signed 64-bit integers; \<open>None\<close> when the sum or the index leaves their range,
  which is undefined.
\<close>

definition long_max :: int where "long_max = 2 ^ 63 - 1"
definition long_min :: int where "long_min = - (2 ^ 63)"

function findOdd_loop :: "int \<Rightarrow> int \<Rightarrow> int \<Rightarrow> int option" where
  "findOdd_loop i stop OddSum =
     (if i \<le> stop
      then
        let s = (if odd i then OddSum + i else OddSum) in
        if s < long_min \<or> s > long_max \<or> i + 1 > long_max then None else findOdd_loop (i + 1) stop s
      else Some OddSum)"
  by pat_completeness auto
termination
  by (relation "measure (\<lambda>(i, stop, s). nat (stop + 1 - i))") auto

declare findOdd_loop.simps [simp del]

definition findOdd :: "int \<Rightarrow> int \<Rightarrow> int option" where
  "findOdd start stop = findOdd_loop start stop 0"

lemma findOdd_loop_sum:
  "0 \<le> acc \<Longrightarrow> int i \<le> int n + 1 \<Longrightarrow> int n + 1 \<le> long_max \<Longrightarrow>
     acc + (\<Sum>j \<in> {i..n}. if odd j then int j else 0) \<le> long_max \<Longrightarrow>
   findOdd_loop (int i) (int n) acc = Some (acc + (\<Sum>j \<in> {i..n}. if odd j then int j else 0))"
proof (induction "n + 1 - i" arbitrary: i acc)
  case 0
  then show ?case by (simp add: findOdd_loop.simps)
next
  case (Suc d)
  let ?f = "\<lambda>j. if odd j then int j else 0"
  have le: "i \<le> n" using Suc.hyps(2) by simp
  have split: "(\<Sum>j \<in> {i..n}. ?f j) = ?f i + (\<Sum>j \<in> {Suc i..n}. ?f j)"
    using le by (rule sum.atLeast_Suc_atMost)
  have "0 \<le> (\<Sum>j \<in> {Suc i..n}. ?f j)"
    by (rule sum_nonneg) simp
  then have s: "acc + ?f i \<le> long_max" "long_min \<le> acc + ?f i" and i: "int i + 1 \<le> long_max"
    using Suc.prems le unfolding split by (auto simp: long_min_def)
  have IH: "findOdd_loop (int (Suc i)) (int n) (acc + ?f i)
      = Some (acc + ?f i + (\<Sum>j \<in> {Suc i..n}. ?f j))"
    using Suc.prems Suc.hyps(2) le unfolding split by (intro Suc.hyps(1)) auto
  have "findOdd_loop (int i) (int n) acc = findOdd_loop (int i + 1) (int n) (acc + ?f i)"
    using s i le by (subst findOdd_loop.simps) (auto simp: Let_def)
  then show ?case
    using IH unfolding split by (simp add: add.commute add.left_commute)
qed

lemma findOdd_main: "findOdd 0 1900000000 = Some 902500000000000000"
proof -
  have "(\<Sum>j \<in> {0..1900000000}. if odd j then int j else 0)
      = int (\<Sum>j \<in> {0..1900000000::nat}. if odd j then j else 0)"
    unfolding of_nat_sum by (rule sum.cong) simp_all
  also have "\<dots> = 902500000000000000"
    unfolding sum_odd by (simp add: power2_eq_square)
  finally show ?thesis
    using findOdd_loop_sum [of 0 0 1900000000] unfolding findOdd_def by (simp add: long_max_def)
qed

text \<open>
  C38: The sums. The odd and the even loop from 0 to any bound but the largest 64-bit value
  return the closed forms modulo 2 to the 64th; with the largest value as bound they do
  not return; the two sums of the program fit and are exact; and the task on signed
  integers returns the same odd sum without overflow.
\<close>

theorem odd_even_sums:
  "(n + 1 < 2 ^ 64 \<longrightarrow>
      calc_odd_sum 0 (of_nat n) acc = Some (acc + of_nat (((n + 1) div 2)\<^sup>2))
    \<and> calc_even_sum 0 (of_nat n) acc = Some (acc + of_nat ((n div 2) * (n div 2 + 1))))
   \<and> calc_odd_sum i (- 1) acc = None \<and> calc_even_sum i (- 1) acc = None
   \<and> basic_main = (Some 902500000000000000, Some 902500000950000000)
   \<and> findOdd 0 1900000000 = Some 902500000000000000"
proof -
  have b: "basic_main = (Some 902500000000000000, Some 902500000950000000)"
    using calc_sums [of 1900000000 0] by (simp add: basic_main_def power2_eq_square)
  show ?thesis
    using calc_sums [of n acc] findOdd_main b sum_loop_diverges by (simp add: calc_odd_sum_def calc_even_sum_def)
qed

theorem odd_even_sums_witness:
  "calc_odd_sum 0 (of_nat 9) 0 = Some (0 + of_nat (((9 + 1) div 2)\<^sup>2))"
  using odd_even_sums [of 9 0 0] by simp

end
