(* ===== verification/Condition_Wait.thy ===== *)
theory Condition_Wait
  imports Cxx_Strings
begin

text \<open>
  The account of \<^verbatim>\<open>cpp/multi_threading/condition_variable.cpp\<close>: withdrawals wait on a
  condition variable until the balance is not zero. A step is what a thread does while it
  holds the mutex; \<^verbatim>\<open>notify_one\<close> is called under it and wakes one waiting thread, any one.
  Sleeping is not modelled; amounts are \<^verbatim>\<open>int\<close>s, whose sums a \<^verbatim>\<open>long\<close> holds.
\<close>

section \<open>State and steps\<close>

datatype account_task = AddMoney int | WithdrowMoney int

datatype account_phase = Ready | Asleep | Ended

record account =
  balance :: int
  phases :: "account_phase list"
  printed :: "string list"

definition addMoney :: "nat \<Rightarrow> int \<Rightarrow> account \<Rightarrow> account" where
  "addMoney i money s =
     s\<lparr>balance := balance s + money, phases := (phases s)[i := Ended],
       printed := printed s @ [''Amount added current balance : '' @ decimal (balance s + money)]\<rparr>"

text \<open>\<open>wait\<close> tests its condition first, and again after each wake-up.\<close>

definition withdrowMoney :: "nat \<Rightarrow> int \<Rightarrow> account \<Rightarrow> account" where
  "withdrowMoney i money s =
     (if balance s = 0 then s\<lparr>phases := (phases s)[i := Asleep]\<rparr>
      else
        let s1 = (if money \<le> balance s
                  then s\<lparr>balance := balance s - money,
                         printed := printed s @ [''Amount deducted : '' @ decimal money]\<rparr>
                  else s\<lparr>printed := printed s @
                         [''Amount can't be deducted, current balance is less than '' @ decimal money]\<rparr>)
        in s1\<lparr>phases := (phases s1)[i := Ended],
              printed := printed s1 @ [''Current balance is : '' @ decimal (balance s1)]\<rparr>)"

definition wake :: "nat \<Rightarrow> account \<Rightarrow> account" where
  "wake j s = s\<lparr>phases := (phases s)[j := Ready]\<rparr>"

definition asleep :: "account \<Rightarrow> nat \<Rightarrow> bool" where
  "asleep s j \<longleftrightarrow> j < length (phases s) \<and> phases s ! j = Asleep"

definition ready :: "account \<Rightarrow> nat \<Rightarrow> bool" where
  "ready s i \<longleftrightarrow> i < length (phases s) \<and> phases s ! i = Ready"

inductive account_step :: "account_task list \<Rightarrow> account \<Rightarrow> account \<Rightarrow> bool" for tasks where
  Add_wakes: "ready s i \<Longrightarrow> tasks ! i = AddMoney m \<Longrightarrow> asleep s j \<Longrightarrow>
    account_step tasks s (wake j (addMoney i m s))"
| Add_alone: "ready s i \<Longrightarrow> tasks ! i = AddMoney m \<Longrightarrow> Asleep \<notin> set (phases s) \<Longrightarrow>
    account_step tasks s (addMoney i m s)"
| Withdraw: "ready s i \<Longrightarrow> tasks ! i = WithdrowMoney m \<Longrightarrow>
    account_step tasks s (withdrowMoney i m s)"

text \<open>A waiting thread may also wake up without a notification.\<close>

inductive unprompted :: "account \<Rightarrow> account \<Rightarrow> bool" where
  "asleep s j \<Longrightarrow> unprompted s (wake j s)"

definition account_start :: "account_task list \<Rightarrow> account" where
  "account_start tasks = \<lparr>balance = 0, phases = replicate (length tasks) Ready, printed = []\<rparr>"

definition account_reachable :: "account_task list \<Rightarrow> account \<Rightarrow> bool" where
  "account_reachable tasks =
     (\<lambda>s s'. account_step tasks s s' \<or> unprompted s s')\<^sup>*\<^sup>* (account_start tasks)"

inductive_cases account_stepE: "account_step tasks s s'"
inductive_cases unpromptedE: "unprompted s s'"

text \<open>The threads of \<^verbatim>\<open>main\<close>, which joins both.\<close>

definition account_main :: "account_task list" where
  "account_main = [WithdrowMoney 600, AddMoney 500]"

section \<open>No withdrawal overdraws\<close>

lemma balance_nonneg:
  assumes "account_reachable tasks s" and "\<forall>m. AddMoney m \<in> set tasks \<longrightarrow> 0 \<le> m"
  shows "0 \<le> balance s \<and> length (phases s) = length tasks"
  using assms(1) unfolding account_reachable_def
proof (induction rule: rtranclp_induct)
  case base
  then show ?case by (simp add: account_start_def)
next
  case (step s s')
  have "0 \<le> m" if "ready s i" "tasks ! i = AddMoney m" for i m
    using that step.IH assms(2) nth_mem [of i tasks] by (auto simp: ready_def)
  then show ?case
    using step
    by (auto simp: addMoney_def withdrowMoney_def wake_def Let_def elim!: account_stepE unpromptedE)
qed

section \<open>The program\<close>

definition added_line :: string where
  "added_line = ''Amount added current balance : '' @ decimal 500"

definition refused_lines :: "string list" where
  "refused_lines =
     [''Amount can't be deducted, current balance is less than '' @ decimal 600,
      ''Current balance is : '' @ decimal 500]"

text \<open>The states of the two threads that can occur together.\<close>

definition account_main_inv :: "account \<Rightarrow> bool" where
  "account_main_inv s \<longleftrightarrow>
     (phases s = [Ready, Ready] \<or> phases s = [Asleep, Ready]) \<and> balance s = 0 \<and> printed s = []
   \<or> phases s = [Ready, Ended] \<and> balance s = 500 \<and> printed s = [added_line]
   \<or> phases s = [Ended, Ended] \<and> balance s = 500 \<and> printed s = added_line # refused_lines"

lemma account_main_phases:
  "account_main_inv s \<Longrightarrow>
    phases s \<in> {[Ready, Ready], [Asleep, Ready], [Ready, Ended], [Ended, Ended]}"
  unfolding account_main_inv_def by blast

lemma account_main_task:
  assumes "ready s i" and "account_main_inv s"
  shows "account_main ! i = AddMoney m \<Longrightarrow> i = 1 \<and> m = 500"
    and "account_main ! i = WithdrowMoney m \<Longrightarrow> i = 0 \<and> m = 600"
proof -
  have "length (phases s) = 2"
    using account_main_phases [OF assms(2)] by auto
  then have "i = 0 \<or> i = 1"
    using assms(1) by (auto simp: ready_def)
  then show "account_main ! i = AddMoney m \<Longrightarrow> i = 1 \<and> m = 500"
    and "account_main ! i = WithdrowMoney m \<Longrightarrow> i = 0 \<and> m = 600"
    by (auto simp: account_main_def)
qed

lemma asleep_first: "asleep s j \<Longrightarrow> account_main_inv s \<Longrightarrow> j = 0 \<and> phases s = [Asleep, Ready]"
  using account_main_phases [of s] by (auto simp: asleep_def nth_Cons split: nat.splits)

lemma account_main_step:
  assumes "account_step account_main s s' \<or> unprompted s s'" and inv: "account_main_inv s"
  shows "account_main_inv s'"
  using assms(1)
proof
  assume "account_step account_main s s'"
  then show ?thesis
  proof cases
    case (Add_wakes i m j)
    then have "i = 1" "m = 500" "j = 0" "phases s = [Asleep, Ready]"
      using account_main_task(1) inv asleep_first by blast+
    then show ?thesis
      using Add_wakes(1) inv by (simp add: account_main_inv_def wake_def addMoney_def added_line_def)
  next
    case (Add_alone i m)
    then have i: "i = 1" "m = 500"
      using account_main_task(1) inv by blast+
    moreover have "phases s = [Ready, Ready]"
      using Add_alone(2,4) i account_main_phases [OF inv] by (auto simp: ready_def)
    ultimately have i: "i = 1" "m = 500" "phases s = [Ready, Ready]" by simp_all
    then show ?thesis
      using Add_alone(1) inv by (simp add: account_main_inv_def addMoney_def added_line_def)
  next
    case (Withdraw i m)
    then have i: "i = 0" "m = 600"
      using account_main_task(2) inv by blast+
    then consider "phases s = [Ready, Ready]" | "phases s = [Ready, Ended]"
      using Withdraw(2) account_main_phases [OF inv] by (auto simp: ready_def)
    then show ?thesis
    proof cases
      case 1
      then show ?thesis
        using Withdraw(1) inv i by (simp add: account_main_inv_def withdrowMoney_def)
    next
      case 2
      then have "balance s = 500" "printed s = [added_line]"
        using inv by (simp_all add: account_main_inv_def)
      then show ?thesis
        using Withdraw(1) i 2 by (simp add: account_main_inv_def withdrowMoney_def refused_lines_def)
    qed
  qed
next
  assume "unprompted s s'"
  then obtain j where j: "asleep s j" "s' = wake j s"
    by (rule unpromptedE)
  then have "j = 0" "phases s = [Asleep, Ready]"
    using asleep_first inv by blast+
  then show ?thesis
    using j(2) inv by (simp add: wake_def account_main_inv_def)
qed

lemma account_main_reachable: "account_reachable account_main s \<Longrightarrow> account_main_inv s"
  unfolding account_reachable_def
proof (induction rule: rtranclp_induct)
  case base
  then show ?case by (simp add: account_start_def account_main_def account_main_inv_def)
qed (use account_main_step in blast)

lemma account_main_next:
  assumes "account_main_inv s" and "phases s \<noteq> [Ended, Ended]"
  shows "\<exists>s'. account_step account_main s s'"
proof -
  consider "phases s = [Ready, Ready]" | "phases s = [Asleep, Ready]" | "phases s = [Ready, Ended]"
    using assms by (auto simp: account_main_inv_def)
  then show ?thesis
  proof cases
    case 2
    then have "account_step account_main s (wake 0 (addMoney 1 500 s))"
      by (intro Add_wakes) (simp_all add: ready_def asleep_def account_main_def)
    then show ?thesis by blast
  qed (auto intro!: exI account_step.Withdraw [of s 0] simp: ready_def account_main_def)
qed

text \<open>
  C37: no wake-up is lost: in every interleaving, spurious wake-ups included, the program can
  go on until both threads have ended; then the withdrawal of 600 has been refused and the
  500 added are the balance.
\<close>

theorem withdrawal_waits_and_is_refused:
  "account_reachable account_main s \<Longrightarrow>
     (if phases s = [Ended, Ended] then balance s = 500 \<and> printed s = added_line # refused_lines
      else \<exists>s'. account_step account_main s s')"
proof (cases "phases s = [Ended, Ended]")
  case True
  moreover assume "account_reachable account_main s"
  then have "account_main_inv s" by (rule account_main_reachable)
  ultimately show ?thesis by (simp add: account_main_inv_def)
qed (use account_main_reachable account_main_next in simp)

lemma withdrawal_waits_and_is_refused_witness:
  "\<exists>s'. account_step account_main (account_start account_main) s'"
  using withdrawal_waits_and_is_refused [of "account_start account_main"]
  by (simp add: account_reachable_def account_start_def account_main_def)

end
