(* ===== verification/Recursive_Lock.thy ===== *)
theory Recursive_Lock
  imports Cxx_Strings
begin

text \<open>
  \<^verbatim>\<open>cpp/multi_threading/recursive_mutex.cpp\<close>: two threads that recurse under a
  \<^verbatim>\<open>recursive_mutex\<close>, which its owner can lock again and which is free when it has been
  unlocked as often as locked. The instructions of the recursion are interleaved one by one;
  \<^verbatim>\<open>buffer++\<close> is a load and a store, and prints the value loaded.
\<close>

section \<open>The machine\<close>

datatype rec_instr = R_lock | R_fetch | R_store | R_show char | R_unlock | R_say string

datatype rec_line = Counted char int | Said string

record rec_state =
  rbuffer :: int
  rowner :: "nat option"
  rdepth :: nat
  rcode :: "nat \<Rightarrow> rec_instr list"
  rreg :: "nat \<Rightarrow> int"
  rlines :: "rec_line list"

text \<open>The instructions of a call, the recursive call included.\<close>

function recursion :: "char \<Rightarrow> int \<Rightarrow> rec_instr list" where
  "recursion c loopFor =
     (if loopFor < 0 then []
      else [R_lock, R_fetch, R_store, R_show c] @ recursion c (loopFor - 1)
        @ [R_unlock, R_say (''Unlock by thread '' @ [c])])"
  by pat_completeness auto
termination
  by (relation "measure (\<lambda>(c, n). nat (n + 1))") auto

declare recursion.simps [simp del]

definition rec_step :: "nat \<Rightarrow> rec_state \<Rightarrow> rec_state option" where
  "rec_step t s =
     (case rcode s t of
        [] \<Rightarrow> None
      | i # is \<Rightarrow>
          let s' = s\<lparr>rcode := (rcode s)(t := is)\<rparr> in
          (case i of
             R_lock \<Rightarrow>
               if rowner s = None then Some (s'\<lparr>rowner := Some t, rdepth := 1\<rparr>)
               else if rowner s = Some t then Some (s'\<lparr>rdepth := rdepth s + 1\<rparr>)
               else None
           | R_unlock \<Rightarrow>
               if rowner s = Some t
               then Some (s'\<lparr>rowner := if rdepth s = 1 then None else Some t, rdepth := rdepth s - 1\<rparr>)
               else None
           | R_fetch \<Rightarrow> Some (s'\<lparr>rreg := (rreg s)(t := rbuffer s)\<rparr>)
           | R_store \<Rightarrow> Some (s'\<lparr>rbuffer := rreg s t + 1\<rparr>)
           | R_show c \<Rightarrow> Some (s'\<lparr>rlines := rlines s @ [Counted c (rreg s t)]\<rparr>)
           | R_say l \<Rightarrow> Some (s'\<lparr>rlines := rlines s @ [Said l]\<rparr>)))"

inductive rec_machine :: "rec_state \<Rightarrow> rec_state \<Rightarrow> bool" where
  "rec_step t s = Some s' \<Longrightarrow> rec_machine s s'"

inductive_cases rec_machineE: "rec_machine s s'"

text \<open>The two threads of \<^verbatim>\<open>main\<close>, for any depth; \<^verbatim>\<open>main\<close> joins both.\<close>

definition thread_name :: "nat \<Rightarrow> char" where
  "thread_name t = (if t = 0 then CHR ''0'' else CHR ''1'')"

definition rec_start :: "int \<Rightarrow> rec_state" where
  "rec_start loopFor =
     \<lparr>rbuffer = 0, rowner = None, rdepth = 0,
      rcode = (\<lambda>t. if t < 2 then recursion (thread_name t) loopFor else []),
      rreg = (\<lambda>_. 0), rlines = []\<rparr>"

definition rec_main :: rec_state where
  "rec_main = rec_start 10"

section \<open>Where a thread is\<close>

text \<open>
  \<open>j\<close> calls are still to come and \<open>d\<close> locks are held. \<open>W_enter 0 d\<close> is on the way out.
\<close>

datatype whereabouts =
  W_enter nat nat | W_fetch nat nat | W_store nat nat | W_show nat nat | W_say nat

definition up_code :: "char \<Rightarrow> nat \<Rightarrow> rec_instr list" where
  "up_code c d = concat (replicate d [R_unlock, R_say (''Unlock by thread '' @ [c])])"

definition down_code :: "char \<Rightarrow> nat \<Rightarrow> nat \<Rightarrow> rec_instr list" where
  "down_code c j d = concat (replicate j [R_lock, R_fetch, R_store, R_show c]) @ up_code c (j + d)"

primrec code_of :: "char \<Rightarrow> whereabouts \<Rightarrow> rec_instr list" where
  "code_of c (W_enter j d) = down_code c j d"
| "code_of c (W_fetch j d) = R_fetch # R_store # R_show c # down_code c j d"
| "code_of c (W_store j d) = R_store # R_show c # down_code c j d"
| "code_of c (W_show j d) = R_show c # down_code c j d"
| "code_of c (W_say d) = R_say (''Unlock by thread '' @ [c]) # up_code c d"

primrec locks_held :: "whereabouts \<Rightarrow> nat" where
  "locks_held (W_enter j d) = d"
| "locks_held (W_fetch j d) = d"
| "locks_held (W_store j d) = d"
| "locks_held (W_show j d) = d"
| "locks_held (W_say d) = d"

primrec lines_left :: "whereabouts \<Rightarrow> nat" where
  "lines_left (W_enter j d) = j"
| "lines_left (W_fetch j d) = Suc j"
| "lines_left (W_store j d) = Suc j"
| "lines_left (W_show j d) = Suc j"
| "lines_left (W_say d) = 0"

primrec possible :: "nat \<Rightarrow> whereabouts \<Rightarrow> bool" where
  "possible n (W_enter j d) \<longleftrightarrow> j + d = n \<or> j = 0"
| "possible n (W_fetch j d) \<longleftrightarrow> j + d = n \<and> 0 < d"
| "possible n (W_store j d) \<longleftrightarrow> j + d = n \<and> 0 < d"
| "possible n (W_show j d) \<longleftrightarrow> j + d = n \<and> 0 < d"
| "possible n (W_say d) \<longleftrightarrow> True"

lemma up_code_simps [simp]:
  "up_code c 0 = []"
  "up_code c (Suc d) = R_unlock # R_say (''Unlock by thread '' @ [c]) # up_code c d"
  by (simp_all add: up_code_def)

lemma down_code_simps [simp]:
  "down_code c 0 d = up_code c d"
  "down_code c (Suc j) d = R_lock # R_fetch # R_store # R_show c # down_code c j (Suc d)"
  by (simp_all add: down_code_def)

lemma up_code_snoc: "up_code c (Suc d) = up_code c d @ [R_unlock, R_say (''Unlock by thread '' @ [c])]"
  by (induction d) simp_all

lemma recursion_code: "recursion c (int j - 1) = down_code c j 0"
proof (induction j)
  case (Suc j)
  have "recursion c (int (Suc j) - 1) =
      [R_lock, R_fetch, R_store, R_show c] @ recursion c (int j - 1) @ [R_unlock, R_say (''Unlock by thread '' @ [c])]"
    by (subst recursion.simps) simp
  then show ?case
    unfolding Suc.IH down_code_def by (simp only: add_0_right up_code_snoc) simp
qed (simp add: recursion.simps)

section \<open>The invariant\<close>

definition counted :: "rec_state \<Rightarrow> (char \<times> int) list" where
  "counted s = concat (map (\<lambda>l. case l of Counted c i \<Rightarrow> [(c, i)] | Said _ \<Rightarrow> []) (rlines s))"

text \<open>The names on the counting lines: a block for each thread that is done, then the owner's part.\<close>

definition blocks :: "nat \<Rightarrow> (nat \<Rightarrow> whereabouts) \<Rightarrow> nat option \<Rightarrow> char list \<Rightarrow> bool" where
  "blocks n w own cs \<longleftrightarrow>
     (\<exists>ds. distinct ds \<and> set ds = {t. t < 2 \<and> own \<noteq> Some t \<and> lines_left (w t) = 0} \<and>
        cs = concat (map (\<lambda>t. replicate n (thread_name t)) ds) @
          (case own of None \<Rightarrow> [] | Some t \<Rightarrow> replicate (n - lines_left (w t)) (thread_name t)))"

definition pending :: "rec_state \<Rightarrow> (nat \<Rightarrow> whereabouts) \<Rightarrow> int \<Rightarrow> bool" where
  "pending s w k \<longleftrightarrow>
     (case rowner s of
        None \<Rightarrow> rbuffer s = k
      | Some t \<Rightarrow>
          (case w t of
             W_store _ _ \<Rightarrow> rbuffer s = k \<and> rreg s t = k
           | W_show _ _ \<Rightarrow> rbuffer s = k + 1 \<and> rreg s t = k
           | _ \<Rightarrow> rbuffer s = k))"

definition rec_inv :: "nat \<Rightarrow> rec_state \<Rightarrow> (nat \<Rightarrow> whereabouts) \<Rightarrow> bool" where
  "rec_inv n s w \<longleftrightarrow>
     (\<forall>t. rcode s t = (if t < 2 then code_of (thread_name t) (w t) else [])) \<and>
     (\<forall>t < 2. possible n (w t) \<and> locks_held (w t) = (if rowner s = Some t then rdepth s else 0)) \<and>
     (case rowner s of None \<Rightarrow> True | Some t \<Rightarrow> t < 2 \<and> 0 < rdepth s) \<and>
     map snd (counted s) = map int [0..<length (counted s)] \<and>
     pending s w (int (length (counted s))) \<and>
     blocks n w (rowner s) (map fst (counted s))"

lemma rec_start_inv: "0 < n \<Longrightarrow> rec_inv n (rec_start (int n - 1)) (\<lambda>_. W_enter n 0)"
  by (simp add: rec_inv_def rec_start_def recursion_code counted_def pending_def blocks_def)

lemma counted_snoc:
  "counted (s\<lparr>rcode := a, rlines := rlines s @ [Counted c i]\<rparr>) = counted s @ [(c, i)]"
  "counted (s\<lparr>rcode := a, rlines := rlines s @ [Said l]\<rparr>) = counted s"
  by (simp_all add: counted_def)

lemma blocks_cong:
  assumes "\<And>u. lines_left (w' u) = lines_left (w u)"
  shows "blocks n w' own cs = blocks n w own cs"
  by (cases own) (simp_all add: blocks_def assms)

lemma blocks_acquire:
  assumes "blocks n w None cs" and "lines_left (w t) = n" and "0 < n"
    and "\<And>u. lines_left (w' u) = lines_left (w u)"
  shows "blocks n w' (Some t) cs"
proof -
  have "{u. u < 2 \<and> None \<noteq> Some u \<and> lines_left (w u) = 0} = {u. u < 2 \<and> Some t \<noteq> Some u \<and> lines_left (w' u) = 0}"
    using assms(2-4) by auto
  then show ?thesis
    using assms(1,2,4) by (simp add: blocks_def)
qed

lemma blocks_show:
  assumes "blocks n w (Some t) cs" and "lines_left (w t) = Suc j" and "Suc j \<le> n"
    and "lines_left (w' t) = j" and "\<And>u. u \<noteq> t \<Longrightarrow> lines_left (w' u) = lines_left (w u)"
  shows "blocks n w' (Some t) (cs @ [thread_name t])"
proof -
  have "{u. u < 2 \<and> Some t \<noteq> Some u \<and> lines_left (w u) = 0} = {u. u < 2 \<and> Some t \<noteq> Some u \<and> lines_left (w' u) = 0}"
    using assms(5) by auto
  moreover have "replicate (n - j) (thread_name t) = replicate (n - Suc j) (thread_name t) @ [thread_name t]"
    using assms(3) by (metis Suc_diff_Suc Suc_le_lessD replicate_Suc replicate_append_same)
  ultimately show ?thesis
    using assms(1,2,4) by (auto simp: blocks_def)
qed

lemma blocks_release:
  assumes "blocks n w (Some t) cs" and "lines_left (w t) = 0" and "t < 2"
    and "\<And>u. lines_left (w' u) = lines_left (w u)"
  shows "blocks n w' None cs"
proof -
  obtain ds where ds: "distinct ds" "set ds = {u. u < 2 \<and> Some t \<noteq> Some u \<and> lines_left (w u) = 0}"
    "cs = concat (map (\<lambda>t. replicate n (thread_name t)) ds) @ replicate n (thread_name t)"
    using assms(1,2) by (auto simp: blocks_def)
  then have "distinct (ds @ [t])" "set (ds @ [t]) = {u. u < 2 \<and> None \<noteq> Some u \<and> lines_left (w' u) = 0}"
    "cs = concat (map (\<lambda>t. replicate n (thread_name t)) (ds @ [t])) @ []"
    using assms(2-4) by auto
  then show ?thesis
    unfolding blocks_def option.case by blast
qed

lemma counted_update [simp]:
  "counted (s\<lparr>rcode := a\<rparr>) = counted s" "counted (s\<lparr>rowner := b\<rparr>) = counted s"
  "counted (s\<lparr>rdepth := e\<rparr>) = counted s" "counted (s\<lparr>rreg := f\<rparr>) = counted s"
  "counted (s\<lparr>rbuffer := g\<rparr>) = counted s"
  by (simp_all add: counted_def)

text \<open>A thread that is not the owner stands where it holds nothing.\<close>

lemma rec_inv_step:
  assumes "rec_inv n s w" and "rec_step t s = Some s'" and "0 < n"
  shows "\<exists>w'. rec_inv n s' w'"
proof -
  have code: "\<forall>u. rcode s u = (if u < 2 then code_of (thread_name u) (w u) else [])"
    and poss: "\<forall>u < 2. possible n (w u) \<and> locks_held (w u) = (if rowner s = Some u then rdepth s else 0)"
    and vals: "map snd (counted s) = map int [0..<length (counted s)]"
    and pend: "pending s w (int (length (counted s)))"
    and blk: "blocks n w (rowner s) (map fst (counted s))"
    using assms(1) by (simp_all add: rec_inv_def)
  have t: "t < 2"
    using assms(2) code by (auto simp: rec_step_def split: if_splits)
  then have ct: "rcode s t = code_of (thread_name t) (w t)"
    and pt: "possible n (w t)" and ht: "locks_held (w t) = (if rowner s = Some t then rdepth s else 0)"
    using code poss by auto
  show ?thesis
  proof (cases "w t")
    case (W_enter j d)
    show ?thesis
    proof (cases j)
      case j: (Suc k)
      let ?w = "w(t := W_fetch k (Suc d))"
      have "rowner s = None \<or> rowner s = Some t"
        using assms(2) ct W_enter j by (auto simp: rec_step_def Let_def split: if_splits)
      then show ?thesis
      proof
        assume o: "rowner s = None"
        then have "d = 0" "Suc k = n" using ht pt W_enter j by auto
        then have "blocks n ?w (Some t) (map fst (counted s))"
          using blk o W_enter j assms(3) by (intro blocks_acquire [of n w _ t]) auto
        then have "rec_inv n s' ?w"
          using assms(2) ct W_enter j o code poss vals pend t \<open>d = 0\<close> \<open>Suc k = n\<close>
          by (auto simp: rec_step_def rec_inv_def pending_def)
        then show ?thesis by blast
      next
        assume o: "rowner s = Some t"
        then have "blocks n ?w (Some t) (map fst (counted s))"
          using blk W_enter j by (subst blocks_cong [of _ w]) auto
        then have "rec_inv n s' ?w"
          using assms(2) ct W_enter j o code poss vals pend t ht pt
          by (auto simp: rec_step_def rec_inv_def pending_def)
        then show ?thesis by blast
      qed
    next
      case j: 0
      obtain e where d: "d = Suc e"
        using assms(2) ct W_enter j by (cases d) (auto simp: rec_step_def)
      then have o: "rowner s = Some t" "rdepth s = Suc e"
        using ht W_enter by (auto split: if_splits)
      let ?w = "w(t := W_say e)"
      have left: "lines_left (?w u) = lines_left (w u)" for u
        using W_enter j by simp
      have "blocks n ?w (if e = 0 then None else Some t) (map fst (counted s))"
        using blk o(1) left W_enter j t blocks_release [of n w t _ ?w] blocks_cong [of ?w w] by simp
      then have "rec_inv n s' ?w"
        using assms(2) ct W_enter j o d code poss vals pend t ht
        by (cases e) (auto simp: rec_step_def rec_inv_def pending_def)
      then show ?thesis by blast
    qed
  next
    case (W_fetch j d)
    then have o: "rowner s = Some t"
      using ht pt by (auto split: if_splits)
    let ?w = "w(t := W_store j d)"
    have "blocks n ?w (Some t) (map fst (counted s))"
      using blk o W_fetch by (subst blocks_cong [of _ w]) auto
    then have "rec_inv n s' ?w"
      using assms(2) ct W_fetch o code poss vals pend t pt
      by (auto simp: rec_step_def rec_inv_def pending_def)
    then show ?thesis by blast
  next
    case (W_store j d)
    then have o: "rowner s = Some t"
      using ht pt by (auto split: if_splits)
    let ?w = "w(t := W_show j d)"
    have "blocks n ?w (Some t) (map fst (counted s))"
      using blk o W_store by (subst blocks_cong [of _ w]) auto
    then have "rec_inv n s' ?w"
      using assms(2) ct W_store o code poss vals pend t pt
      by (auto simp: rec_step_def rec_inv_def pending_def)
    then show ?thesis by blast
  next
    case (W_show j d)
    then have o: "rowner s = Some t"
      using ht pt by (auto split: if_splits)
    let ?w = "w(t := W_enter j d)"
    have "blocks n ?w (Some t) (map fst (counted s) @ [thread_name t])"
      using blk o W_show pt by (intro blocks_show [of n w]) auto
    then have "rec_inv n s' ?w"
      using assms(2) ct W_show o code poss vals pend t pt
      by (auto simp: rec_step_def rec_inv_def pending_def counted_snoc)
    then show ?thesis by blast
  next
    case (W_say d)
    let ?w = "w(t := W_enter 0 d)"
    have "blocks n ?w (rowner s) (map fst (counted s))"
      using blk W_say by (subst blocks_cong [of _ w]) auto
    moreover have s': "s' = s\<lparr>rcode := (rcode s)(t := up_code (thread_name t) d),
        rlines := rlines s @ [Said (''Unlock by thread '' @ [thread_name t])]\<rparr>"
      using assms(2) ct W_say by (simp add: rec_step_def Let_def)
    moreover have "pending s' ?w k = pending s w k" for k
      using W_say by (auto simp: pending_def s' split: option.split whereabouts.split)
    moreover have "case rowner s of None \<Rightarrow> True | Some t \<Rightarrow> t < 2 \<and> 0 < rdepth s"
      using assms(1) by (simp add: rec_inv_def)
    ultimately have "rec_inv n s' ?w"
      using code poss vals pend t W_say ht
      by (simp add: rec_inv_def counted_snoc split: option.split_asm option.split if_split_asm)
    then show ?thesis by blast
  qed
qed

section \<open>Runs\<close>

abbreviation rec_runs :: "rec_state \<Rightarrow> rec_state \<Rightarrow> bool" where
  "rec_runs \<equiv> rec_machine\<^sup>*\<^sup>*"

definition rec_finished :: "rec_state \<Rightarrow> bool" where
  "rec_finished s \<longleftrightarrow> (\<forall>t. rcode s t = [])"

lemma rec_reach_inv:
  assumes "rec_runs (rec_start (int n - 1)) s" and "0 < n"
  shows "\<exists>w. rec_inv n s w"
  using assms(1)
proof (induction rule: rtranclp_induct)
  case base
  then show ?case using rec_start_inv [OF assms(2)] by blast
next
  case (step s s')
  then show ?case
    using rec_inv_step [OF _ _ assms(2)] by (auto elim!: rec_machineE)
qed

text \<open>The owner can always go on, and without an owner every thread that has not ended.\<close>

lemma rec_no_deadlock:
  assumes "rec_inv n s w" and "\<not> rec_finished s"
  shows "\<exists>s'. rec_machine s s'"
proof -
  have code: "rcode s u = code_of (thread_name u) (w u)"
    and poss: "possible n (w u)" "locks_held (w u) = (if rowner s = Some u then rdepth s else 0)"
    if "u < 2" for u
    using assms(1) that by (simp_all add: rec_inv_def)
  have own: "t < 2 \<and> 0 < rdepth s" if "rowner s = Some t" for t
    using assms(1) that by (simp add: rec_inv_def)
  have out: "rcode s u = []" if "\<not> u < 2" for u
    using assms(1) that by (simp add: rec_inv_def)
  obtain t where t: "t < 2" "rcode s t \<noteq> []" "rowner s = None \<or> rowner s = Some t"
  proof (cases "rowner s")
    case None
    then show ?thesis
      using that assms(2) out unfolding rec_finished_def by blast
  next
    case (Some t)
    have "rcode s t \<noteq> []"
      using code [of t] poss(2) [of t] own [OF Some] Some
      by (cases "w t"; cases "locks_held (w t)") (auto simp: down_code_def up_code_def)
    then show ?thesis
      using that own [OF Some] Some by blast
  qed
  have "\<exists>s'. rec_step t s = Some s'"
  proof (cases "w t")
    case (W_enter j d)
    show ?thesis
    proof (cases j)
      case 0
      then obtain e where e: "d = Suc e"
        using t(1,2) code [of t] W_enter by (cases d) auto
      then have "rowner s = Some t"
        using poss(2) [OF t(1)] W_enter by (simp split: if_splits)
      then show ?thesis
        using t(1) code [of t] W_enter 0 e by (simp add: rec_step_def Let_def)
    next
      case (Suc k)
      then show ?thesis
        using t code [of t] W_enter by (auto simp: rec_step_def Let_def)
    qed
  qed (use t code [of t] in \<open>auto simp: rec_step_def Let_def\<close>)
  then show ?thesis
    by (auto intro: rec_machine.intros)
qed

definition rec_todo :: "rec_state \<Rightarrow> nat" where
  "rec_todo s = length (rcode s 0) + length (rcode s 1)"

lemma rec_step_code:
  "rec_step t s = Some s' \<Longrightarrow> rcode s t \<noteq> [] \<and> rcode s' = (rcode s)(t := tl (rcode s t))"
  by (auto simp: rec_step_def Let_def split: list.splits rec_instr.splits if_splits)

lemma rec_step_todo:
  assumes "rec_machine s s'" and "rec_inv n s w"
  shows "rec_todo s' < rec_todo s"
proof -
  obtain t where t: "rec_step t s = Some s'"
    using assms(1) by (auto elim: rec_machineE)
  note c = rec_step_code [OF t]
  have "t < 2"
    using c assms(2) by (auto simp: rec_inv_def split: if_splits)
  then have "t = 0 \<or> t = 1" by auto
  then show ?thesis
    using c by (auto simp: rec_todo_def)
qed

lemma rec_can_finish:
  assumes "rec_runs (rec_start (int n - 1)) s" and "0 < n"
  shows "\<exists>s'. rec_runs s s' \<and> rec_finished s'"
  using assms(1)
proof (induction "rec_todo s" arbitrary: s rule: less_induct)
  case less
  obtain w where w: "rec_inv n s w"
    using rec_reach_inv [OF less.prems assms(2)] by blast
  show ?case
  proof (cases "rec_finished s")
    case False
    then obtain s1 where s1: "rec_machine s s1"
      using rec_no_deadlock [OF w] by blast
    then have "rec_runs (rec_start (int n - 1)) s1"
      using less.prems by simp
    then show ?thesis
      using less.hyps [OF rec_step_todo [OF s1 w]] s1 by (meson converse_rtranclp_into_rtranclp)
  qed blast
qed

lemma rec_finished_lines:
  assumes "rec_inv n s w" and "rec_finished s"
  shows "rbuffer s = 2 * int n"
    and "\<exists>t < 2. counted s = zip (replicate n (thread_name t) @ replicate n (thread_name (1 - t))) (map int [0..<2 * n])"
proof -
  have w: "lines_left (w u) = 0 \<and> locks_held (w u) = 0" if "u < 2" for u
  proof -
    have "code_of (thread_name u) (w u) = []"
      using assms that unfolding rec_inv_def rec_finished_def by metis
    then show ?thesis
      by (cases "w u") (auto simp: down_code_def up_code_def)
  qed
  have o: "rowner s = None"
  proof (cases "rowner s")
    case (Some t)
    then have "t < 2" "0 < rdepth s" "locks_held (w t) = rdepth s"
      using assms(1) by (auto simp: rec_inv_def)
    then show ?thesis using w by auto
  qed
  obtain ds where ds: "distinct ds" "set ds = {t. t < 2 \<and> lines_left (w t) = 0}"
    and cs: "map fst (counted s) = concat (map (\<lambda>t. replicate n (thread_name t)) ds)"
    using assms(1) o by (auto simp: rec_inv_def blocks_def)
  have "set ds = {0, 1}"
    using ds(2) w by (auto simp: less_2_cases_iff)
  moreover then have "length ds = 2"
    using ds(1) distinct_card by fastforce
  ultimately obtain t where t: "ds = [t, 1 - t]" "t < 2"
    by (auto simp: length_Suc_conv eval_nat_numeral doubleton_eq_iff)
  have len: "length (counted s) = 2 * n"
    using arg_cong [OF cs, of length] t by simp
  have v: "map snd (counted s) = map int [0..<2 * n]"
    using assms(1) len by (simp add: rec_inv_def)
  show "rbuffer s = 2 * int n"
    using assms(1) o len by (simp add: rec_inv_def pending_def)
  show "\<exists>t < 2. counted s = zip (replicate n (thread_name t) @ replicate n (thread_name (1 - t))) (map int [0..<2 * n])"
    using cs v t zip_map_fst_snd [of "counted s"] by (intro exI [of _ t]) simp
qed

text \<open>
  C23: the recursive mutex. In every interleaving the two threads can be run to their end,
  and then one thread has printed its eleven counting lines first and the other its eleven
  after them, with the numbers 0 to 21 in order: the whole recursion of a thread excludes
  the other, and no increment is lost.
\<close>

theorem recursion_excludes:
  assumes "rec_runs rec_main s"
  shows "(\<exists>s'. rec_runs s s' \<and> rec_finished s') \<and>
    (rec_finished s \<longrightarrow> rbuffer s = 22 \<and>
       (\<exists>t < 2. counted s =
          zip (replicate 11 (thread_name t) @ replicate 11 (thread_name (1 - t))) (map int [0..<22])))"
proof -
  have r: "rec_runs (rec_start (int 11 - 1)) s"
    using assms by (simp add: rec_main_def)
  obtain w where "rec_inv 11 s w"
    using rec_reach_inv [OF r] by auto
  then show ?thesis
    using rec_can_finish [OF r] rec_finished_lines [of 11 s w] by simp
qed

lemma recursion_excludes_witness: "\<exists>s'. rec_runs rec_main s' \<and> rec_finished s'"
  using recursion_excludes [of rec_main] by blast

end
