(* ===== verification/Timed_Lock.thy ===== *)
theory Timed_Lock
  imports Cxx_Strings
begin

text \<open>
  Locking with a time limit, \<^verbatim>\<open>try_lock_for\<close> in \<^verbatim>\<open>cpp/multi_threading/timed_mutex.cpp\<close>.
  Time is not modelled: an attempt may always be given up, as the standard allows, and
  sleeping is no step. A line is recorded whole; the characters of two lines that are written
  at the same time may mix on the terminal.
\<close>

section \<open>Timed locking\<close>

datatype timed_pc = At_try | Holding | Loaded int | Stored | Told | Over

record timed_state =
  myAmount :: int
  timed_owner :: "nat option"
  timed_pcs :: "nat \<Rightarrow> timed_pc"
  timed_lines :: "(nat \<times> bool) list"

text \<open>
  The line of a thread that entered (\<open>True\<close>) or gave up (\<open>False\<close>).
\<close>

definition timed_text :: "nat \<times> bool \<Rightarrow> string" where
  "timed_text l =
     ''Thread '' @ dec (fst l) @ (if snd l then '' Entered'' else '' Couldn't Entered'')"

definition set_pc :: "nat \<Rightarrow> timed_pc \<Rightarrow> timed_state \<Rightarrow> timed_state" where
  "set_pc i pc s = s\<lparr>timed_pcs := (timed_pcs s)(i := pc)\<rparr>"

inductive increament :: "nat \<Rightarrow> timed_state \<Rightarrow> timed_state \<Rightarrow> bool" for i where
  Enter: "timed_pcs s i = At_try \<Longrightarrow> timed_owner s = None \<Longrightarrow>
    increament i s (set_pc i Holding (s\<lparr>timed_owner := Some i\<rparr>))"
| Give_up: "timed_pcs s i = At_try \<Longrightarrow>
    increament i s (set_pc i Over (s\<lparr>timed_lines := timed_lines s @ [(i, False)]\<rparr>))"
| Load: "timed_pcs s i = Holding \<Longrightarrow> increament i s (set_pc i (Loaded (myAmount s)) s)"
| Store: "timed_pcs s i = Loaded v \<Longrightarrow> increament i s (set_pc i Stored (s\<lparr>myAmount := v + 1\<rparr>))"
| Tell: "timed_pcs s i = Stored \<Longrightarrow>
    increament i s (set_pc i Told (s\<lparr>timed_lines := timed_lines s @ [(i, True)]\<rparr>))"
| Leave: "timed_pcs s i = Told \<Longrightarrow> timed_owner s = Some i \<Longrightarrow>
    increament i s (set_pc i Over (s\<lparr>timed_owner := None\<rparr>))"

inductive_cases increamentE: "increament i s s'"

text \<open>\<^verbatim>\<open>main\<close> starts the threads \<open>ts\<close> and joins them.\<close>

definition timed_start :: "nat set \<Rightarrow> timed_state" where
  "timed_start ts =
     \<lparr>myAmount = 0, timed_owner = None, timed_pcs = (\<lambda>i. if i \<in> ts then At_try else Over), timed_lines = []\<rparr>"

definition timed_step :: "timed_state \<Rightarrow> timed_state \<Rightarrow> bool" where
  "timed_step s s' \<longleftrightarrow> (\<exists>i. increament i s s')"

definition timed_main :: timed_state where
  "timed_main = timed_start {1, 2}"

definition entered :: "timed_state \<Rightarrow> int" where
  "entered s = int (length (filter snd (timed_lines s)))"

text \<open>The owner is the one thread inside; its increment is counted before its line is printed.\<close>

definition timed_inv :: "timed_state \<Rightarrow> bool" where
  "timed_inv s \<longleftrightarrow>
     (\<forall>i. timed_pcs s i \<notin> {At_try, Over} \<longleftrightarrow> timed_owner s = Some i) \<and>
     (\<forall>i v. timed_pcs s i = Loaded v \<longrightarrow> v = myAmount s) \<and>
     myAmount s = entered s +
       (case timed_owner s of None \<Rightarrow> 0 | Some i \<Rightarrow> if timed_pcs s i = Stored then 1 else 0)"

lemma timed_start_inv: "timed_inv (timed_start ts)"
  by (simp add: timed_inv_def timed_start_def entered_def)

lemma increament_inv:
  assumes "increament i s s'" and "timed_inv s"
  shows "timed_inv s'"
proof -
  have own: "timed_pcs s j \<notin> {At_try, Over} \<longleftrightarrow> timed_owner s = Some j" for j
    using assms(2) by (simp add: timed_inv_def)
  have ld: "timed_pcs s j = Loaded v \<Longrightarrow> v = myAmount s" for j v
    using assms(2) unfolding timed_inv_def by blast
  have am: "myAmount s = entered s +
      (case timed_owner s of None \<Rightarrow> 0 | Some i \<Rightarrow> if timed_pcs s i = Stored then 1 else 0)"
    using assms(2) by (simp add: timed_inv_def)
  from assms(1) show ?thesis
  proof cases
    case Enter
    then show ?thesis
      using own ld am by (auto simp: timed_inv_def set_pc_def entered_def)
  next
    case Give_up
    have "timed_owner s \<noteq> Some i"
      using own [of i] Give_up(2) by simp
    then show ?thesis
      using Give_up own ld am
      by (auto simp: timed_inv_def set_pc_def entered_def split: option.split)
  next
    case Load
    then have "timed_owner s = Some i" using own [of i] by simp
    then show ?thesis
      using Load own ld am by (auto simp: timed_inv_def set_pc_def entered_def)
  next
    case (Store v)
    then have o: "timed_owner s = Some i" and v: "v = myAmount s" using own [of i] ld by auto
    have no: "timed_pcs s j \<noteq> Loaded w" if "j \<noteq> i" for j w
      using own [of j] o that by auto
    have am': "myAmount s = entered s"
      using am o Store(2) by simp
    have own': "(if j = i then Stored else timed_pcs s j) \<notin> {At_try, Over} \<longleftrightarrow> Some i = Some j" for j
      using own [of j] o by simp
    show ?thesis
      unfolding timed_inv_def
    proof (intro conjI allI impI)
      show "timed_pcs s' j \<notin> {At_try, Over} \<longleftrightarrow> timed_owner s' = Some j" for j
        using own' [of j] by (simp add: Store(1) set_pc_def o)
      show "w = myAmount s'" if "timed_pcs s' j = Loaded w" for j w
        using that no [of j w] by (simp add: Store(1) set_pc_def split: if_splits)
      show "myAmount s' = entered s' +
          (case timed_owner s' of None \<Rightarrow> 0 | Some k \<Rightarrow> if timed_pcs s' k = Stored then 1 else 0)"
        by (simp add: Store(1) set_pc_def o v am' entered_def)
    qed
  next
    case Tell
    then have "timed_owner s = Some i" using own [of i] by simp
    then show ?thesis
      using Tell own ld am by (auto simp: timed_inv_def set_pc_def entered_def)
  next
    case Leave
    have "timed_pcs s j = At_try \<or> timed_pcs s j = Over" if "j \<noteq> i" for j
      using own [of j] Leave(3) that by auto
    then show ?thesis
      using Leave ld am by (auto simp: timed_inv_def set_pc_def entered_def)
  qed
qed

lemma timed_reach_inv: "timed_step\<^sup>*\<^sup>* (timed_start ts) s \<Longrightarrow> timed_inv s"
  by (induction rule: rtranclp_induct) (auto simp: timed_start_inv timed_step_def increament_inv)

lemma timed_progress:
  assumes "timed_inv s" and "timed_pcs s i \<noteq> Over"
  shows "\<exists>s'. increament i s s'"
proof (cases "timed_pcs s i")
  case Told
  then have "timed_owner s = Some i"
    using assms(1) unfolding timed_inv_def by auto
  then show ?thesis using Told increament.Leave by blast
qed (use assms(2) increament.intros in blast)+

text \<open>
  When all threads have ended, the amount that \<^verbatim>\<open>main\<close> prints is the number of threads that
  entered; no thread is ever stuck.
\<close>

lemma timed_amount:
  assumes "timed_step\<^sup>*\<^sup>* (timed_start ts) s"
  shows "(\<forall>i. timed_pcs s i = Over) \<longrightarrow> myAmount s = entered s"
    and "timed_pcs s i \<noteq> Over \<Longrightarrow> \<exists>s'. timed_step s s'"
proof -
  have inv: "timed_inv s"
    using timed_reach_inv [OF assms] .
  show "(\<forall>i. timed_pcs s i = Over) \<longrightarrow> myAmount s = entered s"
    using inv by (cases "timed_owner s") (auto simp: timed_inv_def)
  show "timed_pcs s i \<noteq> Over \<Longrightarrow> \<exists>s'. timed_step s s'"
    using timed_progress [OF inv, of i] unfolding timed_step_def by blast
qed

end
