(* ===== verification/Std_Lock.thy ===== *)
theory Std_Lock
  imports Cxx_Strings
begin

text \<open>
  Two threads that take the same two mutexes with \<^verbatim>\<open>std::lock\<close>, each naming them in its own
  order (\<^verbatim>\<open>cpp/multi_threading/lock_in_cpp.cpp\<close>). The standard promises that the call
  acquires all its mutexes by some sequence of \<^verbatim>\<open>lock\<close>, \<^verbatim>\<open>try_lock\<close> and \<^verbatim>\<open>unlock\<close>
  calls that cannot deadlock; it does not say which. The model admits every such sequence: inside
  the call a thread may take any free mutex, and one that cannot have both gives back what it holds.
\<close>

section \<open>The program\<close>

datatype task = Taks_a | Task_b
datatype mutex = M1 | M2
datatype lock_pc = In_lock | Has_both | Has_shown | One_left

record lock_state =
  holder :: "mutex \<Rightarrow> task option"
  lock_pcs :: "task \<Rightarrow> lock_pc"
  task_lines :: "task list"

fun task_text :: "task \<Rightarrow> string" where
  "task_text Taks_a = ''task a'' @ [NL]"
| "task_text Task_b = ''task b'' @ [NL]"

text \<open>The order of the two \<^verbatim>\<open>unlock\<close> calls in the body of each task.\<close>

fun unlocked_first :: "task \<Rightarrow> mutex" where
  "unlocked_first Taks_a = M1"
| "unlocked_first Task_b = M2"

fun unlocked_last :: "task \<Rightarrow> mutex" where
  "unlocked_last Taks_a = M2"
| "unlocked_last Task_b = M1"

definition hold :: "mutex \<Rightarrow> task option \<Rightarrow> lock_state \<Rightarrow> lock_state" where
  "hold m h s = s\<lparr>holder := (holder s)(m := h)\<rparr>"

definition goes_to :: "task \<Rightarrow> lock_pc \<Rightarrow> lock_state \<Rightarrow> lock_state" where
  "goes_to t pc s = s\<lparr>lock_pcs := (lock_pcs s)(t := pc)\<rparr>"

inductive task_step :: "task \<Rightarrow> lock_state \<Rightarrow> lock_state \<Rightarrow> bool" for t where
  Take: "lock_pcs s t = In_lock \<Longrightarrow> holder s m = None \<Longrightarrow> task_step t s (hold m (Some t) s)"
| Back_off: "lock_pcs s t = In_lock \<Longrightarrow> holder s m = Some t \<Longrightarrow> holder s m' = Some u \<Longrightarrow> u \<noteq> t \<Longrightarrow>
    task_step t s (hold m None s)"
| Locked: "lock_pcs s t = In_lock \<Longrightarrow> holder s M1 = Some t \<Longrightarrow> holder s M2 = Some t \<Longrightarrow>
    task_step t s (goes_to t Has_both s)"
| Print: "lock_pcs s t = Has_both \<Longrightarrow>
    task_step t s (goes_to t Has_shown (s\<lparr>task_lines := task_lines s @ [t]\<rparr>))"
| Unlock_first: "lock_pcs s t = Has_shown \<Longrightarrow>
    task_step t s (goes_to t One_left (hold (unlocked_first t) None s))"
| Unlock_last: "lock_pcs s t = One_left \<Longrightarrow>
    task_step t s (goes_to t In_lock (hold (unlocked_last t) None s))"

inductive_cases task_stepE: "task_step t s s'"

text \<open>\<^verbatim>\<open>main\<close> starts both threads; they never return, so its \<^verbatim>\<open>join\<close> never does either.\<close>

definition lock_main :: lock_state where
  "lock_main = \<lparr>holder = (\<lambda>m. None), lock_pcs = (\<lambda>t. In_lock), task_lines = []\<rparr>"

definition lock_step :: "lock_state \<Rightarrow> lock_state \<Rightarrow> bool" where
  "lock_step s s' \<longleftrightarrow> (\<exists>t. task_step t s s')"

section \<open>The invariant\<close>

definition lock_inv :: "lock_state \<Rightarrow> bool" where
  "lock_inv s \<longleftrightarrow>
     (\<forall>t. lock_pcs s t \<in> {Has_both, Has_shown} \<longrightarrow> holder s = (\<lambda>m. Some t)) \<and>
     (\<forall>t. lock_pcs s t = One_left \<longrightarrow>
        holder s (unlocked_last t) = Some t \<and> holder s (unlocked_first t) \<noteq> Some t)"

lemma mutex_fun_eq: "f = g \<longleftrightarrow> f M1 = g M1 \<and> f M2 = g M2" for f :: "mutex \<Rightarrow> 'a"
  by (metis ext mutex.exhaust)

lemma all_tasks: "(\<forall>t. P t) \<longleftrightarrow> P Taks_a \<and> P Task_b"
  by (metis task.exhaust)

lemma all_mutexes: "(\<forall>m. P m) \<longleftrightarrow> P M1 \<and> P M2"
  by (metis mutex.exhaust)

lemma lock_main_inv: "lock_inv lock_main"
  by (simp add: lock_inv_def lock_main_def)

lemma task_step_inv:
  assumes "task_step t s s'" and "lock_inv s"
  shows "lock_inv s'"
  using assms
proof cases
  case (Take m)
  then show ?thesis
    using assms(2)
    by (cases t; cases m) (auto simp: lock_inv_def all_tasks mutex_fun_eq hold_def)
next
  case (Back_off m m' u)
  then show ?thesis
    using assms(2)
    by (cases t; cases m) (auto simp: lock_inv_def all_tasks mutex_fun_eq hold_def)
qed (use assms(2) in \<open>cases t; auto simp: lock_inv_def all_tasks mutex_fun_eq hold_def goes_to_def\<close>)+

lemma lock_reach_inv: "lock_step\<^sup>*\<^sup>* lock_main s \<Longrightarrow> lock_inv s"
  by (induction rule: rtranclp_induct) (auto simp: lock_main_inv lock_step_def task_step_inv)

lemma lock_step_lines: "lock_step\<^sup>*\<^sup>* s s' \<Longrightarrow> \<exists>ls. task_lines s' = task_lines s @ ls"
  by (induction rule: rtranclp_induct)
    (auto simp: lock_step_def hold_def goes_to_def elim!: task_stepE)

section \<open>Neither task is locked out\<close>

definition idle :: "task \<Rightarrow> lock_state \<Rightarrow> bool" where
  "idle t s \<longleftrightarrow> lock_pcs s t = In_lock \<and> (\<forall>m. holder s m \<noteq> Some t)"

text \<open>What one task does leaves another that holds nothing as it is.\<close>

lemma task_step_idle: "task_step t s s' \<Longrightarrow> idle u s \<Longrightarrow> u \<noteq> t \<Longrightarrow> idle u s'"
  by (erule task_stepE) (auto simp: idle_def hold_def goes_to_def)

definition moves :: "task \<Rightarrow> lock_state \<Rightarrow> lock_state \<Rightarrow> bool" where
  "moves t = (task_step t)\<^sup>*\<^sup>*"

lemma moves_step: "task_step t s s' \<Longrightarrow> moves t s' s'' \<Longrightarrow> moves t s s''"
  by (simp add: moves_def converse_rtranclp_into_rtranclp)

lemma moves_refl [simp]: "moves t s s"
  by (simp add: moves_def)

lemma moves_idle: "moves t s s' \<Longrightarrow> idle u s \<Longrightarrow> u \<noteq> t \<Longrightarrow> idle u s'"
  unfolding moves_def by (induction rule: rtranclp_induct) (auto dest: task_step_idle)

lemma moves_inv: "moves t s s' \<Longrightarrow> lock_inv s \<Longrightarrow> lock_inv s'"
  unfolding moves_def by (induction rule: rtranclp_induct) (auto dest: task_step_inv)

lemma moves_run: "moves t s s' \<Longrightarrow> lock_step\<^sup>*\<^sup>* s s'"
  unfolding moves_def
  by (induction rule: rtranclp_induct) (auto simp: lock_step_def intro: rtranclp.rtrancl_into_rtrancl)

text \<open>From each point of its loop a task can come back to the call of \<^verbatim>\<open>lock\<close> with nothing held.\<close>

lemma last_unlock_moves:
  assumes "lock_inv s" and "lock_pcs s t = One_left"
  shows "\<exists>s'. moves t s s' \<and> idle t s'"
proof (intro exI conjI)
  show "moves t s (goes_to t In_lock (hold (unlocked_last t) None s))"
    using task_step.Unlock_last [OF assms(2)] by (rule moves_step) simp
  show "idle t (goes_to t In_lock (hold (unlocked_last t) None s))"
    using assms by (cases t) (auto simp: idle_def goes_to_def hold_def lock_inv_def all_tasks all_mutexes)
qed

lemma unlock_moves:
  assumes "lock_inv s" and "lock_pcs s t = Has_shown"
  shows "\<exists>s'. moves t s s' \<and> idle t s'"
proof -
  let ?s = "goes_to t One_left (hold (unlocked_first t) None s)"
  have st: "task_step t s ?s"
    using assms(2) by (rule task_step.Unlock_first)
  have "\<exists>s'. moves t ?s s' \<and> idle t s'"
    by (rule last_unlock_moves [OF task_step_inv [OF st assms(1)]]) (simp add: goes_to_def)
  then show ?thesis using moves_step [OF st] by blast
qed

lemma shown_moves:
  assumes "lock_inv s" and "lock_pcs s t = Has_both"
  shows "\<exists>s'. moves t s s' \<and> idle t s'"
proof -
  let ?s = "goes_to t Has_shown (s\<lparr>task_lines := task_lines s @ [t]\<rparr>)"
  have st: "task_step t s ?s"
    using assms(2) by (rule task_step.Print)
  have "\<exists>s'. moves t ?s s' \<and> idle t s'"
    by (rule unlock_moves [OF task_step_inv [OF st assms(1)]]) (simp add: goes_to_def)
  then show ?thesis using moves_step [OF st] by blast
qed

lemma both_moves:
  assumes "lock_inv s" and "lock_pcs s t = In_lock" and "holder s = (\<lambda>m. Some t)"
  shows "\<exists>s'. moves t s s' \<and> idle t s'"
proof -
  let ?s = "goes_to t Has_both s"
  have st: "task_step t s ?s"
    using assms(2,3) by (auto intro: task_step.Locked)
  have "\<exists>s'. moves t ?s s' \<and> idle t s'"
    by (rule shown_moves [OF task_step_inv [OF st assms(1)]]) (simp add: goes_to_def)
  then show ?thesis using moves_step [OF st] by blast
qed

lemma one_held_moves:
  assumes "lock_inv s" and "lock_pcs s t = In_lock" and "holder s m = Some t" and "m' \<noteq> m"
    and "holder s m' \<noteq> Some t"
  shows "\<exists>s'. moves t s s' \<and> idle t s'"
proof (cases "holder s m'")
  case None
  let ?s = "hold m' (Some t) s"
  have st: "task_step t s ?s"
    using assms(2) None by (rule task_step.Take)
  have "\<exists>s'. moves t ?s s' \<and> idle t s'"
  proof (rule both_moves [OF task_step_inv [OF st assms(1)]])
    show "lock_pcs ?s t = In_lock" using assms(2) by (simp add: hold_def)
    show "holder ?s = (\<lambda>m. Some t)"
      using assms(3,4) by (cases m; cases m') (simp_all add: hold_def mutex_fun_eq)
  qed
  then show ?thesis using moves_step [OF st] by blast
next
  case (Some u)
  then have "task_step t s (hold m None s)"
    using assms(5) by (intro task_step.Back_off [OF assms(2,3)]) auto
  then have "moves t s (hold m None s)"
    by (rule moves_step) simp
  moreover have "idle t (hold m None s)"
    using assms(2,4,5) by (cases m; cases m') (auto simp: idle_def hold_def all_mutexes)
  ultimately show ?thesis by blast
qed

lemma comes_back:
  assumes "lock_inv s"
  shows "\<exists>s'. moves t s s' \<and> idle t s'"
proof (cases "lock_pcs s t")
  case In_lock
  consider "holder s = (\<lambda>m. Some t)" | m m' where "holder s m = Some t" "m' \<noteq> m" "holder s m' \<noteq> Some t"
    | "idle t s"
    using In_lock by (auto simp: idle_def mutex_fun_eq all_mutexes)
  then show ?thesis
  proof cases
    case 1
    then show ?thesis using both_moves [OF assms In_lock] by simp
  next
    case (2 m m')
    then show ?thesis using one_held_moves [OF assms In_lock] by blast
  next
    case 3
    then show ?thesis using moves_refl by blast
  qed
qed (use assms shown_moves unlock_moves last_unlock_moves in blast)+

lemma both_idle:
  assumes "lock_inv s"
  obtains s' where "lock_step\<^sup>*\<^sup>* s s'" and "\<And>t. idle t s'"
proof -
  obtain s1 where s1: "moves Taks_a s s1" "idle Taks_a s1"
    using comes_back [OF assms] by blast
  obtain s2 where s2: "moves Task_b s1 s2" "idle Task_b s2"
    using comes_back [OF moves_inv [OF s1(1) assms]] by blast
  have "idle Taks_a s2"
    using moves_idle [OF s2(1) s1(2)] by simp
  then have "idle t s2" for t
    using s2(2) by (cases t) auto
  moreover have "lock_step\<^sup>*\<^sup>* s s2"
    using moves_run [OF s1(1)] moves_run [OF s2(1)] by (rule rtranclp_trans)
  ultimately show thesis using that by blast
qed

lemma idle_prints:
  assumes "\<And>u. idle u s"
  shows "\<exists>s'. moves t s s' \<and> task_lines s' = task_lines s @ [t]"
proof -
  have free: "holder s m = None" and pc: "lock_pcs s t = In_lock" for m
    using assms by (auto simp: idle_def) (metis not_None_eq)
  let ?a = "hold M1 (Some t) s"
  let ?b = "hold M2 (Some t) ?a"
  let ?c = "goes_to t Has_both ?b"
  let ?d = "goes_to t Has_shown (?c\<lparr>task_lines := task_lines ?c @ [t]\<rparr>)"
  have "task_step t s ?a" by (rule task_step.Take [OF pc free])
  moreover have "task_step t ?a ?b" by (rule task_step.Take) (simp_all add: hold_def pc free)
  moreover have "task_step t ?b ?c" by (rule task_step.Locked) (simp_all add: hold_def pc)
  moreover have "task_step t ?c ?d" by (rule task_step.Print) (simp add: goes_to_def)
  ultimately have "moves t s ?d"
    by (blast intro: moves_step moves_refl)
  moreover have "task_lines ?d = task_lines s @ [t]"
    by (simp add: goes_to_def hold_def)
  ultimately show ?thesis by blast
qed

text \<open>
  C36: at most one task is between \<^verbatim>\<open>lock\<close> and its first \<^verbatim>\<open>unlock\<close>, and whatever has happened so far,
  either task can still come to print its next line, although the two name the mutexes in opposite
  orders.
\<close>

theorem lock_never_deadlocks:
  assumes "lock_step\<^sup>*\<^sup>* lock_main s"
  shows "(lock_pcs s t \<in> {Has_both, Has_shown} \<longrightarrow>
      (\<forall>u. u \<noteq> t \<longrightarrow> lock_pcs s u \<notin> {Has_both, Has_shown})) \<and>
    (\<exists>s' ls. lock_step\<^sup>*\<^sup>* s s' \<and> task_lines s' = task_lines s @ ls @ [t])"
proof (intro conjI impI allI notI)
  have inv: "lock_inv s" using assms by (rule lock_reach_inv)
  show False if "lock_pcs s t \<in> {Has_both, Has_shown}" "u \<noteq> t" "lock_pcs s u \<in> {Has_both, Has_shown}" for u
  proof -
    have "holder s = (\<lambda>m. Some t)" "holder s = (\<lambda>m. Some u)"
      using inv that unfolding lock_inv_def by blast+
    then show False using that(2) by (metis option.inject)
  qed
  obtain s1 where s1: "lock_step\<^sup>*\<^sup>* s s1" "\<And>u. idle u s1"
    using both_idle [OF inv] by blast
  obtain ls where ls: "task_lines s1 = task_lines s @ ls"
    using lock_step_lines [OF s1(1)] by blast
  obtain s2 where "moves t s1 s2" "task_lines s2 = task_lines s1 @ [t]"
    using idle_prints [OF s1(2)] by blast
  then show "\<exists>s' ls. lock_step\<^sup>*\<^sup>* s s' \<and> task_lines s' = task_lines s @ ls @ [t]"
    using rtranclp_trans [OF s1(1) moves_run] ls by auto
qed

lemma lock_never_deadlocks_witness:
  "\<exists>s' ls. lock_step\<^sup>*\<^sup>* lock_main s' \<and> task_lines s' = task_lines lock_main @ ls @ [Task_b]"
  using lock_never_deadlocks [of lock_main Task_b] by simp

end
