(* ===== verification/Fork_Join.thy ===== *)
theory Fork_Join
  imports Cxx_Strings Thread_Sums
begin

text \<open>
  Threads that only print, started, joined, detached or waited for by \<^verbatim>\<open>main\<close>: a machine that
  interleaves the lines of the threads with the instructions of \<^verbatim>\<open>main\<close>, and the locale
  \<^verbatim>\<open>fork_join\<close> of programs that use their threads properly. When \<^verbatim>\<open>main\<close> returns, the process
  ends and with it every thread that is still running. A line is recorded whole; the
  characters of two lines that are written at the same time may mix on the terminal.
\<close>

section \<open>The machine\<close>

text \<open>
  \<open>Spawn t ls\<close> starts thread \<open>t\<close>, which prints the lines \<open>ls\<close> and ends; \<open>Await t\<close> is
  \<^verbatim>\<open>future::get\<close> on what thread \<open>t\<close> leaves at its end.
\<close>

datatype main_instr =
    Spawn nat "string list"
  | Join nat
  | Detach nat
  | Await nat
  | Say string

record process =
  main_code :: "main_instr list"
  remaining :: "nat \<Rightarrow> string list"
  begun :: "nat list"
  joinable :: "nat list"
  shown :: "(nat option \<times> string) list"

definition main_step :: "process \<Rightarrow> process option" where
  "main_step s =
     (case main_code s of
        [] \<Rightarrow> None
      | i # is \<Rightarrow>
          let s' = s\<lparr>main_code := is\<rparr> in
          (case i of
             Spawn t ls \<Rightarrow> Some (s'\<lparr>remaining := (remaining s)(t := ls), begun := t # begun s,
                                    joinable := t # joinable s\<rparr>)
           | Join t \<Rightarrow>
               if t \<in> set (joinable s) \<and> remaining s t = []
               then Some (s'\<lparr>joinable := removeAll t (joinable s)\<rparr>) else None
           | Detach t \<Rightarrow>
               if t \<in> set (joinable s) then Some (s'\<lparr>joinable := removeAll t (joinable s)\<rparr>) else None
           | Await t \<Rightarrow> if t \<in> set (begun s) \<and> remaining s t = [] then Some s' else None
           | Say l \<Rightarrow> Some (s'\<lparr>shown := shown s @ [(None, l)]\<rparr>)))"

definition line_step :: "nat \<Rightarrow> process \<Rightarrow> process option" where
  "line_step t s =
     (if main_code s = [] \<or> t \<notin> set (begun s) then None
      else
        (case remaining s t of
           [] \<Rightarrow> None
         | l # ls \<Rightarrow> Some (s\<lparr>remaining := (remaining s)(t := ls), shown := shown s @ [(Some t, l)]\<rparr>)))"

inductive process_step :: "process \<Rightarrow> process \<Rightarrow> bool" where
  "main_step s = Some s' \<Longrightarrow> process_step s s'"
| "line_step t s = Some s' \<Longrightarrow> process_step s s'"

inductive_cases process_stepE: "process_step s s'"

definition process_start :: "main_instr list \<Rightarrow> process" where
  "process_start prog =
     \<lparr>main_code = prog, remaining = (\<lambda>_. []), begun = [], joinable = [], shown = []\<rparr>"

abbreviation process_runs :: "process \<Rightarrow> process \<Rightarrow> bool" where
  "process_runs \<equiv> process_step\<^sup>*\<^sup>*"

text \<open>What a thread, or \<^verbatim>\<open>main\<close>, has printed.\<close>

definition shown_by :: "nat option \<Rightarrow> process \<Rightarrow> string list" where
  "shown_by w s = map snd (filter (\<lambda>x. fst x = w) (shown s))"

primrec main_lines :: "main_instr list \<Rightarrow> string list" where
  "main_lines [] = []"
| "main_lines (i # is) = (case i of Say l \<Rightarrow> [l] | _ \<Rightarrow> []) @ main_lines is"

primrec thread_lines :: "main_instr list \<Rightarrow> nat \<Rightarrow> string list" where
  "thread_lines [] t = []"
| "thread_lines (i # is) t = (case i of Spawn u ls \<Rightarrow> if u = t then ls else thread_lines is t | _ \<Rightarrow> thread_lines is t)"

text \<open>Every thread is started once and joined or detached exactly once after that.\<close>

fun forked :: "nat set \<Rightarrow> nat set \<Rightarrow> main_instr list \<Rightarrow> bool" where
  "forked B J [] \<longleftrightarrow> J = {}"
| "forked B J (Spawn t ls # is) \<longleftrightarrow> t \<notin> B \<and> forked (insert t B) (insert t J) is"
| "forked B J (Join t # is) \<longleftrightarrow> t \<in> J \<and> forked B (J - {t}) is"
| "forked B J (Detach t # is) \<longleftrightarrow> t \<in> J \<and> forked B (J - {t}) is"
| "forked B J (Await t # is) \<longleftrightarrow> t \<in> B \<and> forked B J is"
| "forked B J (Say l # is) \<longleftrightarrow> forked B J is"

section \<open>Programs that use their threads properly\<close>

locale fork_join =
  fixes prog :: "main_instr list"
  assumes forked_prog: "forked {} {} prog"
begin

text \<open>
  The threads begun have printed a part of their lines, the others nothing; a thread that was
  joined has nothing left.
\<close>

definition proper :: "process \<Rightarrow> bool" where
  "proper s \<longleftrightarrow>
     forked (set (begun s)) (set (joinable s)) (main_code s) \<and>
     set (joinable s) \<subseteq> set (begun s) \<and>
     shown_by None s @ main_lines (main_code s) = main_lines prog \<and>
     (\<forall>t. if t \<in> set (begun s) then shown_by (Some t) s @ remaining s t = thread_lines prog t
          else shown_by (Some t) s = [] \<and> thread_lines (main_code s) t = thread_lines prog t) \<and>
     (\<forall>t. Join t \<in> set prog \<longrightarrow> Join t \<in> set (main_code s) \<or> t \<in> set (begun s) \<and> remaining s t = [])"

lemma start_proper: "proper (process_start prog)"
  using forked_prog by (simp add: proper_def process_start_def shown_by_def)

lemma main_step_proper:
  assumes "main_step s = Some s'" and "proper s"
  shows "proper s'"
proof (cases "main_code s")
  case (Cons i "is")
  show ?thesis
  proof (cases i)
    case (Spawn t ls)
    then show ?thesis
      using assms Cons by (auto simp: main_step_def proper_def shown_by_def split: if_splits)
  next
    case (Join t)
    then show ?thesis
      using assms Cons by (auto simp: main_step_def proper_def shown_by_def split: if_splits) (metis subsetD)
  next
    case (Detach t)
    then show ?thesis
      using assms Cons by (auto simp: main_step_def proper_def shown_by_def split: if_splits)
  next
    case (Await t)
    then show ?thesis
      using assms Cons by (auto simp: main_step_def proper_def shown_by_def split: if_splits)
  next
    case (Say l)
    then show ?thesis
      using assms Cons by (auto simp: main_step_def proper_def shown_by_def split: if_splits)
  qed
qed (use assms in \<open>simp add: main_step_def\<close>)

lemma line_step_proper:
  assumes "line_step t s = Some s'" and "proper s"
  shows "proper s'"
  using assms
  by (auto simp: line_step_def proper_def shown_by_def split: if_splits list.splits) (metis list.distinct(1))+

lemma reach_proper: "process_runs (process_start prog) s \<Longrightarrow> proper s"
proof (induction rule: rtranclp_induct)
  case base
  then show ?case by (rule start_proper)
next
  case (step s s')
  then show ?case
    using main_step_proper line_step_proper by (auto elim!: process_stepE)
qed

text \<open>When \<^verbatim>\<open>main\<close> has returned, it and the joined threads have printed all their lines.\<close>

lemma finished_lines:
  assumes "process_runs (process_start prog) s" and "main_code s = []"
  shows "shown_by None s = main_lines prog"
    and "Join t \<in> set prog \<Longrightarrow> shown_by (Some t) s = thread_lines prog t"
    and "\<exists>ls. shown_by (Some t) s @ ls = thread_lines prog t"
proof -
  have p: "proper s"
    using reach_proper [OF assms(1)] .
  then show "shown_by None s = main_lines prog"
    using assms(2) by (simp add: proper_def)
  have b: "t \<in> set (begun s) \<Longrightarrow> shown_by (Some t) s @ remaining s t = thread_lines prog t" for t
    using p unfolding proper_def by metis
  show "shown_by (Some t) s = thread_lines prog t" if "Join t \<in> set prog"
  proof -
    have "t \<in> set (begun s)" "remaining s t = []"
      using p that assms(2) unfolding proper_def by auto
    then show ?thesis using b [of t] by simp
  qed
  show "\<exists>ls. shown_by (Some t) s @ ls = thread_lines prog t"
  proof (cases "t \<in> set (begun s)")
    case True
    then show ?thesis using b by blast
  next
    case False
    then have "shown_by (Some t) s = []"
      using p unfolding proper_def by metis
    then show ?thesis by simp
  qed
qed

text \<open>Nothing is printed behind the last line of a program that ends with one.\<close>

lemma last_line:
  assumes "process_runs (process_start prog) s" and "prog = is @ [Say l]" and "main_code s = []"
  shows "\<exists>xs. shown s = xs @ [(None, l)]"
proof -
  have "if main_code s = [] then \<exists>xs. shown s = xs @ [(None, l)] else \<exists>us. main_code s = us @ [Say l]"
    using assms(1)
  proof (induction rule: rtranclp_induct)
    case base
    then show ?case using assms(2) by (simp add: process_start_def)
  next
    case (step s s')
    from step.hyps(2) show ?case
    proof (rule process_stepE)
      assume m: "main_step s = Some s'"
      then obtain i us where c: "main_code s = i # us" "main_code s' = us"
        by (auto simp: main_step_def Let_def split: list.splits main_instr.splits if_splits)
      then obtain vs where v: "i # us = vs @ [Say l]"
        using step.IH by auto
      show ?case
      proof (cases "us = []")
        case True
        then have "i = Say l" using v by simp
        then show ?thesis using m c True by (auto simp: main_step_def)
      next
        case False
        then show ?thesis using v c by (cases vs) auto
      qed
    next
      fix t assume "line_step t s = Some s'"
      then show ?case
        using step.IH by (auto simp: line_step_def split: if_splits list.splits)
    qed
  qed
  then show ?thesis using assms(3) by simp
qed

text \<open>No join waits for ever: every run can be completed.\<close>

lemma can_finish:
  assumes "process_runs (process_start prog) s"
  shows "\<exists>s'. process_runs s s' \<and> main_code s' = []"
  using assms
proof (induction "(length (main_code s), case main_code s of Join t # _ \<Rightarrow> length (remaining s t)
      | Await t # _ \<Rightarrow> length (remaining s t) | _ \<Rightarrow> 0)" arbitrary: s
      rule: wf_induct_rule [OF wf_lex_prod [OF wf_less_than wf_less_than]])
  case (1 s)
  have p: "proper s"
    using reach_proper [OF "1.prems"] .
  show ?case
  proof (cases "main_code s")
    case Nil
    then show ?thesis by blast
  next
    case (Cons i "is")
    have "\<exists>s1. process_step s s1 \<and>
        ((length (main_code s1), case main_code s1 of Join t # _ \<Rightarrow> length (remaining s1 t)
            | Await t # _ \<Rightarrow> length (remaining s1 t) | _ \<Rightarrow> 0),
         (length (main_code s), case main_code s of Join t # _ \<Rightarrow> length (remaining s t)
            | Await t # _ \<Rightarrow> length (remaining s t) | _ \<Rightarrow> 0)) \<in> less_than <*lex*> less_than"
    proof (cases "\<exists>t. (i = Join t \<or> i = Await t) \<and> remaining s t \<noteq> []")
      case True
      then obtain t l ls where t: "i = Join t \<or> i = Await t" "remaining s t = l # ls"
        by (auto simp: neq_Nil_conv)
      then have "t \<in> set (begun s)"
        using p Cons by (auto simp: proper_def)
      then show ?thesis
        using t Cons by (intro exI conjI process_step.intros(2)) (auto simp: line_step_def)
    next
      case False
      have "\<exists>s1. main_step s = Some s1 \<and> main_code s1 = is"
        using False p Cons by (cases i) (auto simp: main_step_def proper_def)
      then show ?thesis
        using Cons by (auto intro: process_step.intros)
    qed
    then obtain s1 where s1: "process_step s s1"
      "((length (main_code s1), case main_code s1 of Join t # _ \<Rightarrow> length (remaining s1 t)
            | Await t # _ \<Rightarrow> length (remaining s1 t) | _ \<Rightarrow> 0),
         (length (main_code s), case main_code s of Join t # _ \<Rightarrow> length (remaining s t)
            | Await t # _ \<Rightarrow> length (remaining s t) | _ \<Rightarrow> 0)) \<in> less_than <*lex*> less_than"
      by blast
    then have "process_runs (process_start prog) s1"
      using "1.prems" by simp
    then show ?thesis
      using "1.hyps" [OF s1(2)] s1(1) by (meson converse_rtranclp_into_rtranclp)
  qed
qed

end

section \<open>The programs\<close>

definition hello_lines :: "string list" where
  "hello_lines = [''Hello from thread !'']"

definition task_lines_of :: "nat \<Rightarrow> string list" where
  "task_lines_of n = [''Thread '' @ dec n @ '' is started'', ''Thread '' @ dec n @ '' is completed'']"

text \<open>\<^verbatim>\<open>main.cpp\<close>; thread 0 is \<^verbatim>\<open>hello\<close>, thread \<open>i + 1\<close> the task with number \<open>i\<close>.\<close>

definition main_program :: "nat \<Rightarrow> main_instr list" where
  "main_program num_of_threads =
     [Spawn 0 hello_lines, Join 0]
     @ map (\<lambda>i. Spawn (Suc i) (task_lines_of i)) [0..<num_of_threads]
     @ map (\<lambda>i. Join (Suc i)) [0..<num_of_threads]
     @ [Say ''All threads finished!'']"

text \<open>\<^verbatim>\<open>join_detach.cpp\<close>.\<close>

definition run_lines :: "nat \<Rightarrow> string list" where
  "run_lines n = replicate n ''CppNuts''"

definition detach_program :: "main_instr list" where
  "detach_program = [Spawn 0 (run_lines 10), Say ''main()'', Detach 0, Say ''main() after'']"

text \<open>
  \<^verbatim>\<open>future_and_promise.cpp\<close> and \<^verbatim>\<open>async_cpp.cpp\<close>: the sum is what \<^verbatim>\<open>findOdd\<close> leaves in the
  promise; \<open>ids\<close> are the printed numbers of the threads. The future of \<^verbatim>\<open>std::async\<close> waits
  for its thread when it is destroyed at the end of \<^verbatim>\<open>main\<close>.
\<close>

definition future_program :: "int \<Rightarrow> main_instr list" where
  "future_program OddSum =
     [Say ''Thread created!'', Spawn 0 [], Say ''Waiting for Result!!'', Await 0,
      Say (''OddSum : '' @ decimal OddSum), Say ''Completed!!'', Join 0]"

definition async_program :: "(nat option \<Rightarrow> string) \<Rightarrow> int \<Rightarrow> main_instr list" where
  "async_program ids OddSum =
     [Say (''ThreadID : '' @ ids None), Say ''Thread created if policy is std::launch::async!!'',
      Spawn 0 [''ThreadID of findOdd : '' @ ids (Some 0)], Say ''Waiting for Result!'', Await 0,
      Say (''OddSum : '' @ decimal OddSum), Say ''Completed!'', Join 0]"

lemma forked_spawns:
  "\<forall>i < n. Suc (k + i) \<notin> B \<Longrightarrow> forked (B \<union> Suc ` {k..<k + n}) (J \<union> Suc ` {k..<k + n}) rest \<Longrightarrow>
    forked B J (map (\<lambda>i. Spawn (Suc i) (f i)) [k..<k + n] @ rest)"
proof (induction n arbitrary: k B J)
  case (Suc n)
  have e: "[k..<k + Suc n] = k # [Suc k..<Suc k + n]"
    by (simp add: upt_conv_Cons del: upt_Suc)
  have "Suc ` {k..<k + Suc n} = insert (Suc k) (Suc ` {Suc k..<Suc k + n})"
    by auto
  then have "forked (insert (Suc k) B \<union> Suc ` {Suc k..<Suc k + n}) (insert (Suc k) J \<union> Suc ` {Suc k..<Suc k + n}) rest"
    using Suc.prems(2) by simp
  moreover have "\<forall>i < n. Suc (Suc k + i) \<notin> insert (Suc k) B" "Suc k \<notin> B"
    using Suc.prems(1) by (auto dest: spec [of _ "Suc _"] spec [of _ 0])
  ultimately show ?case
    unfolding e using Suc.IH [of "Suc k" "insert (Suc k) B" "insert (Suc k) J"] by simp
qed simp

lemma forked_joins:
  "J = Suc ` {k..<k + n} \<Longrightarrow> forked B {} rest \<Longrightarrow> forked B J (map (\<lambda>i. Join (Suc i)) [k..<k + n] @ rest)"
proof (induction n arbitrary: k J)
  case (Suc n)
  have e: "[k..<k + Suc n] = k # [Suc k..<Suc k + n]"
    by (simp add: upt_conv_Cons del: upt_Suc)
  have "J - {Suc k} = Suc ` {Suc k..<Suc k + n}" "Suc k \<in> J"
    using Suc.prems(1) by auto
  then show ?case
    unfolding e using Suc.IH [of "J - {Suc k}" "Suc k"] Suc.prems(2) by simp
qed simp

lemma forked_main_program: "forked {} {} (main_program n)"
proof -
  have "forked {0} {} (map (\<lambda>i. Spawn (Suc i) (task_lines_of i)) [0..<0 + n]
      @ map (\<lambda>i. Join (Suc i)) [0..<0 + n] @ [Say l])" for l
    by (intro forked_spawns forked_joins) simp_all
  then show ?thesis by (simp add: main_program_def)
qed

interpretation tasks: fork_join "main_program n" for n
  by unfold_locales (rule forked_main_program)

interpretation detached: fork_join detach_program
  by unfold_locales (simp add: detach_program_def)

interpretation future: fork_join "future_program v" for v
  by unfold_locales (simp add: future_program_def)

interpretation async: fork_join "async_program ids v" for ids v
  by unfold_locales (simp add: async_program_def)

lemma thread_lines_append:
  "(\<And>ls. Spawn t ls \<notin> set xs) \<Longrightarrow> thread_lines (xs @ ys) t = thread_lines ys t"
  by (induction xs) (auto split: main_instr.splits)

lemma thread_lines_spawns:
  "i < n \<Longrightarrow> thread_lines (map (\<lambda>i. Spawn (Suc i) (f i)) [k..<k + n] @ rest) (Suc (k + i)) = f (k + i)"
proof (induction n arbitrary: k i)
  case (Suc n)
  have e: "[k..<k + Suc n] = k # [Suc k..<Suc k + n]"
    by (simp add: upt_conv_Cons del: upt_Suc)
  show ?case
  proof (cases i)
    case (Suc j)
    then show ?thesis
      unfolding e using Suc.IH [of j "Suc k"] Suc.prems by simp
  qed (unfold e, simp)
qed simp

lemma main_program_lines:
  shows "thread_lines (main_program n) 0 = hello_lines"
    and "i < n \<Longrightarrow> thread_lines (main_program n) (Suc i) = task_lines_of i"
    and "i < n \<Longrightarrow> Join (Suc i) \<in> set (main_program n)" and "Join 0 \<in> set (main_program n)"
proof -
  show "thread_lines (main_program n) 0 = hello_lines"
    by (simp add: main_program_def)
  show "thread_lines (main_program n) (Suc i) = task_lines_of i" if "i < n"
    using thread_lines_spawns [of i n task_lines_of 0, OF that, simplified]
    unfolding main_program_def append_Cons append_Nil thread_lines.simps by simp
qed (simp_all add: main_program_def)

lemma main_program_last: "\<exists>is. main_program n = is @ [Say ''All threads finished!'']"
  unfolding main_program_def
  by (rule exI [of _ "[Spawn 0 hello_lines, Join 0] @ map (\<lambda>i. Spawn (Suc i) (task_lines_of i)) [0..<n]
      @ map (\<lambda>i. Join (Suc i)) [0..<n]"]) (simp only: append_assoc)

text \<open>
  Joining. Every run of \<^verbatim>\<open>main.cpp\<close>, for any number of tasks, can be completed; when it is
  complete, every task has printed both its lines, in order, and the last line printed is
  that of \<^verbatim>\<open>main\<close>.
\<close>

lemma joined_tasks_print_all:
  assumes "process_runs (process_start (main_program n)) s"
  shows "(\<exists>s'. process_runs s s' \<and> main_code s' = []) \<and>
    (main_code s = [] \<longrightarrow>
       shown_by (Some 0) s = hello_lines \<and>
       (\<forall>i < n. shown_by (Some (Suc i)) s = task_lines_of i) \<and>
       (\<exists>xs. shown s = xs @ [(None, ''All threads finished!'')]))"
proof (intro conjI impI allI)
  show "\<exists>s'. process_runs s s' \<and> main_code s' = []"
    using tasks.can_finish [OF assms] .
  assume e: "main_code s = []"
  show "shown_by (Some 0) s = hello_lines"
    using tasks.finished_lines(2) [OF assms e main_program_lines(4)] by (simp add: main_program_lines)
  show "shown_by (Some (Suc i)) s = task_lines_of i" if "i < n" for i
    using tasks.finished_lines(2) [OF assms e main_program_lines(3) [OF that]] that
    by (simp add: main_program_lines)
  show "\<exists>xs. shown s = xs @ [(None, ''All threads finished!'')]"
    using main_program_last tasks.last_line [OF assms _ e] by blast
qed

lemma joined_tasks_print_all_witness:
  "\<exists>s'. process_runs (process_start (main_program 200)) s' \<and> main_code s' = []"
  using joined_tasks_print_all [of 200 "process_start (main_program 200)"] by blast

lemma prefix_of_replicate: "xs @ ys = replicate n x \<Longrightarrow> \<exists>k \<le> n. xs = replicate k x"
proof (intro exI conjI)
  assume e: "xs @ ys = replicate n x"
  show "length xs \<le> n"
    using arg_cong [OF e, of length] by simp
  then show "xs = replicate (length xs) x"
    using arg_cong [OF e, of "take (length xs)"] by simp
qed

lemma shown_by_main:
  assumes "\<And>t. shown_by (Some t) s = []"
  shows "shown s = map (\<lambda>l. (None, l)) (shown_by None s)"
proof -
  have "fst x = None" if "x \<in> set (shown s)" for x
    using that assms by (cases "fst x") (auto simp: shown_by_def filter_empty_conv)
  then show ?thesis
    unfolding shown_by_def by (simp add: map_idI prod_eq_iff comp_def)
qed

text \<open>
  Detaching: when \<^verbatim>\<open>main\<close> of \<^verbatim>\<open>join_detach.cpp\<close> has returned it has printed its two lines, and
  the detached thread some of its ten lines, perhaps none.
\<close>

lemma detached_thread_may_be_cut:
  assumes "process_runs (process_start detach_program) s" and "main_code s = []"
  shows "shown_by None s = [''main()'', ''main() after'']"
    and "\<exists>k \<le> 10. shown_by (Some 0) s = replicate k ''CppNuts''"
proof -
  show "shown_by None s = [''main()'', ''main() after'']"
    using detached.finished_lines(1) [OF assms] by (simp add: detach_program_def)
  obtain ls where "shown_by (Some 0) s @ ls = replicate 10 ''CppNuts''"
    using detached.finished_lines(3) [OF assms, of 0] by (auto simp: detach_program_def run_lines_def)
  then show "\<exists>k \<le> 10. shown_by (Some 0) s = replicate k ''CppNuts''"
    by (rule prefix_of_replicate)
qed

text \<open>The sum is printed after the thread has left it, and before the last line.\<close>

lemma future_prints_sum:
  assumes "process_runs (process_start (future_program v)) s" and "main_code s = []"
  shows "shown s = map (\<lambda>l. (None, l))
    [''Thread created!'', ''Waiting for Result!!'', ''OddSum : '' @ decimal v, ''Completed!!'']"
proof -
  have "shown_by (Some t) s = []" for t
    using future.finished_lines(3) [OF assms, of t] by (cases "t = 0") (auto simp: future_program_def)
  then show ?thesis
    using shown_by_main future.finished_lines(1) [OF assms] by (simp add: future_program_def)
qed

text \<open>The program, with the sum that its task computes.\<close>

definition future_main :: "main_instr list option" where
  "future_main = map_option future_program (findOdd 0 1900000000)"

lemma future_main_lines:
  assumes "future_main = Some prog" and "process_runs (process_start prog) s" and "main_code s = []"
  shows "map snd (shown s) =
    [''Thread created!'', ''Waiting for Result!!'', ''OddSum : '' @ decimal 902500000000000000, ''Completed!!'']"
  using assms future_prints_sum by (auto simp: future_main_def findOdd_main)

end
