(* ===== verification/Sql_Scanner.thy ===== *)
theory Sql_Scanner
  imports Cxx_Strings
begin

text \<open>
  The scanner of \<^verbatim>\<open>simple-parsing/lexer.l\<close> and the token kinds of \<^verbatim>\<open>parser.tab.h\<close>. The
  automaton that Flex builds is not in the repository; the scanner is the rule list of
  \<^verbatim>\<open>lexer.l\<close> under the documented choice of Flex: the longest match, and among equally
  long ones the rule that comes first. The lemmas give the scanner one equation per kind of
  first character and describe \<^verbatim>\<open>yylex\<close> on the list of lexemes of the input.
\<close>

section \<open>Token kinds\<close>

datatype yytokentype =
  YYEMPTY | YYEOF | YYerror | YYUNDEF | SELECT | FROM | SEMICOLON | IDENTIFIER

primrec token_code :: "yytokentype \<Rightarrow> int" where
  "token_code YYEMPTY = - 2"
| "token_code YYEOF = 0"
| "token_code YYerror = 256"
| "token_code YYUNDEF = 257"
| "token_code SELECT = 258"
| "token_code FROM = 259"
| "token_code SEMICOLON = 260"
| "token_code IDENTIFIER = 261"

text \<open>
  \<^verbatim>\<open>union YYSTYPE\<close> has one member, the pointer \<^verbatim>\<open>str\<close>: \<open>Some s\<close> is a pointer to the
  characters \<open>s\<close>, \<open>None\<close> one that was never set.
\<close>

type_synonym yystype = "string option"

section \<open>The rules\<close>

datatype lex_rule = R_select | R_from | R_semicolon | R_identifier | R_blank | R_any

definition in_range :: "char \<Rightarrow> char \<Rightarrow> char \<Rightarrow> bool" where
  "in_range lo hi c \<longleftrightarrow> (of_char lo :: nat) \<le> of_char c \<and> (of_char c :: nat) \<le> of_char hi"

definition ident_start :: "char \<Rightarrow> bool" where
  "ident_start c \<longleftrightarrow>
     in_range CHR ''a'' CHR ''z'' c \<or> in_range CHR ''A'' CHR ''Z'' c \<or> c = CHR ''_''"

definition ident_char :: "char \<Rightarrow> bool" where
  "ident_char c \<longleftrightarrow> ident_start c \<or> in_range CHR ''0'' CHR ''9'' c"

definition blank :: "char \<Rightarrow> bool" where
  "blank c \<longleftrightarrow> c = SPC \<or> c = CHR 0x09 \<or> c = CR \<or> c = NL"

primrec rule_matches :: "lex_rule \<Rightarrow> string \<Rightarrow> bool" where
  "rule_matches R_select s \<longleftrightarrow> s = ''SELECT''"
| "rule_matches R_from s \<longleftrightarrow> s = ''FROM''"
| "rule_matches R_semicolon s \<longleftrightarrow> s = '';''"
| "rule_matches R_identifier s \<longleftrightarrow> s \<noteq> [] \<and> ident_start (hd s) \<and> list_all ident_char (tl s)"
| "rule_matches R_blank s \<longleftrightarrow> s \<noteq> [] \<and> list_all blank s"
| "rule_matches R_any s \<longleftrightarrow> length s = 1 \<and> hd s \<noteq> NL"

definition lex_rules :: "lex_rule list" where
  "lex_rules = [R_select, R_from, R_semicolon, R_identifier, R_blank, R_any]"

text \<open>Every prefix that some rule matches, the longest first and then by the order of the rules.\<close>

definition flex_matches :: "string \<Rightarrow> (lex_rule \<times> nat) list" where
  "flex_matches s =
     concat (map (\<lambda>n. map (\<lambda>r. (r, n)) (filter (\<lambda>r. rule_matches r (take n s)) lex_rules))
               (rev [1..<Suc (length s)]))"

definition flex_match :: "string \<Rightarrow> (lex_rule \<times> nat) option" where
  "flex_match s = (case flex_matches s of [] \<Rightarrow> None | m # _ \<Rightarrow> Some m)"

lemma flex_matches_set:
  "(r, n) \<in> set (flex_matches s) \<longleftrightarrow> 0 < n \<and> n \<le> length s \<and> r \<in> set lex_rules \<and> rule_matches r (take n s)"
  unfolding flex_matches_def by (auto simp del: upt_Suc)

lemma flex_match_bounds:
  "flex_match s = Some (r, n) \<Longrightarrow> 0 < n \<and> n \<le> length s \<and> rule_matches r (take n s)"
  using flex_matches_set [of r n s]
  unfolding flex_match_def by (cases "flex_matches s") auto

lemma drop_matched_shorter: "flex_match s = Some (r, n) \<Longrightarrow> length (drop n s) < length s"
  using flex_match_bounds [of s r n] by auto

section \<open>The scanner\<close>

definition unknown_message :: "string \<Rightarrow> string" where
  "unknown_message yytext = ''Unknown character: '' @ c_string yytext @ [NL]"

text \<open>
  \<open>yylex s v\<close>: the token kind, \<^verbatim>\<open>yylval\<close>, the input left, and what was printed; \<open>v\<close> is
  \<^verbatim>\<open>yylval\<close> before the call, which only an identifier sets (to the copy of the lexeme that
  \<^verbatim>\<open>strdup\<close> makes).
\<close>

function yylex :: "string \<Rightarrow> yystype \<Rightarrow> int \<times> yystype \<times> string \<times> string list" where
  "yylex s v =
     (case flex_match s of
        None \<Rightarrow> (token_code YYEOF, v, s, [])
      | Some (r, n) \<Rightarrow>
          let yytext = take n s; rest = drop n s in
          (case r of
             R_select \<Rightarrow> (token_code SELECT, v, rest, [])
           | R_from \<Rightarrow> (token_code FROM, v, rest, [])
           | R_semicolon \<Rightarrow> (token_code SEMICOLON, v, rest, [])
           | R_identifier \<Rightarrow> (token_code IDENTIFIER, Some yytext, rest, [])
           | R_blank \<Rightarrow> yylex rest v
           | R_any \<Rightarrow>
               let (t, v', s', out) = yylex rest v in (t, v', s', unknown_message yytext # out)))"
  by pat_completeness auto
termination
  by (relation "measure (\<lambda>(s, v). length s)") (auto dest: drop_matched_shorter)

declare yylex.simps [simp del]

section \<open>The longest match\<close>

lemma flex_matchI:
  assumes "0 < n" and "n \<le> length s"
    and first: "filter (\<lambda>r. rule_matches r (take n s)) lex_rules = r # rs"
    and longest: "\<And>m r'. n < m \<Longrightarrow> m \<le> length s \<Longrightarrow> \<not> rule_matches r' (take m s)"
  shows "flex_match s = Some (r, n)"
proof -
  define g where "g = (\<lambda>n. map (\<lambda>r. (r, n)) (filter (\<lambda>r. rule_matches r (take n s)) lex_rules))"
  have "[1..<Suc (length s)] = [1..<n] @ n # [Suc n..<Suc (length s)]"
    using assms(1,2) upt_add_eq_append [of 1 n "Suc (length s) - n"] upt_conv_Cons [of n "Suc (length s)"]
    by simp
  moreover have "g m = []" if "m \<in> set [Suc n..<Suc (length s)]" for m
    using longest [of m] that by (auto simp: g_def filter_empty_conv simp del: upt_Suc take_all)
  then have "concat (map g (rev [Suc n..<Suc (length s)])) = []"
    by (simp del: upt_Suc)
  ultimately have "flex_matches s = g n @ concat (map g (rev [1..<n]))"
    unfolding flex_matches_def g_def [symmetric] by simp
  then show ?thesis
    using first by (simp add: flex_match_def g_def)
qed

lemma flex_match_maximal:
  assumes "flex_match s = Some (r, n)" and "n < m" and "m \<le> length s"
  shows "\<not> rule_matches r' (take m s)"
proof
  assume m: "rule_matches r' (take m s)"
  obtain rs where f: "flex_matches s = (r, n) # rs"
    using assms(1) by (auto simp: flex_match_def split: list.splits)
  have "sorted_wrt (\<lambda>x y. snd y \<le> snd x) (flex_matches s)"
  proof -
    have "sorted_wrt (\<lambda>x y. snd y \<le> snd x) (concat (map (\<lambda>n. map (\<lambda>r. (r, n)) (h n)) ns))"
      if "sorted_wrt (\<lambda>x y. y \<le> x) ns" for h :: "nat \<Rightarrow> lex_rule list" and ns :: "nat list"
      using that by (induction ns) (auto simp: sorted_wrt_append sorted_wrt_map)
    moreover have "sorted_wrt (\<lambda>x y. y \<le> x) (rev [1..<Suc (length s)])"
      by (simp add: sorted_wrt_rev del: upt_Suc)
    ultimately show ?thesis
      unfolding flex_matches_def .
  qed
  moreover have "(r', m) \<in> set (flex_matches s)"
    using m assms(2,3) flex_matches_set [of r' m s] by (cases r') (auto simp: lex_rules_def)
  ultimately show False
    using assms(2) f by auto
qed

lemma ident_not_blank: "ident_char c \<Longrightarrow> \<not> blank c"
  by (auto simp: ident_char_def ident_start_def in_range_def blank_def)

lemma ident_start_char: "ident_start c \<Longrightarrow> ident_char c"
  by (simp add: ident_char_def)

lemma semicolon_other [simp]: "\<not> ident_char CHR '';''" "\<not> ident_start CHR '';''" "\<not> blank CHR '';''"
  by (simp_all add: ident_char_def ident_start_def in_range_def blank_def)

lemma list_all_take_takeWhile:
  "m \<le> length xs \<Longrightarrow> list_all P (take m xs) \<longleftrightarrow> m \<le> length (takeWhile P xs)"
proof (induction xs arbitrary: m)
  case (Cons x xs)
  then show ?case by (cases m) auto
qed simp

text \<open>
  A prefix of length above one is matched by the rule for white space, the identifier rule
  or a keyword, and keywords are identifiers.
\<close>

lemma keywords_are_identifiers:
  "rule_matches R_select s \<Longrightarrow> rule_matches R_identifier s"
  "rule_matches R_from s \<Longrightarrow> rule_matches R_identifier s"
  by (auto simp: ident_start_def ident_char_def in_range_def)

definition word_rule :: "string \<Rightarrow> lex_rule" where
  "word_rule w =
     (if w = ''SELECT'' then R_select else if w = ''FROM'' then R_from else R_identifier)"

lemma flex_match_blank:
  assumes "blank c"
  shows "flex_match (c # s) = Some (R_blank, Suc (length (takeWhile blank s)))"
proof -
  let ?n = "length (takeWhile blank s)"
  have c: "\<not> ident_start c" "c \<noteq> CHR '';''" "c \<noteq> CHR ''S''" "c \<noteq> CHR ''F''"
    using assms by (auto simp: blank_def ident_start_def in_range_def)
  show ?thesis
  proof (rule flex_matchI)
    show "Suc ?n \<le> length (c # s)" by (simp add: length_takeWhile_le)
    have b: "list_all blank (take ?n s)"
      using list_all_take_takeWhile [of ?n s blank] by (simp add: length_takeWhile_le)
    show "filter (\<lambda>r. rule_matches r (take (Suc ?n) (c # s))) lex_rules =
        R_blank # (if ?n = 0 \<and> c \<noteq> NL then [R_any] else [])"
      using c assms b by (cases "?n = 0") (auto simp: lex_rules_def take_eq_Nil2)
    show "\<not> rule_matches r (take m (c # s))" if "Suc ?n < m" "m \<le> length (c # s)" for m r
      using that c list_all_take_takeWhile [of "m - 1" s blank] by (cases r; cases m) auto
  qed simp
qed

lemma flex_match_word:
  assumes "ident_start c"
  shows "flex_match (c # s) =
    Some (word_rule (c # takeWhile ident_char s), Suc (length (takeWhile ident_char s)))"
proof -
  let ?n = "length (takeWhile ident_char s)"
  have c: "\<not> blank c" "c \<noteq> CHR '';''" "c \<noteq> NL"
    using assms ident_not_blank ident_start_char by (auto simp: blank_def)
  have t: "take ?n s = takeWhile ident_char s"
    by (metis takeWhile_eq_take)
  show ?thesis
  proof (rule flex_matchI)
    show "Suc ?n \<le> length (c # s)" by (simp add: length_takeWhile_le)
    define u where "u = c # takeWhile ident_char s"
    have "list_all ident_char (takeWhile ident_char s)"
      by (simp add: list_all_iff set_takeWhileD [THEN conjunct2])
    then have "rule_matches R_identifier u" "\<not> rule_matches R_blank u" "\<not> rule_matches R_semicolon u"
      and any: "rule_matches R_any u \<longleftrightarrow> length u = 1"
      using c assms by (auto simp: u_def)
    then have "filter (\<lambda>r. rule_matches r u) lex_rules =
        word_rule u # (if word_rule u = R_identifier then [] else [R_identifier]) @
        (if length u = 1 then [R_any] else [])"
      by (cases "u = ''SELECT''"; cases "u = ''FROM''")
        (simp_all add: lex_rules_def word_rule_def any del: rule_matches.simps(3-6))
    then show "filter (\<lambda>r. rule_matches r (take (Suc ?n) (c # s))) lex_rules =
        word_rule (c # takeWhile ident_char s) #
        (if word_rule (c # takeWhile ident_char s) = R_identifier then [] else [R_identifier]) @
        (if length (c # takeWhile ident_char s) = 1 then [R_any] else [])"
      unfolding u_def take_Suc_Cons t .
    show "\<not> rule_matches r (take m (c # s))" if "Suc ?n < m" "m \<le> length (c # s)" for m r
    proof -
      have "\<not> rule_matches R_identifier (take m (c # s))"
        using that list_all_take_takeWhile [of "m - 1" s ident_char] by (cases m) auto
      moreover have "\<not> rule_matches R_semicolon (take m (c # s))" "\<not> rule_matches R_blank (take m (c # s))"
        "\<not> rule_matches R_any (take m (c # s))"
        using that c by (cases m; auto)+
      ultimately show ?thesis
        using keywords_are_identifiers by (cases r) blast+
    qed
  qed simp
qed

lemma flex_match_single:
  assumes "\<not> blank c" and "\<not> ident_start c"
  shows "flex_match (c # s) = Some (if c = CHR '';'' then R_semicolon else R_any, 1)"
proof (rule flex_matchI)
  have c: "c \<noteq> NL"
    using assms by (simp add: blank_def)
  have ident_SF: "ident_start CHR ''S''" "ident_start CHR ''F''"
    by (simp_all add: ident_start_def in_range_def)
  then have sf: "c \<noteq> CHR ''S''" "c \<noteq> CHR ''F''"
    using assms by blast+
  with c have m: "\<not> rule_matches R_select [c]" "\<not> rule_matches R_from [c]"
    "\<not> rule_matches R_identifier [c]" "\<not> rule_matches R_blank [c]" "rule_matches R_any [c]"
    "rule_matches R_semicolon [c] \<longleftrightarrow> c = CHR '';''"
    using assms by simp_all
  show "filter (\<lambda>r. rule_matches r (take 1 (c # s))) lex_rules =
      (if c = CHR '';'' then R_semicolon else R_any) # (if c = CHR '';'' then [R_any] else [])"
    using m by (cases "c = CHR '';''") (simp_all add: lex_rules_def del: rule_matches.simps)
  show "\<not> rule_matches r (take m (c # s))" if lt: "1 < m" and le: "m \<le> length (c # s)" for m r
  proof -
    obtain k where k: "m = Suc k"
      using lt by (cases m) auto
    have "0 < k" "k \<le> length s"
      using lt le k by auto
    then show ?thesis
      unfolding k take_Suc_Cons using assms sf by (cases r) auto
  qed
qed simp_all

lemma flex_match_Nil [simp]: "flex_match [] = None"
  by (simp add: flex_match_def flex_matches_def)

section \<open>The lexemes of an input\<close>

text \<open>
  What the rules make of a lexeme: white space is dropped, an unknown character is reported,
  the others are tokens with their kind.
\<close>

datatype lexeme = Token yytokentype string | Unknown char

primrec rule_lexeme :: "lex_rule \<Rightarrow> string \<Rightarrow> lexeme option" where
  "rule_lexeme R_select w = Some (Token SELECT w)"
| "rule_lexeme R_from w = Some (Token FROM w)"
| "rule_lexeme R_semicolon w = Some (Token SEMICOLON w)"
| "rule_lexeme R_identifier w = Some (Token IDENTIFIER w)"
| "rule_lexeme R_blank w = None"
| "rule_lexeme R_any w = Some (Unknown (hd w))"

function lexemes :: "string \<Rightarrow> lexeme list" where
  "lexemes s =
     (case flex_match s of
        None \<Rightarrow> []
      | Some (r, n) \<Rightarrow>
          (case rule_lexeme r (take n s) of None \<Rightarrow> [] | Some x \<Rightarrow> [x]) @ lexemes (drop n s))"
  by pat_completeness auto
termination
  by (relation "measure length") (auto dest: drop_matched_shorter)

declare lexemes.simps [simp del]

lemma lexemes_Nil [simp]: "lexemes [] = []"
  by (simp add: lexemes.simps)

lemma lexemes_blank:
  "blank c \<Longrightarrow> lexemes (c # s) = lexemes (dropWhile blank s)"
  by (subst lexemes.simps) (simp add: flex_match_blank dropWhile_eq_drop)

lemma lexemes_word:
  "ident_start c \<Longrightarrow> lexemes (c # s) =
     Token (if c # takeWhile ident_char s = ''SELECT'' then SELECT
            else if c # takeWhile ident_char s = ''FROM'' then FROM else IDENTIFIER)
       (c # takeWhile ident_char s) # lexemes (dropWhile ident_char s)"
  by (subst lexemes.simps)
    (simp add: flex_match_word word_rule_def dropWhile_eq_drop takeWhile_eq_take [symmetric])

lemma lexemes_single:
  "\<not> blank c \<Longrightarrow> \<not> ident_start c \<Longrightarrow>
    lexemes (c # s) = (if c = CHR '';'' then Token SEMICOLON [c] else Unknown c) # lexemes s"
  by (subst lexemes.simps) (simp add: flex_match_single)

lemmas lexemes_Cons = lexemes_blank lexemes_word lexemes_single

text \<open>White space between lexemes can be dropped before scanning goes on.\<close>

lemma lexemes_dropWhile_blank [simp]: "lexemes (dropWhile blank s) = lexemes s"
  by (cases s) (auto simp: lexemes_blank)

lemma lexemes_blanks [simp]: "list_all blank w \<Longrightarrow> lexemes (w @ s) = lexemes s"
  by (metis dropWhile_append2 lexemes_dropWhile_blank list_all_iff)

text \<open>The kinds that the rules return.\<close>

definition scanned_kinds :: "yytokentype set" where
  "scanned_kinds = {SELECT, FROM, SEMICOLON, IDENTIFIER}"

lemma lexemes_kinds: "Token k w \<in> set (lexemes s) \<Longrightarrow> k \<in> scanned_kinds"
proof (induction s rule: lexemes.induct)
  case (1 s)
  show ?case
  proof (cases "flex_match s")
    case (Some m)
    obtain r n where m: "m = (r, n)" by (cases m)
    have "lexemes s = (case rule_lexeme r (take n s) of None \<Rightarrow> [] | Some x \<Rightarrow> [x]) @ lexemes (drop n s)"
      using Some m by (subst lexemes.simps) simp
    then show ?thesis
      using "1.IH" [OF Some m [symmetric]] "1.prems"
      by (cases r) (auto simp: scanned_kinds_def split: option.splits)
  next
    case None
    then have "lexemes s = []" by (subst lexemes.simps) simp
    then show ?thesis using "1.prems" by simp
  qed
qed

section \<open>What a call returns\<close>

definition unknown_messages :: "char list \<Rightarrow> string list" where
  "unknown_messages us = map (\<lambda>c. unknown_message [c]) us"

lemma yylex_eq:
  assumes "flex_match s = Some (r, n)"
  shows "yylex s v =
    (case rule_lexeme r (take n s) of
       None \<Rightarrow> yylex (drop n s) v
     | Some (Token k w) \<Rightarrow> (token_code k, if k = IDENTIFIER then Some w else v, drop n s, [])
     | Some (Unknown c) \<Rightarrow>
         (case yylex (drop n s) v of
            (t, v', s', out) \<Rightarrow> (t, v', s', unknown_message (take n s) # out)))"
  by (subst yylex.simps) (cases r; simp add: assms Let_def)

text \<open>
  A call of \<^verbatim>\<open>yylex\<close> reports the unknown characters before the next token and returns that
  token, or zero when none is left.
\<close>

lemma yylex_lexemes:
  "(\<exists>us. lexemes s = map Unknown us \<and> yylex s v = (token_code YYEOF, v, [], unknown_messages us)) \<or>
   (\<exists>us k w rest. lexemes s = map Unknown us @ Token k w # lexemes rest \<and>
      yylex s v = (token_code k, if k = IDENTIFIER then Some w else v, rest, unknown_messages us))"
proof (induction s rule: lexemes.induct)
  case (1 s)
  show ?case
  proof (cases "flex_match s")
    case None
    then have "s = []"
      using flex_match_blank flex_match_word flex_match_single by (cases s) (metis option.distinct(1))+
    then show ?thesis
      by (intro disjI1 exI [of _ "[]"]) (simp add: yylex.simps unknown_messages_def)
  next
    case (Some m)
    obtain r n where m: "m = (r, n)" by (cases m)
    note eq = yylex_eq [OF Some [unfolded m], of v]
    have lx: "lexemes s = (case rule_lexeme r (take n s) of None \<Rightarrow> [] | Some x \<Rightarrow> [x]) @ lexemes (drop n s)"
      using Some m by (subst lexemes.simps) simp
    note IH = "1.IH" [OF Some m [symmetric]]
    show ?thesis
    proof (cases "rule_lexeme r (take n s)")
      case None
      then show ?thesis using IH eq lx by simp
    next
      case l: (Some x)
      show ?thesis
      proof (cases x)
        case (Token k w)
        then show ?thesis
          using eq lx l by (intro disjI2 exI [of _ "[]"] exI [of _ k] exI [of _ w] exI [of _ "drop n s"])
            (auto simp: unknown_messages_def)
      next
        case (Unknown c)
        have t: "take n s = [c]"
          using l Unknown flex_match_bounds [OF Some [unfolded m]]
          by (cases r; cases "take n s") auto
        from IH show ?thesis
        proof
          assume "\<exists>us. lexemes (drop n s) = map Unknown us \<and>
            yylex (drop n s) v = (token_code YYEOF, v, [], unknown_messages us)"
          then obtain us where "lexemes (drop n s) = map Unknown us"
            "yylex (drop n s) v = (token_code YYEOF, v, [], unknown_messages us)" by blast
          then show ?thesis
            using eq lx l Unknown t
            by (intro disjI1 exI [of _ "c # us"]) (simp add: unknown_messages_def)
        next
          assume "\<exists>us k w rest. lexemes (drop n s) = map Unknown us @ Token k w # lexemes rest \<and>
            yylex (drop n s) v = (token_code k, if k = IDENTIFIER then Some w else v, rest, unknown_messages us)"
          then obtain us k w rest where
            "lexemes (drop n s) = map Unknown us @ Token k w # lexemes rest"
            "yylex (drop n s) v = (token_code k, if k = IDENTIFIER then Some w else v, rest, unknown_messages us)"
            by blast
          then show ?thesis
            using eq lx l Unknown t
            by (intro disjI2 exI [of _ "c # us"] exI [of _ k] exI [of _ w] exI [of _ rest])
              (simp add: unknown_messages_def)
        qed
      qed
    qed
  qed
qed

end
