(* ===== verification/Sql_Parser.thy ===== *)
theory Sql_Parser
  imports Sql_Tables "HOL-Library.Monad_Syntax" "HOL-Library.While_Combinator"
begin

text \<open>
  The parser \<^verbatim>\<open>yyparse\<close> of \<^verbatim>\<open>simple-parsing/parser.tab.c\<close> as a machine with one function per
  label of the C code; a \<^verbatim>\<open>goto\<close> is the label that the function returns. \<open>None\<close> is
  undefined behaviour: a read outside a table, a stack access outside the stack, a string
  printed through a pointer that was never set. The run iterates the labels; it may diverge.
  The debug output, compiled in when \<^verbatim>\<open>YYDEBUG\<close> is set and switched on by \<^verbatim>\<open>yydebug\<close>, is part
  of the state.
\<close>

section \<open>The state\<close>

text \<open>
  The stacks grow at the head: the head is the cell that \<^verbatim>\<open>yyssp\<close> and \<^verbatim>\<open>yyvsp\<close> point to, the
  last element the bottom cell. \<open>yyheap\<close> says that the stacks were moved to the heap,
  \<open>yyin\<close> is the input of the scanner, \<open>yyout\<close> and \<open>yytrace\<close> are standard output and error.
\<close>

record yyparser =
  yychar :: int
  yylval :: yystype
  yynerrs :: int
  yystate :: int
  yyerrstatus :: int
  yystacksize :: nat
  yyss :: "int list"
  yyvs :: "yystype list"
  yyheap :: bool
  yyn :: int
  yyresult :: int
  yytoken :: int
  yyval :: yystype
  yylen :: nat
  yyin :: string
  yyout :: "string list"
  yydebug :: bool
  yytrace :: "string list"

datatype yylabel =
  L_newstate | L_setstate | L_backup | L_default | L_reduce | L_errlab | L_errorlab
  | L_errlab1 | L_errpop | L_accept | L_abort | L_exhausted | L_return | L_cleanup | L_done

text \<open>The element \<open>i\<close> cells from the top of a stack; \<open>i\<close> is negative below the top.\<close>

definition stack_at :: "'a list \<Rightarrow> int \<Rightarrow> 'a option" where
  "stack_at xs i = (if i \<le> 0 \<and> nat (- i) < length xs then Some (xs ! nat (- i)) else None)"

text \<open>States are stored in 8 bits.\<close>

definition yy_state_t :: "int \<Rightarrow> int" where
  "yy_state_t i = (i + 128) mod 256 - 128"

definition YYPOPSTACK :: "nat \<Rightarrow> yyparser \<Rightarrow> yyparser option" where
  "YYPOPSTACK n p =
     (if n < length (yyss p) \<and> n < length (yyvs p)
      then Some (p\<lparr>yyss := drop n (yyss p), yyvs := drop n (yyvs p)\<rparr>) else None)"

definition push_value :: "yystype \<Rightarrow> yyparser \<Rightarrow> yyparser option" where
  "push_value v p =
     (if length (yyvs p) < yystacksize p then Some (p\<lparr>yyvs := v # yyvs p\<rparr>) else None)"

section \<open>Debug output\<close>

definition YYFPRINTF :: "string list \<Rightarrow> yyparser \<Rightarrow> yyparser" where
  "YYFPRINTF ss p = p\<lparr>yytrace := yytrace p @ ss\<rparr>"

definition YYDPRINTF :: "string \<Rightarrow> yyparser \<Rightarrow> yyparser" where
  "YYDPRINTF s p = (if yydebug p then YYFPRINTF [s] p else p)"

definition yy_symbol_print :: "int \<Rightarrow> yyparser \<Rightarrow> yyparser option" where
  "yy_symbol_print kind p = do {
     name \<leftarrow> yysymbol_name kind;
     Some (YYFPRINTF
       [(if kind < YYNTOKENS then ''token'' else ''nterm'') @ '' '' @ name @ '' ('', '')''] p)
   }"

definition YY_SYMBOL_PRINT :: "string \<Rightarrow> int \<Rightarrow> yyparser \<Rightarrow> yyparser option" where
  "YY_SYMBOL_PRINT title kind p =
     (if yydebug p then do {
        q \<leftarrow> yy_symbol_print kind (YYFPRINTF [title @ '' ''] p);
        Some (YYFPRINTF [[NL]] q)
      } else Some p)"

definition yy_stack_print :: "yyparser \<Rightarrow> yyparser" where
  "yy_stack_print p =
     YYFPRINTF (''Stack now'' # map (\<lambda>s. '' '' @ decimal s) (rev (yyss p)) @ [[NL]]) p"

definition YY_STACK_PRINT :: "yyparser \<Rightarrow> yyparser" where
  "YY_STACK_PRINT p = (if yydebug p then yy_stack_print p else p)"

text \<open>The loop over the right-hand side: \<open>n\<close> symbols are left, \<open>i\<close> is \<^verbatim>\<open>yyi\<close>.\<close>

primrec reduce_symbols :: "nat \<Rightarrow> int \<Rightarrow> int \<Rightarrow> yyparser \<Rightarrow> yyparser option" where
  "reduce_symbols 0 nrhs i p = Some p"
| "reduce_symbols (Suc n) nrhs i p = do {
     s \<leftarrow> stack_at (yyss p) (i + 1 - nrhs);
     kind \<leftarrow> YY_ACCESSING_SYMBOL s;
     q \<leftarrow> yy_symbol_print kind (YYFPRINTF [''   $'' @ decimal (i + 1) @ '' = ''] p);
     reduce_symbols n nrhs (i + 1) (YYFPRINTF [[NL]] q)
   }"

definition yy_reduce_print :: "int \<Rightarrow> yyparser \<Rightarrow> yyparser option" where
  "yy_reduce_print rule p = do {
     yylno \<leftarrow> read_table yyrline rule;
     yynrhs \<leftarrow> read_table yyr2 rule;
     reduce_symbols (nat yynrhs) yynrhs 0
       (YYFPRINTF [''Reducing stack by rule '' @ decimal (rule - 1) @ '' (line '' @ decimal yylno
          @ ''):'' @ [NL]] p)
   }"

definition YY_REDUCE_PRINT :: "int \<Rightarrow> yyparser \<Rightarrow> yyparser option" where
  "YY_REDUCE_PRINT rule p = (if yydebug p then yy_reduce_print rule p else Some p)"

text \<open>No symbol has a destructor: only the trace is written.\<close>

definition yydestruct :: "string option \<Rightarrow> int \<Rightarrow> yyparser \<Rightarrow> yyparser option" where
  "yydestruct yymsg kind p =
     YY_SYMBOL_PRINT (case yymsg of None \<Rightarrow> ''Deleting'' | Some m \<Rightarrow> m) kind p"

definition yyerror :: "string \<Rightarrow> yyparser \<Rightarrow> yyparser" where
  "yyerror s p = p\<lparr>yyout := yyout p @ [''Syntax Error!'' @ [NL]]\<rparr>"

section \<open>The labels\<close>

definition yynewstate :: "yyparser \<Rightarrow> (yylabel \<times> yyparser) option" where
  "yynewstate p = Some (L_setstate, p\<lparr>yyss := 0 # yyss p\<rparr>)"

text \<open>
  The extension of the stacks, with the label to go to when it fails; \<open>alloc n\<close> says whether
  \<^verbatim>\<open>malloc\<close> has room for stacks of \<open>n\<close> elements.
\<close>

definition yystack_grow :: "(nat \<Rightarrow> bool) \<Rightarrow> yyparser \<Rightarrow> yylabel option \<times> yyparser" where
  "yystack_grow alloc p =
     (if YYMAXDEPTH \<le> yystacksize p then (Some L_exhausted, p)
      else
        let doubled = yystacksize p * 2;
            n = (if YYMAXDEPTH < doubled then YYMAXDEPTH else doubled);
            p1 = p\<lparr>yystacksize := n\<rparr>
        in
          if \<not> alloc n then (Some L_exhausted, p1)
          else
            let p2 = YYDPRINTF (''Stack size increased to '' @ decimal (int n) @ [NL]) (p1\<lparr>yyheap := True\<rparr>)
            in (if n \<le> length (yyss p) then Some L_abort else None, p2))"

definition yysetstate :: "(nat \<Rightarrow> bool) \<Rightarrow> yyparser \<Rightarrow> (yylabel \<times> yyparser) option" where
  "yysetstate alloc p =
     (let p1 = YYDPRINTF (''Entering state '' @ decimal (yystate p) @ [NL]) p in
      if yystacksize p < length (yyss p) then None
      else
        let p2 = YY_STACK_PRINT (p1\<lparr>yyss := yy_state_t (yystate p) # tl (yyss p)\<rparr>);
            (jump, p3) = (if yystacksize p \<le> length (yyss p2) then yystack_grow alloc p2 else (None, p2))
        in
          Some (case jump of
                  Some l \<Rightarrow> (l, p3)
                | None \<Rightarrow> (if yystate p3 = YYFINAL then L_accept else L_backup, p3)))"

text \<open>Reading the lookahead token, when there is none yet.\<close>

definition read_token :: "yyparser \<Rightarrow> yyparser" where
  "read_token p =
     (if yychar p = token_code YYEMPTY then
        let p1 = YYDPRINTF (''Reading a token'' @ [NL]) p;
            (t, v, rest, out) = yylex (yyin p1) (yylval p1)
        in p1\<lparr>yychar := t, yylval := v, yyin := rest, yyout := yyout p1 @ out\<rparr>
      else p)"

text \<open>The classification of the lookahead; the error token goes to error recovery at once.\<close>

definition classify_token :: "yyparser \<Rightarrow> (bool \<times> yyparser) option" where
  "classify_token p =
     (if yychar p \<le> token_code YYEOF then
        Some (True, YYDPRINTF (''Now at end of input.'' @ [NL])
          (p\<lparr>yychar := token_code YYEOF, yytoken := symbol_code S_YYEOF\<rparr>))
      else if yychar p = token_code YYerror then
        Some (False, p\<lparr>yychar := token_code YYUNDEF, yytoken := symbol_code S_YYerror\<rparr>)
      else do {
        k \<leftarrow> YYTRANSLATE (yychar p);
        q \<leftarrow> YY_SYMBOL_PRINT ''Next token is'' k (p\<lparr>yytoken := k\<rparr>);
        Some (True, q)
      })"

definition shift_token :: "yyparser \<Rightarrow> (yylabel \<times> yyparser) option" where
  "shift_token p = do {
     p1 \<leftarrow> YY_SYMBOL_PRINT ''Shifting'' (yytoken p)
       (if yyerrstatus p \<noteq> 0 then p\<lparr>yyerrstatus := yyerrstatus p - 1\<rparr> else p);
     p2 \<leftarrow> push_value (yylval p1) (p1\<lparr>yystate := yyn p1\<rparr>);
     Some (L_newstate, p2\<lparr>yychar := token_code YYEMPTY\<rparr>)
   }"

text \<open>The action on the lookahead \<^verbatim>\<open>yytoken\<close>; \<open>yyn\<close> is the row of the state in \<^verbatim>\<open>yytable\<close>.\<close>

definition act_on_token :: "yyparser \<Rightarrow> (yylabel \<times> yyparser) option" where
  "act_on_token p =
     (let i = yyn p + yytoken p; p1 = p\<lparr>yyn := i\<rparr> in
      if i < 0 \<or> YYLAST < i then Some (L_default, p1)
      else do {
        c \<leftarrow> read_table yycheck i;
        if c \<noteq> yytoken p then Some (L_default, p1)
        else do {
          a \<leftarrow> read_table yytable i;
          if a \<le> 0 then Some (L_reduce, p1\<lparr>yyn := - a\<rparr>)
          else shift_token (p1\<lparr>yyn := a\<rparr>)
        }
      })"

definition yybackup :: "yyparser \<Rightarrow> (yylabel \<times> yyparser) option" where
  "yybackup p = do {
     n \<leftarrow> read_table yypact (yystate p);
     if yypact_value_is_default n then Some (L_default, p\<lparr>yyn := n\<rparr>)
     else do {
       (valid, p1) \<leftarrow> classify_token (read_token (p\<lparr>yyn := n\<rparr>));
       if valid then act_on_token p1 else Some (L_errlab1, p1)
     }
   }"

definition yydefault :: "yyparser \<Rightarrow> (yylabel \<times> yyparser) option" where
  "yydefault p = do {
     n \<leftarrow> read_table yydefact (yystate p);
     Some (if n = 0 then L_errlab else L_reduce, p\<lparr>yyn := n\<rparr>)
   }"

text \<open>The semantic actions of \<^verbatim>\<open>parser.y\<close>.\<close>

definition yyaction :: "yyparser \<Rightarrow> yyparser option" where
  "yyaction p =
     (if yyn p = 2 then do {
        column \<leftarrow> stack_at (yyvs p) (- 3);
        table \<leftarrow> stack_at (yyvs p) (- 1);
        c \<leftarrow> column;
        t \<leftarrow> table;
        Some (p\<lparr>yyout := yyout p @
          [''SQL is Valid!'' @ [NL], ''Column = '' @ c @ [NL], ''Table = '' @ t @ [NL]]\<rparr>)
      } else Some p)"

definition goto_state :: "int \<Rightarrow> int \<Rightarrow> int option" where
  "goto_state yylhs ssp = do {
     g \<leftarrow> read_table yypgoto yylhs;
     d \<leftarrow> read_table yydefgoto yylhs;
     let yyi = g + ssp;
     if 0 \<le> yyi \<and> yyi \<le> YYLAST then do {
       c \<leftarrow> read_table yycheck yyi;
       if c = ssp then read_table yytable yyi else Some d
     } else Some d
   }"

definition yyreduce :: "yyparser \<Rightarrow> (yylabel \<times> yyparser) option" where
  "yyreduce p = do {
     len \<leftarrow> read_table yyr2 (yyn p);
     v \<leftarrow> stack_at (yyvs p) (1 - len);
     p1 \<leftarrow> YY_REDUCE_PRINT (yyn p) (p\<lparr>yylen := nat len, yyval := v\<rparr>);
     p2 \<leftarrow> yyaction p1;
     lhs \<leftarrow> read_table yyr1 (yyn p2);
     p3 \<leftarrow> YY_SYMBOL_PRINT ''-> $$ ='' lhs p2;
     p4 \<leftarrow> YYPOPSTACK (yylen p3) p3;
     p5 \<leftarrow> push_value (yyval p4) (p4\<lparr>yylen := 0\<rparr>);
     ssp \<leftarrow> stack_at (yyss p5) 0;
     s \<leftarrow> goto_state (lhs - YYNTOKENS) ssp;
     Some (L_newstate, p5\<lparr>yystate := s\<rparr>)
   }"

definition yyerrlab :: "yyparser \<Rightarrow> (yylabel \<times> yyparser) option" where
  "yyerrlab p = do {
     k \<leftarrow> (if yychar p = token_code YYEMPTY then Some (symbol_code S_YYEMPTY) else YYTRANSLATE (yychar p));
     let p1 = p\<lparr>yytoken := k\<rparr>;
     let p2 = (if yyerrstatus p1 = 0
               then yyerror ''syntax error'' (p1\<lparr>yynerrs := yynerrs p1 + 1\<rparr>) else p1);
     if yyerrstatus p2 = 3 then
       if yychar p2 \<le> token_code YYEOF then
         Some (if yychar p2 = token_code YYEOF then L_abort else L_errlab1, p2)
       else do {
         p3 \<leftarrow> yydestruct (Some ''Error: discarding'') (yytoken p2) p2;
         Some (L_errlab1, p3\<lparr>yychar := token_code YYEMPTY\<rparr>)
       }
     else Some (L_errlab1, p2)
   }"

text \<open>Only a semantic action with \<^verbatim>\<open>YYERROR\<close>, which the grammar has not, gets here.\<close>

definition yyerrorlab :: "yyparser \<Rightarrow> (yylabel \<times> yyparser) option" where
  "yyerrorlab p = do {
     p1 \<leftarrow> YYPOPSTACK (yylen p) (p\<lparr>yynerrs := yynerrs p + 1\<rparr>);
     let p2 = YY_STACK_PRINT (p1\<lparr>yylen := 0\<rparr>);
     ssp \<leftarrow> stack_at (yyss p2) 0;
     Some (L_errlab1, p2\<lparr>yystate := ssp\<rparr>)
   }"

definition yyerrlab1 :: "yyparser \<Rightarrow> (yylabel \<times> yyparser) option" where
  "yyerrlab1 p = Some (L_errpop, p\<lparr>yyerrstatus := 3\<rparr>)"

text \<open>The shift of the error token from a state: \<open>Some None\<close> when there is none.\<close>

definition error_shift :: "int \<Rightarrow> int option option" where
  "error_shift state = do {
     n \<leftarrow> read_table yypact state;
     let i = n + symbol_code S_YYerror;
     if yypact_value_is_default n \<or> i < 0 \<or> YYLAST < i then Some None
     else do {
       c \<leftarrow> read_table yycheck i;
       if c = symbol_code S_YYerror then do {
         a \<leftarrow> read_table yytable i;
         Some (if 0 < a then Some a else None)
       } else Some None
     }
   }"

text \<open>One round of the loop that pops states until one shifts the error token.\<close>

definition yyerrpop :: "yyparser \<Rightarrow> (yylabel \<times> yyparser) option" where
  "yyerrpop p = do {
     a \<leftarrow> error_shift (yystate p);
     case a of
       Some n \<Rightarrow> do {
         p1 \<leftarrow> push_value (yylval p) (p\<lparr>yyn := n\<rparr>);
         kind \<leftarrow> YY_ACCESSING_SYMBOL n;
         p2 \<leftarrow> YY_SYMBOL_PRINT ''Shifting'' kind p1;
         Some (L_newstate, p2\<lparr>yystate := n\<rparr>)
       }
     | None \<Rightarrow>
         if length (yyss p) = 1 then Some (L_abort, p)
         else do {
           kind \<leftarrow> YY_ACCESSING_SYMBOL (yystate p);
           p1 \<leftarrow> yydestruct (Some ''Error: popping'') kind p;
           p2 \<leftarrow> YYPOPSTACK 1 p1;
           ssp \<leftarrow> stack_at (yyss p2) 0;
           Some (L_errpop, YY_STACK_PRINT (p2\<lparr>yystate := ssp\<rparr>))
         }
   }"

definition yyacceptlab :: "yyparser \<Rightarrow> (yylabel \<times> yyparser) option" where
  "yyacceptlab p = Some (L_return, p\<lparr>yyresult := 0\<rparr>)"

definition yyabortlab :: "yyparser \<Rightarrow> (yylabel \<times> yyparser) option" where
  "yyabortlab p = Some (L_return, p\<lparr>yyresult := 1\<rparr>)"

definition yyexhaustedlab :: "yyparser \<Rightarrow> (yylabel \<times> yyparser) option" where
  "yyexhaustedlab p = Some (L_return, yyerror ''memory exhausted'' p\<lparr>yyresult := 2\<rparr>)"

definition yyreturnlab :: "yyparser \<Rightarrow> (yylabel \<times> yyparser) option" where
  "yyreturnlab p = do {
     p1 \<leftarrow> (if yychar p \<noteq> token_code YYEMPTY then do {
              k \<leftarrow> YYTRANSLATE (yychar p);
              yydestruct (Some ''Cleanup: discarding lookahead'') k (p\<lparr>yytoken := k\<rparr>)
            } else Some p);
     p2 \<leftarrow> YYPOPSTACK (yylen p1) p1;
     Some (L_cleanup, YY_STACK_PRINT p2)
   }"

text \<open>One round of the loop that empties the stack, and the release of a stack on the heap.\<close>

definition yycleanup :: "yyparser \<Rightarrow> (yylabel \<times> yyparser) option" where
  "yycleanup p =
     (if length (yyss p) \<noteq> 1 then do {
        ssp \<leftarrow> stack_at (yyss p) 0;
        kind \<leftarrow> YY_ACCESSING_SYMBOL ssp;
        p1 \<leftarrow> yydestruct (Some ''Cleanup: popping'') kind p;
        p2 \<leftarrow> YYPOPSTACK 1 p1;
        Some (L_cleanup, p2)
      } else Some (L_done, p\<lparr>yyheap := False\<rparr>))"

section \<open>The run\<close>

primrec yystep :: "(nat \<Rightarrow> bool) \<Rightarrow> yylabel \<Rightarrow> yyparser \<Rightarrow> (yylabel \<times> yyparser) option" where
  "yystep alloc L_newstate p = yynewstate p"
| "yystep alloc L_setstate p = yysetstate alloc p"
| "yystep alloc L_backup p = yybackup p"
| "yystep alloc L_default p = yydefault p"
| "yystep alloc L_reduce p = yyreduce p"
| "yystep alloc L_errlab p = yyerrlab p"
| "yystep alloc L_errorlab p = yyerrorlab p"
| "yystep alloc L_errlab1 p = yyerrlab1 p"
| "yystep alloc L_errpop p = yyerrpop p"
| "yystep alloc L_accept p = yyacceptlab p"
| "yystep alloc L_abort p = yyabortlab p"
| "yystep alloc L_exhausted p = yyexhaustedlab p"
| "yystep alloc L_return p = yyreturnlab p"
| "yystep alloc L_cleanup p = yycleanup p"
| "yystep alloc L_done p = None"

type_synonym yyconfig = "(yylabel \<times> yyparser) option"

definition yyrunning :: "yyconfig \<Rightarrow> bool" where
  "yyrunning c \<longleftrightarrow> (case c of None \<Rightarrow> False | Some (l, p) \<Rightarrow> l \<noteq> L_done)"

definition yynext :: "(nat \<Rightarrow> bool) \<Rightarrow> yyconfig \<Rightarrow> yyconfig" where
  "yynext alloc c = (case c of None \<Rightarrow> None | Some (l, p) \<Rightarrow> yystep alloc l p)"

text \<open>\<open>None\<close> when the machine runs for ever, \<open>Some None\<close> on undefined behaviour.\<close>

definition yyrun :: "(nat \<Rightarrow> bool) \<Rightarrow> yyconfig \<Rightarrow> yyconfig option" where
  "yyrun alloc c = while_option yyrunning (yynext alloc) c"

definition yyparse_start :: "bool \<Rightarrow> string \<Rightarrow> yyparser" where
  "yyparse_start debug input =
     YYDPRINTF (''Starting parse'' @ [NL])
       \<lparr>yychar = token_code YYEMPTY, yylval = None, yynerrs = 0, yystate = 0, yyerrstatus = 0,
        yystacksize = YYINITDEPTH, yyss = [0], yyvs = [None], yyheap = False, yyn = 0,
        yyresult = 0, yytoken = symbol_code S_YYEMPTY, yyval = None, yylen = 0, yyin = input,
        yyout = [], yydebug = debug, yytrace = []\<rparr>"

definition yyparse :: "(nat \<Rightarrow> bool) \<Rightarrow> bool \<Rightarrow> string \<Rightarrow> yyconfig option" where
  "yyparse alloc debug input = yyrun alloc (Some (L_setstate, yyparse_start debug input))"

text \<open>\<^verbatim>\<open>main\<close> ignores the result of \<^verbatim>\<open>yyparse\<close>: its status, with the final state of the parser.\<close>

definition sql_main :: "(nat \<Rightarrow> bool) \<Rightarrow> bool \<Rightarrow> string \<Rightarrow> (int \<times> yyparser) option option" where
  "sql_main alloc debug input =
     map_option (map_option (\<lambda>(l, p). (0, p))) (yyparse alloc debug input)"

end
