(* ===== verification/Typed_Machine.thy ===== *)
theory Typed_Machine
  imports Prelude "HOL-Library.While_Combinator"
begin

text \<open>
  The contract between a machine with labels and a typing of its configurations: a typed
  configuration that has not ended has a next one, which is typed. From it follow type
  safety of everything that is reachable and of a run to its end.
\<close>

locale typed_machine =
  fixes step :: "'l \<Rightarrow> 's \<Rightarrow> ('l \<times> 's) option"
    and final :: "'l"
    and typed :: "'l \<Rightarrow> 's \<Rightarrow> bool"
  assumes step_typed: "typed l s \<Longrightarrow> l \<noteq> final \<Longrightarrow> \<exists>l' s'. step l s = Some (l', s') \<and> typed l' s'"
    and final_stuck: "step final s = None"
begin

lemma preservation: "typed l s \<Longrightarrow> step l s = Some (l', s') \<Longrightarrow> typed l' s'"
  using step_typed [of l s] final_stuck [of s] by (cases "l = final") auto

lemma progress: "typed l s \<Longrightarrow> l \<noteq> final \<Longrightarrow> step l s \<noteq> None"
  using step_typed by fastforce

lemma run_typed:
  assumes "typed l s"
    and "while_option (\<lambda>c. case c of None \<Rightarrow> False | Some (l, s) \<Rightarrow> l \<noteq> final)
      (\<lambda>c. case c of None \<Rightarrow> None | Some (l, s) \<Rightarrow> step l s) (Some (l, s)) = Some c"
  shows "\<exists>s'. c = Some (final, s') \<and> typed final s'"
proof -
  let ?P = "\<lambda>c. case c of None \<Rightarrow> False | Some (l, s) \<Rightarrow> typed l s"
  have "?P c"
    by (rule while_option_rule [where P = ?P, OF _ assms(2)])
      (use assms(1) step_typed in \<open>fastforce split: option.splits\<close>)+
  moreover have "\<not> (case c of None \<Rightarrow> False | Some (l, s) \<Rightarrow> l \<noteq> final)"
    by (rule while_option_stop [OF assms(2)])
  ultimately show ?thesis
    by (auto split: option.splits)
qed

end

end
