(* ===== verification/Sql_Types.thy ===== *)
theory Sql_Types
  imports Sql_Parser Typed_Machine
begin

text \<open>
  A typing of the parser of \<^verbatim>\<open>parser.tab.c\<close>. Each state has one stack that it can stand on,
  and the value beside a state reached by an identifier is a string. Every label keeps the
  typing and is defined on typed configurations: the parser never reads outside a table or
  a stack, never extends its stacks, and only prints strings that the scanner set.
\<close>

section \<open>The trace is the only effect of debug output\<close>

lemma YYDPRINTF_fields [simp]:
  "yychar (YYDPRINTF s p) = yychar p" "yylval (YYDPRINTF s p) = yylval p"
  "yynerrs (YYDPRINTF s p) = yynerrs p" "yystate (YYDPRINTF s p) = yystate p"
  "yyerrstatus (YYDPRINTF s p) = yyerrstatus p" "yystacksize (YYDPRINTF s p) = yystacksize p"
  "yyss (YYDPRINTF s p) = yyss p" "yyvs (YYDPRINTF s p) = yyvs p"
  "yyheap (YYDPRINTF s p) = yyheap p" "yyn (YYDPRINTF s p) = yyn p"
  "yyresult (YYDPRINTF s p) = yyresult p" "yytoken (YYDPRINTF s p) = yytoken p"
  "yyval (YYDPRINTF s p) = yyval p" "yylen (YYDPRINTF s p) = yylen p"
  "yyin (YYDPRINTF s p) = yyin p" "yyout (YYDPRINTF s p) = yyout p"
  "yydebug (YYDPRINTF s p) = yydebug p"
  by (simp_all add: YYDPRINTF_def YYFPRINTF_def)

lemma YY_STACK_PRINT_fields [simp]:
  "yychar (YY_STACK_PRINT p) = yychar p" "yylval (YY_STACK_PRINT p) = yylval p"
  "yynerrs (YY_STACK_PRINT p) = yynerrs p" "yystate (YY_STACK_PRINT p) = yystate p"
  "yyerrstatus (YY_STACK_PRINT p) = yyerrstatus p"
  "yystacksize (YY_STACK_PRINT p) = yystacksize p" "yyss (YY_STACK_PRINT p) = yyss p"
  "yyvs (YY_STACK_PRINT p) = yyvs p" "yyheap (YY_STACK_PRINT p) = yyheap p"
  "yyn (YY_STACK_PRINT p) = yyn p" "yyresult (YY_STACK_PRINT p) = yyresult p"
  "yytoken (YY_STACK_PRINT p) = yytoken p" "yyval (YY_STACK_PRINT p) = yyval p"
  "yylen (YY_STACK_PRINT p) = yylen p" "yyin (YY_STACK_PRINT p) = yyin p"
  "yyout (YY_STACK_PRINT p) = yyout p" "yydebug (YY_STACK_PRINT p) = yydebug p"
  by (simp_all add: YY_STACK_PRINT_def yy_stack_print_def YYFPRINTF_def)

lemma yysymbol_name_total: "0 \<le> k \<Longrightarrow> k < 9 \<Longrightarrow> \<exists>n. yysymbol_name k = Some n"
  by (simp add: yysymbol_name_def read_table_def yytname_def)

lemma YY_SYMBOL_PRINT_total:
  assumes "0 \<le> k" and "k < 9"
  obtains tr where "YY_SYMBOL_PRINT title k p = Some (p\<lparr>yytrace := tr\<rparr>)"
proof (cases "yydebug p")
  case True
  obtain n where "yysymbol_name k = Some n"
    using yysymbol_name_total assms by blast
  then have "\<exists>tr. YY_SYMBOL_PRINT title k p = Some (p\<lparr>yytrace := tr\<rparr>)"
    using True by (auto simp: YY_SYMBOL_PRINT_def yy_symbol_print_def YYFPRINTF_def)
  then show ?thesis using that by blast
next
  case False
  then show ?thesis
    using that [of "yytrace p"] by (simp add: YY_SYMBOL_PRINT_def)
qed

lemma yydestruct_total:
  assumes "0 \<le> k" and "k < 9"
  obtains tr where "yydestruct m k p = Some (p\<lparr>yytrace := tr\<rparr>)"
  unfolding yydestruct_def using YY_SYMBOL_PRINT_total [OF assms] by blast

lemma accessing_symbol_total:
  assumes "0 \<le> q" and "q < YYNSTATES"
  obtains k where "YY_ACCESSING_SYMBOL q = Some k" and "0 \<le> k" and "k < 9"
proof -
  have "nat q < length yystos" and "YY_ACCESSING_SYMBOL q = Some (yystos ! nat q)"
    using assms by (simp_all add: YY_ACCESSING_SYMBOL_def read_table_def yystos_def)
  moreover have "\<forall>k \<in> set yystos. 0 \<le> k \<and> k < 9"
    by (simp add: yystos_def)
  ultimately show ?thesis
    using that nth_mem by blast
qed

lemma reduce_symbols_total:
  assumes "\<forall>q \<in> set (yyss p). 0 \<le> q \<and> q < YYNSTATES" and "i + int n = nrhs" and "0 \<le> i"
    and "nrhs \<le> int (length (yyss p))"
  shows "\<exists>tr. reduce_symbols n nrhs i p = Some (p\<lparr>yytrace := tr\<rparr>)"
  using assms
proof (induction n arbitrary: i p)
  case 0
  then show ?case by (auto intro: exI [of _ "yytrace p"])
next
  case (Suc n)
  have "nat (nrhs - (i + 1)) < length (yyss p)" and "i + 1 - nrhs \<le> 0"
    using Suc.prems by auto
  then obtain q where q: "stack_at (yyss p) (i + 1 - nrhs) = Some q" "q \<in> set (yyss p)"
    by (auto simp: stack_at_def)
  obtain k where k: "YY_ACCESSING_SYMBOL q = Some k" "0 \<le> k" "k < 9"
    using accessing_symbol_total Suc.prems(1) q(2) by blast
  obtain name where "yysymbol_name k = Some name"
    using yysymbol_name_total k by blast
  then obtain tr where "reduce_symbols (Suc n) nrhs i p = reduce_symbols n nrhs (i + 1) (p\<lparr>yytrace := tr\<rparr>)"
    using q k by (auto simp: yy_symbol_print_def YYFPRINTF_def)
  moreover have "\<exists>tr'. reduce_symbols n nrhs (i + 1) (p\<lparr>yytrace := tr\<rparr>) = Some (p\<lparr>yytrace := tr'\<rparr>)"
    using Suc.IH [of "p\<lparr>yytrace := tr\<rparr>" "i + 1"] Suc.prems by auto
  ultimately show ?case by simp
qed

section \<open>Types\<close>

definition stack_type :: "int \<Rightarrow> int list option" where
  "stack_type q = read_table
     [[0], [1, 0], [2, 0], [3, 1, 0], [4, 2, 0], [5, 3, 1, 0], [6, 5, 3, 1, 0], [7, 6, 5, 3, 1, 0]] q"

definition value_typed :: "int \<Rightarrow> yystype \<Rightarrow> bool" where
  "value_typed q v \<longleftrightarrow> (YY_ACCESSING_SYMBOL q = Some (symbol_code S_IDENTIFIER) \<longrightarrow> v \<noteq> None)"

definition typed_at :: "int \<Rightarrow> int list \<Rightarrow> yystype list \<Rightarrow> bool" where
  "typed_at q ss vs \<longleftrightarrow> stack_type q = Some ss \<and> list_all2 value_typed ss vs"

definition lookahead_typed :: "yyparser \<Rightarrow> bool" where
  "lookahead_typed p \<longleftrightarrow>
     yychar p \<in> token_code ` ({YYEMPTY, YYEOF} \<union> scanned_kinds) \<and>
     (yychar p = token_code IDENTIFIER \<longrightarrow> yylval p \<noteq> None)"

definition steady :: "yyparser \<Rightarrow> bool" where
  "steady p \<longleftrightarrow>
     lookahead_typed p \<and> yystacksize p = YYINITDEPTH \<and> \<not> yyheap p \<and> yylen p = 0"

primrec yytyped :: "yylabel \<Rightarrow> yyparser \<Rightarrow> bool" where
  "yytyped L_newstate p \<longleftrightarrow> steady p \<and> yyerrstatus p = 0 \<and>
     typed_at (yystate p) (yystate p # yyss p) (yyvs p)"
| "yytyped L_setstate p \<longleftrightarrow> steady p \<and> yyerrstatus p = 0 \<and> yyss p \<noteq> [] \<and>
     typed_at (yystate p) (yystate p # tl (yyss p)) (yyvs p)"
| "yytyped L_backup p \<longleftrightarrow> steady p \<and> yyerrstatus p = 0 \<and> yystate p \<noteq> YYFINAL \<and>
     typed_at (yystate p) (yyss p) (yyvs p)"
| "yytyped L_default p \<longleftrightarrow> steady p \<and> yyerrstatus p = 0 \<and> yystate p \<noteq> YYFINAL \<and>
     typed_at (yystate p) (yyss p) (yyvs p)"
| "yytyped L_reduce p \<longleftrightarrow> steady p \<and> yyerrstatus p = 0 \<and> yystate p = 7 \<and> yyn p = 2 \<and>
     typed_at (yystate p) (yyss p) (yyvs p)"
| "yytyped L_errlab p \<longleftrightarrow> steady p \<and> yyerrstatus p = 0 \<and> typed_at (yystate p) (yyss p) (yyvs p)"
| "yytyped L_errorlab p \<longleftrightarrow> False"
| "yytyped L_errlab1 p \<longleftrightarrow> steady p \<and> typed_at (yystate p) (yyss p) (yyvs p)"
| "yytyped L_errpop p \<longleftrightarrow> steady p \<and> typed_at (yystate p) (yyss p) (yyvs p)"
| "yytyped L_accept p \<longleftrightarrow> steady p \<and> typed_at (yystate p) (yyss p) (yyvs p)"
| "yytyped L_abort p \<longleftrightarrow> steady p \<and> typed_at (yystate p) (yyss p) (yyvs p)"
| "yytyped L_exhausted p \<longleftrightarrow> False"
| "yytyped L_return p \<longleftrightarrow> steady p \<and> yyresult p \<in> {0, 1} \<and> typed_at (hd (yyss p)) (yyss p) (yyvs p)"
| "yytyped L_cleanup p \<longleftrightarrow> steady p \<and> yyresult p \<in> {0, 1} \<and> typed_at (hd (yyss p)) (yyss p) (yyvs p)"
| "yytyped L_done p \<longleftrightarrow> steady p \<and> yyresult p \<in> {0, 1} \<and> yyss p = [0]"

lemma stack_type_cases:
  assumes "stack_type q = Some ss"
  obtains "q = 0" "ss = [0]" | "q = 1" "ss = [1, 0]" | "q = 2" "ss = [2, 0]" | "q = 3" "ss = [3, 1, 0]"
    | "q = 4" "ss = [4, 2, 0]" | "q = 5" "ss = [5, 3, 1, 0]" | "q = 6" "ss = [6, 5, 3, 1, 0]"
    | "q = 7" "ss = [7, 6, 5, 3, 1, 0]"
proof -
  have "q \<in> {0, 1, 2, 3, 4, 5, 6, 7}"
    using assms by (auto simp: stack_type_def read_table_def split: if_splits)
  then show thesis
    using assms that by (auto simp: stack_type_def read_table_def)
qed

lemma stack_type_bounds:
  assumes "stack_type q = Some ss"
  shows "0 \<le> q" and "q < YYNSTATES" and "\<exists>us. ss = q # us" and "length ss \<le> 6"
    and "\<forall>s \<in> set ss. 0 \<le> s \<and> s < YYNSTATES"
  using assms by (cases rule: stack_type_cases; simp)+

text \<open>Below the top of a typed stack lies a typed stack.\<close>

lemma typed_at_pop:
  assumes "typed_at q ss vs" and "length ss \<noteq> 1"
  obtains s us v where "drop 1 ss = s # us" and "typed_at s (s # us) (drop 1 vs)"
    and "vs = v # drop 1 vs"
proof -
  have st: "stack_type q = Some ss" and vt: "list_all2 value_typed ss vs"
    using assms(1) by (simp_all add: typed_at_def)
  have "\<exists>s us v ws. ss = q # s # us \<and> vs = v # ws \<and> stack_type s = Some (s # us) \<and> list_all2 value_typed (s # us) ws"
    using st vt assms(2)
    by (cases rule: stack_type_cases) (auto simp: stack_type_def read_table_def list_all2_Cons1)
  then show thesis
    using that by (auto simp: typed_at_def)
qed

lemma typed_at_lengths: "typed_at q ss vs \<Longrightarrow> length vs = length ss \<and> ss \<noteq> [] \<and> length ss \<le> 6 \<and> hd ss = q"
  using stack_type_bounds [of q ss] by (auto simp: typed_at_def list_all2_lengthD [symmetric])

lemma typed_at_hd: "typed_at q ss vs \<Longrightarrow> typed_at (hd ss) ss vs"
  using typed_at_lengths by metis

section \<open>Every label is defined on typed configurations and keeps the typing\<close>

text \<open>A label is sound when its step is defined and typed.\<close>

definition sound_step :: "(yylabel \<times> yyparser) option \<Rightarrow> bool" where
  "sound_step c \<longleftrightarrow> (\<exists>l p. c = Some (l, p) \<and> yytyped l p)"

lemma sound_stepI: "c = Some (l, p) \<Longrightarrow> yytyped l p \<Longrightarrow> sound_step c"
  by (simp add: sound_step_def)

lemma steady_fields [simp]:
  "steady (p\<lparr>yytrace := tr\<rparr>) = steady p" "steady (p\<lparr>yystate := q\<rparr>) = steady p"
  "steady (p\<lparr>yyss := ss\<rparr>) = steady p" "steady (p\<lparr>yyvs := vs\<rparr>) = steady p"
  "steady (p\<lparr>yyn := n\<rparr>) = steady p" "steady (p\<lparr>yytoken := n\<rparr>) = steady p"
  "steady (p\<lparr>yyerrstatus := n\<rparr>) = steady p" "steady (p\<lparr>yynerrs := n\<rparr>) = steady p"
  "steady (p\<lparr>yyresult := n\<rparr>) = steady p" "steady (p\<lparr>yyout := out\<rparr>) = steady p"
  "steady (p\<lparr>yyval := v\<rparr>) = steady p"
  by (simp_all add: steady_def lookahead_typed_def)

lemma steady_trace [simp]:
  "steady (YYDPRINTF s p) = steady p" "steady (YY_STACK_PRINT p) = steady p"
  by (simp_all add: steady_def lookahead_typed_def)

lemma newstate_sound: "yytyped L_newstate p \<Longrightarrow> sound_step (yynewstate p)"
  by (auto simp: yynewstate_def sound_step_def)

lemma yy_state_t_id: "0 \<le> q \<Longrightarrow> q < YYNSTATES \<Longrightarrow> yy_state_t q = q"
  by (simp add: yy_state_t_def)

lemma setstate_sound:
  assumes "yytyped L_setstate p"
  shows "sound_step (yysetstate alloc p)"
proof -
  define q where "q = yystate p"
  have t: "typed_at q (q # tl (yyss p)) (yyvs p)" "yyss p \<noteq> []" "steady p" "yyerrstatus p = 0"
    using assms by (simp_all add: q_def)
  have q: "yy_state_t q = q"
    using t(1) stack_type_bounds yy_state_t_id unfolding typed_at_def by blast
  have "length (yyss p) \<le> 6" and "yystacksize p = 200"
    using typed_at_lengths [OF t(1)] t(2,3) by (auto simp: steady_def)
  then show ?thesis
    using t q
    by (cases "yyss p") (auto simp: yysetstate_def sound_step_def q_def split: if_splits)
qed

lemma default_sound:
  assumes "yytyped L_default p"
  shows "sound_step (yydefault p)"
proof -
  have "stack_type (yystate p) = Some (yyss p)" and "yystate p \<noteq> 4"
    using assms by (simp_all add: typed_at_def)
  then show ?thesis
    using assms
    by (cases rule: stack_type_cases [of "yystate p" "yyss p"])
      (auto simp: sound_step_def yydefault_def yydefact_def read_table_def)
qed

lemma errlab_sound:
  assumes "yytyped L_errlab p"
  shows "sound_step (yyerrlab p)"
proof -
  obtain k where "YYTRANSLATE (yychar p) = Some k"
    using YYTRANSLATE_total by blast
  then show ?thesis
    using assms by (auto simp: sound_step_def yyerrlab_def yyerror_def Let_def)
qed

lemma error_shift_none:
  "0 \<le> q \<Longrightarrow> q < YYNSTATES \<Longrightarrow> error_shift q = Some None"
  by (cases "q \<in> {0, 1, 2, 3, 4, 5, 6, 7}")
    (auto simp: error_shift_def read_table_def yypact_def yycheck_def yypact_value_is_default_def)

lemma errpop_sound:
  assumes "yytyped L_errpop p"
  shows "sound_step (yyerrpop p)"
proof -
  have t: "typed_at (yystate p) (yyss p) (yyvs p)" "steady p"
    using assms by simp_all
  have q: "0 \<le> yystate p" "yystate p < YYNSTATES"
    using t(1) stack_type_bounds unfolding typed_at_def by blast+
  show ?thesis
  proof (cases "length (yyss p) = 1")
    case True
    then show ?thesis
      using t error_shift_none [OF q] by (auto simp: sound_step_def yyerrpop_def)
  next
    case False
    obtain k where k: "YY_ACCESSING_SYMBOL (yystate p) = Some k" "0 \<le> k" "k < 9"
      using accessing_symbol_total [OF q] by blast
    obtain tr where tr: "yydestruct (Some ''Error: popping'') k p = Some (p\<lparr>yytrace := tr\<rparr>)"
      using yydestruct_total [OF k(2,3)] by blast
    obtain s us v where s: "drop 1 (yyss p) = s # us" "typed_at s (s # us) (drop 1 (yyvs p))"
      "yyvs p = v # drop 1 (yyvs p)"
      using typed_at_pop [OF t(1) False] by blast
    have "1 < length (yyss p)" "1 < length (yyvs p)"
      using s(1) typed_at_lengths [OF t(1)] by (cases "yyss p"; auto)+
    then show ?thesis
      using t error_shift_none [OF q] False k tr s
      by (simp add: sound_step_def yyerrpop_def YYPOPSTACK_def stack_at_def)
  qed
qed

lemma accept_abort_sound:
  "yytyped L_accept p \<Longrightarrow> sound_step (yyacceptlab p)"
  "yytyped L_abort p \<Longrightarrow> sound_step (yyabortlab p)"
  by (auto simp: sound_step_def yyacceptlab_def yyabortlab_def intro: typed_at_hd)

lemma return_sound:
  assumes "yytyped L_return p"
  shows "sound_step (yyreturnlab p)"
proof -
  obtain k where k: "YYTRANSLATE (yychar p) = Some k" "0 \<le> k" "k < YYNTOKENS"
    using YYTRANSLATE_total by blast
  obtain tr where "yydestruct (Some ''Cleanup: discarding lookahead'') k (p\<lparr>yytoken := k\<rparr>) =
      Some (p\<lparr>yytoken := k, yytrace := tr\<rparr>)"
    using yydestruct_total [of k _ "p\<lparr>yytoken := k\<rparr>"] k(2,3) by auto
  moreover have "yyss p \<noteq> []" "yyvs p \<noteq> []" "yylen p = 0"
    using assms typed_at_lengths [of "hd (yyss p)" "yyss p" "yyvs p"] by (auto simp: steady_def)
  ultimately show ?thesis
    using assms k(1) by (auto simp: sound_step_def yyreturnlab_def YYPOPSTACK_def)
qed

lemma cleanup_sound:
  assumes "yytyped L_cleanup p"
  shows "sound_step (yycleanup p)"
proof -
  have t: "typed_at (hd (yyss p)) (yyss p) (yyvs p)" "steady p" "yyresult p \<in> {0, 1}"
    using assms by simp_all
  show ?thesis
  proof (cases "length (yyss p) = 1")
    case True
    then have "yyss p = [0]"
      using t(1) unfolding typed_at_def by (auto elim: stack_type_cases)
    then show ?thesis
      using t by (simp add: sound_step_def yycleanup_def steady_def lookahead_typed_def)
  next
    case False
    obtain q qs where q: "yyss p = q # qs" "stack_at (yyss p) 0 = Some q"
      using typed_at_lengths [OF t(1)] by (cases "yyss p") (auto simp: stack_at_def)
    have "0 \<le> q" "q < YYNSTATES"
      using t(1) q stack_type_bounds [of q] unfolding typed_at_def by auto
    then obtain k where k: "YY_ACCESSING_SYMBOL q = Some k" "0 \<le> k" "k < 9"
      using accessing_symbol_total by blast
    obtain tr where tr: "yydestruct (Some ''Cleanup: popping'') k p = Some (p\<lparr>yytrace := tr\<rparr>)"
      using yydestruct_total [OF k(2,3)] by blast
    obtain s us v where s: "drop 1 (yyss p) = s # us" "typed_at s (s # us) (drop 1 (yyvs p))"
      "yyvs p = v # drop 1 (yyvs p)"
      using typed_at_pop [OF t(1) False] by blast
    have "1 < length (yyss p)" "1 < length (yyvs p)"
      using s(1) typed_at_lengths [OF t(1)] by (cases "yyss p"; auto)+
    then show ?thesis
      using t False k tr s q(2) by (simp add: sound_step_def yycleanup_def YYPOPSTACK_def)
  qed
qed

text \<open>The stack on which the rule of the query is reduced.\<close>

lemma typed_at_7:
  assumes "typed_at 7 ss vs"
  obtains v0 t v2 c v4 v5 where "ss = [7, 6, 5, 3, 1, 0]" and "vs = [v0, Some t, v2, Some c, v4, v5]"
proof -
  have "ss = [7, 6, 5, 3, 1, 0]" "list_all2 value_typed [7, 6, 5, 3, 1, 0] vs"
    using assms by (auto simp: typed_at_def stack_type_def read_table_def)
  then show thesis
    using that
    by (auto simp: list_all2_Cons1 value_typed_def YY_ACCESSING_SYMBOL_def read_table_def yystos_def)
qed

lemma reduce_sound:
  assumes "yytyped L_reduce p"
  shows "sound_step (yyreduce p)"
proof -
  have st: "steady p" "yyerrstatus p = 0" "yyn p = 2" "typed_at 7 (yyss p) (yyvs p)"
    using assms by auto
  obtain v0 t v2 c v4 v5 where ss: "yyss p = [7, 6, 5, 3, 1, 0]"
    and vs: "yyvs p = [v0, Some t, v2, Some c, v4, v5]"
    using typed_at_7 [OF st(4)] by blast
  define p0 where "p0 = p\<lparr>yylen := 5, yyval := v4\<rparr>"
  have "\<exists>tr. reduce_symbols 5 5 0 (YYFPRINTF out p0) = Some (YYFPRINTF out p0\<lparr>yytrace := tr\<rparr>)" for out
    by (rule reduce_symbols_total) (simp_all add: YYFPRINTF_def p0_def ss)
  then have "\<exists>tr. YY_REDUCE_PRINT 2 p0 = Some (p0\<lparr>yytrace := tr\<rparr>)"
    by (cases "yydebug p0")
      (auto simp: YY_REDUCE_PRINT_def yy_reduce_print_def read_table_def yyrline_def yyr2_def
        YYFPRINTF_def intro: exI [of _ "yytrace p0"])
  then obtain tr where tr: "YY_REDUCE_PRINT 2 p0 = Some (p0\<lparr>yytrace := tr\<rparr>)" by blast
  define p2 where "p2 = p0\<lparr>yytrace := tr, yyout := yyout p @
    [''SQL is Valid!'' @ [NL], ''Column = '' @ c @ [NL], ''Table = '' @ t @ [NL]]\<rparr>"
  have a: "yyaction (p0\<lparr>yytrace := tr\<rparr>) = Some p2"
    by (simp add: yyaction_def p2_def p0_def st(3) vs stack_at_def eval_nat_numeral)
  obtain tr2 where tr2: "YY_SYMBOL_PRINT ''-> $$ ='' 8 p2 = Some (p2\<lparr>yytrace := tr2\<rparr>)"
    using YY_SYMBOL_PRINT_total [of 8] by auto
  have "yyreduce p = Some (L_newstate, p2\<lparr>yytrace := tr2, yyss := [0], yyvs := [v4, v5],
      yylen := 0, yystate := 2\<rparr>)"
    using st tr a tr2
    by (simp add: yyreduce_def read_table_def yyr1_def yyr2_def vs ss stack_at_def YYPOPSTACK_def
        p0_def [symmetric] push_value_def goto_state_def yypgoto_def yydefgoto_def)
      (simp add: p2_def p0_def ss vs steady_def)
  moreover have "typed_at 2 [2, 0] [v4, v5]"
    by (simp add: typed_at_def stack_type_def read_table_def value_typed_def YY_ACCESSING_SYMBOL_def
        yystos_def)
  ultimately show ?thesis
    using st(1,2) by (auto intro!: sound_stepI simp: p2_def p0_def steady_def lookahead_typed_def)
qed

text \<open>The scanner returns one of the kinds of its rules, or zero at the end.\<close>

lemma yylex_typed:
  assumes "yylex s v = (t, v', rest, out)"
  shows "t \<in> token_code ` ({YYEOF} \<union> scanned_kinds)"
    and "t = token_code IDENTIFIER \<Longrightarrow> v' \<noteq> None"
proof -
  have "t = token_code YYEOF \<or>
    (\<exists>k w. k \<in> scanned_kinds \<and> t = token_code k \<and> v' = (if k = IDENTIFIER then Some w else v))"
    using yylex_lexemes [of s v]
  proof
    assume "\<exists>us k w rest. lexemes s = map Unknown us @ Token k w # lexemes rest \<and>
      yylex s v = (token_code k, if k = IDENTIFIER then Some w else v, rest, unknown_messages us)"
    then obtain us k w rest where "lexemes s = map Unknown us @ Token k w # lexemes rest"
      "yylex s v = (token_code k, if k = IDENTIFIER then Some w else v, rest, unknown_messages us)"
      by blast
    then show ?thesis
      using assms lexemes_kinds [of k w s] by auto
  qed (use assms in auto)
  then show "t \<in> token_code ` ({YYEOF} \<union> scanned_kinds)" and "t = token_code IDENTIFIER \<Longrightarrow> v' \<noteq> None"
    by (auto simp: scanned_kinds_def)
qed

lemma read_token_fields [simp]:
  "yynerrs (read_token p) = yynerrs p" "yystate (read_token p) = yystate p"
  "yyerrstatus (read_token p) = yyerrstatus p" "yystacksize (read_token p) = yystacksize p"
  "yyss (read_token p) = yyss p" "yyvs (read_token p) = yyvs p" "yyheap (read_token p) = yyheap p"
  "yyn (read_token p) = yyn p" "yylen (read_token p) = yylen p"
  by (simp_all add: read_token_def Let_def split: prod.splits)

text \<open>A lookahead that has been read, with its symbol in \<^verbatim>\<open>yytoken\<close>.\<close>

definition lookahead_ready :: "yyparser \<Rightarrow> bool" where
  "lookahead_ready p \<longleftrightarrow> steady p \<and> yychar p \<noteq> token_code YYEMPTY \<and> YYTRANSLATE (yychar p) = Some (yytoken p)"

lemma read_token_typed:
  assumes "steady p"
  shows "steady (read_token p)" and "yychar (read_token p) \<noteq> token_code YYEMPTY"
proof -
  obtain t v rest out where y: "yylex (yyin p) (yylval p) = (t, v, rest, out)"
    by (cases "yylex (yyin p) (yylval p)") auto
  show "steady (read_token p)" and "yychar (read_token p) \<noteq> token_code YYEMPTY"
    using assms yylex_typed [OF y]
    by (auto simp: read_token_def y steady_def lookahead_typed_def scanned_kinds_def)
qed

lemma classify_token_typed:
  assumes "steady p" and "yychar p \<noteq> token_code YYEMPTY"
  shows "\<exists>q. classify_token p = Some (True, q) \<and> lookahead_ready q \<and> yystate q = yystate p \<and>
    yyerrstatus q = yyerrstatus p \<and> yyss q = yyss p \<and> yyvs q = yyvs p \<and> yyn q = yyn p"
proof -
  have "yychar p = 0 \<or> yychar p \<in> {258, 259, 260, 261}"
    using assms by (auto simp: steady_def lookahead_typed_def scanned_kinds_def)
  then show ?thesis
  proof
    assume "yychar p = 0"
    then show ?thesis
      using assms(1) by (simp add: classify_token_def lookahead_ready_def steady_def lookahead_typed_def)
  next
    assume c: "yychar p \<in> {258, 259, 260, 261}"
    obtain k where k: "YYTRANSLATE (yychar p) = Some k" "0 \<le> k" "k < YYNTOKENS"
      using YYTRANSLATE_total by blast
    obtain tr where "YY_SYMBOL_PRINT ''Next token is'' k (p\<lparr>yytoken := k\<rparr>) = Some (p\<lparr>yytoken := k, yytrace := tr\<rparr>)"
      using YY_SYMBOL_PRINT_total [of k _ "p\<lparr>yytoken := k\<rparr>"] k(2,3) by auto
    then show ?thesis
      using assms c k(1) by (auto simp: classify_token_def lookahead_ready_def)
  qed
qed

lemma push_value_typed:
  "steady p \<Longrightarrow> typed_at q ss (yyvs p) \<Longrightarrow> push_value v p = Some (p\<lparr>yyvs := v # yyvs p\<rparr>)"
  using typed_at_lengths [of q ss "yyvs p"] by (simp add: push_value_def steady_def)

text \<open>A shift along the automaton keeps the stacks typed.\<close>

lemma shift_typed:
  assumes "typed_at q ss vs" and "stack_type a = Some (a # ss)" and "value_typed a v"
  shows "typed_at a (a # ss) (v # vs)"
  using assms by (simp add: typed_at_def)

lemma shift_token_sound:
  assumes "lookahead_ready p" and "yyerrstatus p = 0" and "typed_at (yystate p) (yyss p) (yyvs p)"
    and "stack_type (yyn p) = Some (yyn p # yyss p)" and "YY_ACCESSING_SYMBOL (yyn p) = Some (yytoken p)"
  shows "sound_step (shift_token p)"
proof -
  have st: "steady p" and tok: "YYTRANSLATE (yychar p) = Some (yytoken p)"
    using assms(1) by (simp_all add: lookahead_ready_def)
  have "0 \<le> yytoken p" "yytoken p < YYNTOKENS"
    using YYTRANSLATE_total [of "yychar p"] tok by auto
  then obtain tr where tr: "YY_SYMBOL_PRINT ''Shifting'' (yytoken p) p = Some (p\<lparr>yytrace := tr\<rparr>)"
    using YY_SYMBOL_PRINT_total [of "yytoken p"] by auto
  have "value_typed (yyn p) (yylval p)"
    using assms(1,5) tok st
    by (auto simp: lookahead_ready_def value_typed_def steady_def lookahead_typed_def scanned_kinds_def)
  then have "typed_at (yyn p) (yyn p # yyss p) (yylval p # yyvs p)"
    using shift_typed assms(3,4) by blast
  then show ?thesis
    using st tr assms(2) push_value_typed [of "p\<lparr>yytrace := tr, yystate := yyn p\<rparr>" "yystate p" "yyss p"] assms(3)
    by (auto intro!: sound_stepI simp: shift_token_def steady_def lookahead_typed_def)
qed

lemma ready_symbol:
  "lookahead_ready p \<Longrightarrow> yytoken p \<in> {0, 3, 4, 5, 6}"
  by (auto simp: lookahead_ready_def steady_def lookahead_typed_def scanned_kinds_def)

text \<open>The entries of the action table that are shifts lead along the automaton.\<close>

lemma yypact_values:
  "read_table yypact 0 = Some (- 3)" "read_table yypact 1 = Some (- 5)" "read_table yypact 2 = Some 2"
  "read_table yypact 3 = Some (- 1)" "read_table yypact 4 = Some (- 6)" "read_table yypact 5 = Some (- 2)"
  "read_table yypact 6 = Some 0" "read_table yypact 7 = Some (- 6)"
  by (simp_all add: read_table_def yypact_def)

lemma shift_entries:
  assumes "stack_type q = Some ss" and "q \<noteq> YYFINAL" and "read_table yypact q = Some n"
    and "\<not> yypact_value_is_default n" and "k \<in> {0, 3, 4, 5, 6}" and "read_table yycheck (n + k) = Some k"
  shows "\<exists>a. read_table yytable (n + k) = Some a \<and> 0 < a \<and> stack_type a = Some (a # ss) \<and>
    YY_ACCESSING_SYMBOL a = Some k"
proof -
  have check: "0 \<le> n + k" "n + k < 6" "[3, 6, 0, 4, 6, 5] ! nat (n + k) = k"
    using assms(6) by (auto simp: read_table_def yycheck_def split: if_splits)
  from assms(1) have "(q, n, k) \<in> {(0, - 3, 3), (1, - 5, 6), (2, 2, 0), (3, - 1, 4), (5, - 2, 6), (6, 0, 5)}"
    using assms(2-5) check
    by (cases rule: stack_type_cases) (simp_all add: yypact_values yypact_value_is_default_def, auto)
  then show ?thesis
    using assms(1)
    by (auto simp: stack_type_def read_table_def yytable_def YY_ACCESSING_SYMBOL_def yystos_def)
qed

lemma act_sound:
  assumes "lookahead_ready p" and "yyerrstatus p = 0" and "typed_at (yystate p) (yyss p) (yyvs p)"
    and "yystate p \<noteq> YYFINAL" and "read_table yypact (yystate p) = Some (yyn p)"
    and "\<not> yypact_value_is_default (yyn p)"
  shows "sound_step (act_on_token p)"
proof -
  let ?i = "yyn p + yytoken p"
  have st: "stack_type (yystate p) = Some (yyss p)"
    using assms(3) by (simp add: typed_at_def)
  have dflt: "sound_step (Some (L_default, p\<lparr>yyn := ?i\<rparr>))"
    using assms by (simp add: sound_step_def lookahead_ready_def)
  show ?thesis
  proof (cases "?i < 0 \<or> YYLAST < ?i \<or> read_table yycheck ?i \<noteq> Some (yytoken p)")
    case True
    have "act_on_token p = Some (L_default, p\<lparr>yyn := ?i\<rparr>)"
    proof (cases "?i < 0 \<or> YYLAST < ?i")
      case in_range: False
      then obtain c where "read_table yycheck ?i = Some c"
        by (simp add: read_table_def yycheck_def)
      then show ?thesis
        using True in_range by (simp add: act_on_token_def)
    qed (simp add: act_on_token_def)
    then show ?thesis using dflt by simp
  next
    case False
    have "\<exists>a. read_table yytable ?i = Some a \<and> 0 < a \<and> stack_type a = Some (a # yyss p) \<and>
        YY_ACCESSING_SYMBOL a = Some (yytoken p)"
      using shift_entries [OF st assms(4-6) ready_symbol [OF assms(1)]] False by simp
    then obtain a where a: "read_table yytable ?i = Some a" "0 < a" "stack_type a = Some (a # yyss p)"
      "YY_ACCESSING_SYMBOL a = Some (yytoken p)" by blast
    then have "act_on_token p = shift_token (p\<lparr>yyn := a\<rparr>)"
      using False by (simp add: act_on_token_def)
    moreover have "sound_step (shift_token (p\<lparr>yyn := a\<rparr>))"
      using assms(1-3) a by (intro shift_token_sound) (simp_all add: lookahead_ready_def)
    ultimately show ?thesis by simp
  qed
qed

lemma backup_sound:
  assumes "yytyped L_backup p"
  shows "sound_step (yybackup p)"
proof -
  have t: "typed_at (yystate p) (yyss p) (yyvs p)" "steady p" "yyerrstatus p = 0" "yystate p \<noteq> YYFINAL"
    using assms by simp_all
  have "0 \<le> yystate p" "yystate p < YYNSTATES"
    using t(1) stack_type_bounds [of "yystate p" "yyss p"] unfolding typed_at_def by auto
  then obtain n where n: "read_table yypact (yystate p) = Some n"
    by (simp add: read_table_def yypact_def)
  show ?thesis
  proof (cases "yypact_value_is_default n")
    case True
    then show ?thesis
      using n t by (simp add: yybackup_def sound_step_def)
  next
    case False
    have "steady (p\<lparr>yyn := n\<rparr>)" using t(2) by simp
    from classify_token_typed [OF read_token_typed [OF this]]
    obtain q where q: "classify_token (read_token (p\<lparr>yyn := n\<rparr>)) = Some (True, q)" "lookahead_ready q"
      "yystate q = yystate p" "yyerrstatus q = 0" "yyss q = yyss p" "yyvs q = yyvs p" "yyn q = n"
      using t(3) by auto
    then have "sound_step (act_on_token q)"
      using t n False by (intro act_sound) simp_all
    then show ?thesis
      using n False q(1) by (simp add: yybackup_def)
  qed
qed

theorem yystep_sound:
  assumes "yytyped l p" and "l \<noteq> L_done"
  shows "sound_step (yystep alloc l p)"
  using assms newstate_sound setstate_sound backup_sound default_sound reduce_sound errlab_sound
    errpop_sound accept_abort_sound return_sound cleanup_sound
  by (cases l) (auto simp: yyerrlab1_def sound_step_def)

interpretation yy: typed_machine "yystep alloc" L_done yytyped for alloc
proof
  show "\<exists>l' p'. yystep alloc l p = Some (l', p') \<and> yytyped l' p'" if "yytyped l p" "l \<noteq> L_done" for l p
    using yystep_sound [OF that] by (simp add: sound_step_def)
qed simp

section \<open>Reachable configurations\<close>

inductive yyreach :: "(nat \<Rightarrow> bool) \<Rightarrow> bool \<Rightarrow> string \<Rightarrow> yylabel \<Rightarrow> yyparser \<Rightarrow> bool"
  for alloc debug input where
  "yyreach alloc debug input L_setstate (yyparse_start debug input)"
| "yyreach alloc debug input l p \<Longrightarrow> yystep alloc l p = Some (l', p') \<Longrightarrow> yyreach alloc debug input l' p'"

lemma yyparse_start_typed: "yytyped L_setstate (yyparse_start debug input)"
  by (simp add: yyparse_start_def steady_def lookahead_typed_def typed_at_def stack_type_def
      read_table_def value_typed_def YY_ACCESSING_SYMBOL_def yystos_def)

lemma yyreach_typed: "yyreach alloc debug input l p \<Longrightarrow> yytyped l p"
proof (induction rule: yyreach.induct)
  case (2 l p l' p')
  then show ?case
    using yy.preservation by blast
qed (rule yyparse_start_typed)

lemma yytyped_depth: "yytyped l p \<Longrightarrow> length (yyss p) \<le> 6"
  by (cases l) (auto dest!: typed_at_lengths)

end
