(* ===== verification/Sql_Correct.thy ===== *)
theory Sql_Correct
  imports Sql_Types
begin

text \<open>
  What the parser of \<^verbatim>\<open>simple-parsing/\<close> does on every input: it returns, with the output and
  the result of a parser written by hand for the one rule of \<^verbatim>\<open>parser.y\<close>, and accepts the
  sentences of that grammar. The proofs combine the soundness of the labels, which says that
  a step is defined, with what the step changes.
\<close>

section \<open>Running the machine\<close>

lemma yyrun_step:
  assumes "yystep alloc l p = Some (l', p')" and "l \<noteq> L_done"
  shows "yyrun alloc (Some (l, p)) = yyrun alloc (Some (l', p'))"
  using assms
  by (simp add: yyrun_def while_option_unfold [of _ _ "Some (l, p)"] yyrunning_def yynext_def)

lemma yyrun_done [simp]: "yyrun alloc (Some (L_done, p)) = Some (Some (L_done, p))"
  by (simp add: yyrun_def while_option_unfold yyrunning_def)

text \<open>The step of a typed configuration, with its result typed.\<close>

lemma yyrun_typed:
  assumes "yytyped l p" and "l \<noteq> L_done"
  obtains l' p' where "yystep alloc l p = Some (l', p')" and "yytyped l' p'"
    and "yyrun alloc (Some (l, p)) = yyrun alloc (Some (l', p'))"
  using yystep_sound [OF assms, of alloc] yyrun_step [OF _ assms(2)] unfolding sound_step_def by blast

lemma YY_SYMBOL_PRINT_changes:
  "YY_SYMBOL_PRINT title k p = Some q \<Longrightarrow> \<exists>tr. q = p\<lparr>yytrace := tr\<rparr>"
proof (cases "yydebug p")
  case False
  assume "YY_SYMBOL_PRINT title k p = Some q"
  then show ?thesis
    using False by (intro exI [of _ "yytrace p"]) (simp add: YY_SYMBOL_PRINT_def)
qed (auto simp: YY_SYMBOL_PRINT_def yy_symbol_print_def YYFPRINTF_def bind_eq_Some_conv)

lemma yydestruct_changes: "yydestruct m k p = Some q \<Longrightarrow> \<exists>tr. q = p\<lparr>yytrace := tr\<rparr>"
  unfolding yydestruct_def by (rule YY_SYMBOL_PRINT_changes)

lemma reduce_symbols_changes:
  "reduce_symbols n nrhs i p = Some q \<Longrightarrow> \<exists>tr. q = p\<lparr>yytrace := tr\<rparr>"
proof (induction n arbitrary: i p)
  case 0
  then show ?case by (intro exI [of _ "yytrace p"]) simp
next
  case (Suc n)
  then obtain tr j where "reduce_symbols n nrhs j (p\<lparr>yytrace := tr\<rparr>) = Some q"
    by (auto simp: bind_eq_Some_conv yy_symbol_print_def YYFPRINTF_def)
  then show ?case using Suc.IH by fastforce
qed

lemma YY_REDUCE_PRINT_changes:
  assumes "YY_REDUCE_PRINT rule p = Some q"
  shows "\<exists>tr. q = p\<lparr>yytrace := tr\<rparr>"
proof (cases "yydebug p")
  case True
  then obtain n nrhs out where "reduce_symbols n nrhs 0 (YYFPRINTF out p) = Some q"
    using assms by (auto simp: YY_REDUCE_PRINT_def yy_reduce_print_def bind_eq_Some_conv)
  then show ?thesis
    using reduce_symbols_changes [of n nrhs 0 "YYFPRINTF out p" q] by (auto simp: YYFPRINTF_def)
next
  case False
  then show ?thesis
    using assms by (intro exI [of _ "yytrace p"]) (simp add: YY_REDUCE_PRINT_def)
qed

section \<open>The end of a run\<close>

text \<open>The run from a configuration ends, with this output and result.\<close>

definition run_ends :: "(nat \<Rightarrow> bool) \<Rightarrow> yylabel \<Rightarrow> yyparser \<Rightarrow> string list \<Rightarrow> int \<Rightarrow> int \<Rightarrow> bool" where
  "run_ends alloc l p out result nerrs \<longleftrightarrow>
     (\<exists>q. yyrun alloc (Some (l, p)) = Some (Some (L_done, q)) \<and>
        yyout q = out \<and> yyresult q = result \<and> yynerrs q = nerrs)"

lemma run_ends_step:
  "yyrun alloc (Some (l, p)) = yyrun alloc (Some (l', p')) \<Longrightarrow>
    run_ends alloc l' p' out result nerrs \<Longrightarrow> run_ends alloc l p out result nerrs"
  by (simp add: run_ends_def)

lemma cleanup_changes:
  assumes "yycleanup p = Some (l, q)"
  shows "yyout q = yyout p \<and> yyresult q = yyresult p \<and> yynerrs q = yynerrs p \<and>
    (l = L_done \<or> l = L_cleanup \<and> length (yyss q) < length (yyss p))"
  using assms
  by (auto simp: yycleanup_def YYPOPSTACK_def bind_eq_Some_conv split: if_splits
      dest!: yydestruct_changes)

lemma cleanup_ends:
  "yytyped L_cleanup p \<Longrightarrow> run_ends alloc L_cleanup p (yyout p) (yyresult p) (yynerrs p)"
proof (induction "length (yyss p)" arbitrary: p rule: less_induct)
  case less
  obtain l q where s: "yystep alloc L_cleanup p = Some (l, q)" "yytyped l q"
    "yyrun alloc (Some (L_cleanup, p)) = yyrun alloc (Some (l, q))"
    using yyrun_typed [OF less.prems] by blast
  have c: "yyout q = yyout p" "yyresult q = yyresult p" "yynerrs q = yynerrs p"
    "l = L_done \<or> l = L_cleanup \<and> length (yyss q) < length (yyss p)"
    using cleanup_changes s(1) by auto
  from c(4) show ?case
  proof
    assume "l = L_done"
    then show ?thesis using s(3) c by (simp add: run_ends_def)
  next
    assume "l = L_cleanup \<and> length (yyss q) < length (yyss p)"
    then show ?thesis
      using less.hyps [of q] s(2,3) c by (intro run_ends_step [OF s(3)]) auto
  qed
qed

lemma return_ends:
  assumes "yytyped L_return p"
  shows "run_ends alloc L_return p (yyout p) (yyresult p) (yynerrs p)"
proof -
  obtain l q where s: "yystep alloc L_return p = Some (l, q)" "yytyped l q"
    "yyrun alloc (Some (L_return, p)) = yyrun alloc (Some (l, q))"
    using yyrun_typed [OF assms] by blast
  have "l = L_cleanup \<and> yyout q = yyout p \<and> yyresult q = yyresult p \<and> yynerrs q = yynerrs p"
    using s(1) by (auto simp: yyreturnlab_def YYPOPSTACK_def bind_eq_Some_conv split: if_splits
        dest!: yydestruct_changes)
  then show ?thesis
    using cleanup_ends [of q alloc] s(2) by (intro run_ends_step [OF s(3)]) auto
qed

lemma accept_ends:
  assumes "yytyped L_accept p"
  shows "run_ends alloc L_accept p (yyout p) 0 (yynerrs p)"
proof -
  have "yyrun alloc (Some (L_accept, p)) = yyrun alloc (Some (L_return, p\<lparr>yyresult := 0\<rparr>))"
    by (rule yyrun_step) (simp_all add: yyacceptlab_def)
  moreover have "yytyped L_return (p\<lparr>yyresult := 0\<rparr>)"
    using accept_abort_sound(1) [OF assms] by (simp add: sound_step_def yyacceptlab_def)
  ultimately show ?thesis
    using return_ends [of "p\<lparr>yyresult := 0\<rparr>" alloc] run_ends_step by simp
qed

lemma abort_ends:
  assumes "yytyped L_abort p"
  shows "run_ends alloc L_abort p (yyout p) 1 (yynerrs p)"
proof -
  have "yyrun alloc (Some (L_abort, p)) = yyrun alloc (Some (L_return, p\<lparr>yyresult := 1\<rparr>))"
    by (rule yyrun_step) (simp_all add: yyabortlab_def)
  moreover have "yytyped L_return (p\<lparr>yyresult := 1\<rparr>)"
    using accept_abort_sound(2) [OF assms] by (simp add: sound_step_def yyabortlab_def)
  ultimately show ?thesis
    using return_ends [of "p\<lparr>yyresult := 1\<rparr>" alloc] run_ends_step by simp
qed

lemma errpop_changes:
  assumes "yyerrpop p = Some (l, q)" and "yytyped L_errpop p"
  shows "yyout q = yyout p \<and> yynerrs q = yynerrs p \<and>
    (l = L_abort \<or> l = L_errpop \<and> length (yyss q) < length (yyss p))"
proof -
  have "0 \<le> yystate p" "yystate p < YYNSTATES"
    using assms(2) stack_type_bounds [of "yystate p" "yyss p"] by (auto simp: typed_at_def)
  then show ?thesis
    using assms(1) error_shift_none [of "yystate p"]
    by (auto simp: yyerrpop_def YYPOPSTACK_def bind_eq_Some_conv split: if_splits
        dest!: yydestruct_changes)
qed

lemma errpop_ends:
  "yytyped L_errpop p \<Longrightarrow> run_ends alloc L_errpop p (yyout p) 1 (yynerrs p)"
proof (induction "length (yyss p)" arbitrary: p rule: less_induct)
  case less
  obtain l q where s: "yystep alloc L_errpop p = Some (l, q)" "yytyped l q"
    "yyrun alloc (Some (L_errpop, p)) = yyrun alloc (Some (l, q))"
    using yyrun_typed [OF less.prems] by blast
  have c: "yyout q = yyout p" "yynerrs q = yynerrs p"
    "l = L_abort \<or> l = L_errpop \<and> length (yyss q) < length (yyss p)"
    using errpop_changes [OF _ less.prems] s(1) by auto
  from c(3) show ?case
  proof
    assume "l = L_abort"
    then show ?thesis
      using abort_ends [of q alloc] s(2) c by (intro run_ends_step [OF s(3)]) auto
  next
    assume "l = L_errpop \<and> length (yyss q) < length (yyss p)"
    then show ?thesis
      using less.hyps [of q] s(2) c by (intro run_ends_step [OF s(3)]) auto
  qed
qed

lemma errlab_ends:
  assumes "yytyped L_errlab p"
  shows "run_ends alloc L_errlab p (yyout p @ [''Syntax Error!'' @ [NL]]) 1 (yynerrs p + 1)"
proof -
  obtain k where "YYTRANSLATE (yychar p) = Some k"
    using YYTRANSLATE_total by blast
  then obtain q where "yystep alloc L_errlab p = Some (L_errlab1, q)"
    "yyout q = yyout p @ [''Syntax Error!'' @ [NL]]" "yynerrs q = yynerrs p + 1"
    using assms by (cases "yychar p = - 2") (auto simp: yyerrlab_def yyerror_def)
  moreover have "yytyped L_errlab1 q"
    using yystep_sound [OF assms, of alloc] calculation(1) by (simp add: sound_step_def)
  moreover have "yyrun alloc (Some (L_errlab1, q)) = yyrun alloc (Some (L_errpop, q\<lparr>yyerrstatus := 3\<rparr>))"
    by (rule yyrun_step) (simp_all add: yyerrlab1_def)
  ultimately show ?thesis
    using errpop_ends [of "q\<lparr>yyerrstatus := 3\<rparr>" alloc] run_ends_step
      yyrun_step [of alloc L_errlab p L_errlab1 q] by simp
qed

section \<open>One token\<close>

text \<open>What most labels leave alone.\<close>

definition same_data :: "yyparser \<Rightarrow> yyparser \<Rightarrow> bool" where
  "same_data p q \<longleftrightarrow> yychar q = yychar p \<and> yylval q = yylval p \<and> yyin q = yyin p \<and>
     yyout q = yyout p \<and> yynerrs q = yynerrs p"

lemma newstate_run:
  assumes "yytyped L_newstate p"
  obtains q where "yytyped (if yystate p = YYFINAL then L_accept else L_backup) q"
    and "yyrun alloc (Some (L_newstate, p)) =
      yyrun alloc (Some (if yystate p = YYFINAL then L_accept else L_backup, q))"
    and "same_data p q" and "yystate q = yystate p" and "yyvs q = yyvs p"
proof -
  let ?l = "if yystate p = YYFINAL then L_accept else L_backup"
  let ?p = "p\<lparr>yyss := 0 # yyss p\<rparr>"
  have s: "yyrun alloc (Some (L_newstate, p)) = yyrun alloc (Some (L_setstate, ?p))"
    by (rule yyrun_step) (simp_all add: yynewstate_def)
  have t: "yytyped L_setstate ?p"
    using assms by simp
  have "length (yyss ?p) \<le> 6" "yystacksize p = 200"
    using yytyped_depth [OF t] t by (simp_all add: steady_def)
  then obtain q where q: "yystep alloc L_setstate ?p = Some (?l, q)"
    "same_data p q" "yystate q = yystate p" "yyvs q = yyvs p"
    by (simp add: yysetstate_def same_data_def)
  have "yytyped ?l q"
    using yystep_sound [OF t, of alloc] q(1) by (simp add: sound_step_def)
  then show thesis
    using that q(2-4) s yyrun_step [OF q(1)] by simp
qed

lemma classify_changes:
  assumes "classify_token p = Some (b, q)" and "0 \<le> yychar p"
  shows "b \<longrightarrow> same_data p q"
  using assms
  by (auto simp: classify_token_def same_data_def bind_eq_Some_conv split: if_splits
      dest!: YY_SYMBOL_PRINT_changes)

lemma shift_changes:
  assumes "shift_token p = Some (l, q)"
  shows "l = L_newstate \<and> yystate q = yyn p \<and> yyvs q = yylval p # yyvs p \<and>
    same_data (p\<lparr>yychar := token_code YYEMPTY\<rparr>) q"
  using assms
  by (auto simp: shift_token_def same_data_def push_value_def bind_eq_Some_conv split: if_splits
      dest!: YY_SYMBOL_PRINT_changes)

lemma yydefact_values:
  "read_table yydefact 0 = Some 0" "read_table yydefact 1 = Some 0" "read_table yydefact 2 = Some 0"
  "read_table yydefact 3 = Some 0" "read_table yydefact 5 = Some 0" "read_table yydefact 6 = Some 0"
  "read_table yydefact 7 = Some 2"
  by (simp_all add: read_table_def yydefact_def)

text \<open>The state that the action table shifts symbol \<open>k\<close> to.\<close>

definition yyshift :: "int \<Rightarrow> int \<Rightarrow> int option" where
  "yyshift q k = do {
     n \<leftarrow> read_table yypact q;
     if yypact_value_is_default n \<or> read_table yycheck (n + k) \<noteq> Some k then None
     else read_table yytable (n + k)
   }"

text \<open>A configuration that is about to read a token.\<close>

definition waiting :: "yyparser \<Rightarrow> bool" where
  "waiting p \<longleftrightarrow> yytyped L_backup p \<and> yychar p = token_code YYEMPTY"

lemma read_lookahead:
  assumes "waiting p" and "read_table yypact (yystate p) = Some n" and "\<not> yypact_value_is_default n"
    and "yylex (yyin p) (yylval p) = (t, v, rest, out)"
  obtains q where "yystep alloc L_backup p = act_on_token q" and "lookahead_ready q"
    and "YYTRANSLATE t = Some (yytoken q)"
    and "same_data (p\<lparr>yychar := t, yylval := v, yyin := rest, yyout := yyout p @ out\<rparr>) q"
    and "yystate q = yystate p" and "yyerrstatus q = 0" and "yyss q = yyss p" and "yyvs q = yyvs p"
    and "yyn q = n"
proof -
  let ?p = "read_token (p\<lparr>yyn := n\<rparr>)"
  have st: "steady (p\<lparr>yyn := n\<rparr>)" "yyerrstatus p = 0"
    using assms(1) by (simp_all add: waiting_def)
  have d: "same_data (p\<lparr>yychar := t, yylval := v, yyin := rest, yyout := yyout p @ out\<rparr>) ?p"
    using assms(1,4) by (simp add: waiting_def read_token_def same_data_def)
  have nonneg: "0 \<le> yychar ?p"
    using yylex_typed(1) [OF assms(4)] d by (auto simp: same_data_def scanned_kinds_def)
  obtain q where q: "classify_token ?p = Some (True, q)" "lookahead_ready q" "yystate q = yystate p"
    "yyerrstatus q = 0" "yyss q = yyss p" "yyvs q = yyvs p" "yyn q = n"
    using classify_token_typed [OF read_token_typed [OF st(1)]] st(2) by auto
  have "same_data (p\<lparr>yychar := t, yylval := v, yyin := rest, yyout := yyout p @ out\<rparr>) q"
    using d classify_changes [OF q(1) nonneg] by (simp add: same_data_def)
  moreover have "yystep alloc L_backup p = act_on_token q"
    using assms(2,3) q(1) by (simp add: yybackup_def)
  ultimately show thesis
    using that q(2-7) by (simp add: lookahead_ready_def same_data_def)
qed

lemma token_shift:
  assumes "waiting p" and "yylex (yyin p) (yylval p) = (t, v, rest, out)" and "YYTRANSLATE t = Some k"
    and "yyshift (yystate p) k = Some a"
  obtains q where "yyrun alloc (Some (L_backup, p)) = yyrun alloc (Some (L_newstate, q))"
    and "yytyped L_newstate q" and "yystate q = a" and "yyvs q = v # yyvs p"
    and "same_data (p\<lparr>yylval := v, yyin := rest, yyout := yyout p @ out\<rparr>) q"
proof -
  obtain n where n: "read_table yypact (yystate p) = Some n" "\<not> yypact_value_is_default n"
    "read_table yycheck (n + k) = Some k" "read_table yytable (n + k) = Some a"
    using assms(4) by (auto simp: yyshift_def bind_eq_Some_conv split: if_splits)
  obtain q where q: "yystep alloc L_backup p = act_on_token q" "lookahead_ready q"
    "YYTRANSLATE t = Some (yytoken q)"
    "same_data (p\<lparr>yychar := t, yylval := v, yyin := rest, yyout := yyout p @ out\<rparr>) q"
    "yystate q = yystate p" "yyerrstatus q = 0" "yyss q = yyss p" "yyvs q = yyvs p" "yyn q = n"
    using read_lookahead [OF assms(1) n(1,2) assms(2)] by blast
  have k: "yytoken q = k"
    using q(3) assms(3) by simp
  have st: "stack_type (yystate p) = Some (yyss p)" and fin: "yystate p \<noteq> YYFINAL"
    using assms(1) by (simp_all add: waiting_def typed_at_def)
  have "0 < a"
    using shift_entries [OF st fin n(1,2) _ n(3)] ready_symbol [OF q(2)] k n(4) by auto
  moreover have "0 \<le> n + k" "n + k \<le> YYLAST"
    using read_table_bounds [OF n(3)] by (simp_all add: yycheck_def)
  ultimately have act: "act_on_token q = shift_token (q\<lparr>yyn := a\<rparr>)"
    using n(3,4) k q(9) by (simp add: act_on_token_def)
  obtain l r where r: "yystep alloc L_backup p = Some (l, r)" "yytyped l r"
    "yyrun alloc (Some (L_backup, p)) = yyrun alloc (Some (l, r))"
    using yyrun_typed [of L_backup p alloc] assms(1) by (auto simp: waiting_def)
  have "shift_token (q\<lparr>yyn := a\<rparr>) = Some (l, r)"
    using r(1) q(1) act by simp
  from shift_changes [OF this] show thesis
    using that [of r] r(2,3) q(4,8) assms(1) by (auto simp: same_data_def waiting_def)
qed

lemma token_error:
  assumes "waiting p" and "yylex (yyin p) (yylval p) = (t, v, rest, out)" and "YYTRANSLATE t = Some k"
    and "yyshift (yystate p) k = None" and "yystate p \<noteq> 7"
  shows "run_ends alloc L_backup p (yyout p @ out @ [''Syntax Error!'' @ [NL]]) 1 (yynerrs p + 1)"
proof -
  have st: "stack_type (yystate p) = Some (yyss p)" and fin: "yystate p \<noteq> YYFINAL"
    using assms(1) by (simp_all add: waiting_def typed_at_def)
  obtain n where n: "read_table yypact (yystate p) = Some n" "\<not> yypact_value_is_default n"
    "read_table yydefact (yystate p) = Some 0"
    using st fin assms(5)
    by (cases rule: stack_type_cases)
      (simp_all add: yypact_values yydefact_values yypact_value_is_default_def)
  obtain q where q: "yystep alloc L_backup p = act_on_token q" "lookahead_ready q"
    "YYTRANSLATE t = Some (yytoken q)"
    "same_data (p\<lparr>yychar := t, yylval := v, yyin := rest, yyout := yyout p @ out\<rparr>) q"
    "yystate q = yystate p" "yyerrstatus q = 0" "yyss q = yyss p" "yyvs q = yyvs p" "yyn q = n"
    using read_lookahead [OF assms(1) n(1,2) assms(2)] by blast
  let ?q = "q\<lparr>yyn := n + k\<rparr>"
  have k: "yytoken q = k"
    using q(3) assms(3) by simp
  have no: "read_table yycheck (n + k) \<noteq> Some k"
  proof
    assume c: "read_table yycheck (n + k) = Some k"
    then have "\<exists>a. read_table yytable (n + k) = Some a"
      using read_table_bounds [OF c] by (simp add: read_table_def yycheck_def yytable_def)
    then show False
      using c n(1,2) assms(4) by (auto simp: yyshift_def)
  qed
  have "act_on_token q = Some (L_default, ?q)"
  proof (cases "n + k < 0 \<or> YYLAST < n + k")
    case False
    then obtain c where "read_table yycheck (n + k) = Some c"
      by (simp add: read_table_def yycheck_def)
    then show ?thesis
      using no k q(9) False by (auto simp: act_on_token_def)
  qed (use k q(9) in \<open>simp add: act_on_token_def\<close>)
  then have s1: "yystep alloc L_backup p = Some (L_default, ?q)"
    using q(1) by simp
  have s2: "yystep alloc L_default ?q = Some (L_errlab, ?q\<lparr>yyn := 0\<rparr>)"
    using n(3) q(5) by (simp add: yydefault_def)
  have "yytyped L_default ?q"
    using yystep_sound [of L_backup p alloc] s1 assms(1) by (simp add: sound_step_def waiting_def)
  then have "yytyped L_errlab (?q\<lparr>yyn := 0\<rparr>)"
    using yystep_sound [of L_default ?q alloc] s2 by (simp add: sound_step_def)
  from errlab_ends [OF this, of alloc] show ?thesis
    using q(4) by (intro run_ends_step [OF yyrun_step [OF s1]] run_ends_step [OF yyrun_step [OF s2]])
      (simp_all add: same_data_def)
qed

text \<open>In the state behind the semicolon the query is reduced before another token is read.\<close>

definition valid_lines :: "string list \<Rightarrow> string list" where
  "valid_lines ns =
     [''SQL is Valid!'' @ [NL], ''Column = '' @ ns ! 0 @ [NL], ''Table = '' @ ns ! 1 @ [NL]]"

lemma reduce_changes:
  assumes "yyreduce p = Some (l, q)" and "yyn p = 2" and "yyss p = [7, 6, 5, 3, 1, 0]"
    and "yyvs p = [v0, Some t, v2, Some c, v4, v5]"
  shows "l = L_newstate \<and> yystate q = 2 \<and> same_data (p\<lparr>yyout := yyout p @ valid_lines [c, t]\<rparr>) q"
proof -
  let ?p = "p\<lparr>yylen := 5, yyval := v4\<rparr>"
  have tables: "read_table yyr2 2 = Some 5" "read_table yyr1 2 = Some 8" "goto_state 1 0 = Some 2"
    "stack_at (yyvs p) (- 4) = Some v4"
    by (simp_all add: read_table_def yyr1_def yyr2_def goto_state_def yypgoto_def yydefgoto_def
        stack_at_def assms(4))
  then obtain r1 where r1: "YY_REDUCE_PRINT 2 ?p = Some r1"
    using assms(1,2) by (auto simp: yyreduce_def bind_eq_Some_conv)
  then obtain tr where tr: "r1 = ?p\<lparr>yytrace := tr\<rparr>"
    using YY_REDUCE_PRINT_changes by blast
  let ?r = "r1\<lparr>yyout := yyout p @ valid_lines [c, t]\<rparr>"
  have act: "yyaction r1 = Some ?r"
    by (simp add: yyaction_def tr assms(2,4) stack_at_def valid_lines_def eval_nat_numeral)
  then obtain r2 where r2: "YY_SYMBOL_PRINT ''-> $$ ='' 8 ?r = Some r2"
    using assms(1,2) tables r1 tr by (auto simp: yyreduce_def bind_eq_Some_conv)
  then obtain tr' where tr': "r2 = ?r\<lparr>yytrace := tr'\<rparr>"
    using YY_SYMBOL_PRINT_changes by blast
  have pop: "YYPOPSTACK 5 r2 = Some (r2\<lparr>yyss := [0], yyvs := [v5]\<rparr>)"
    by (simp add: YYPOPSTACK_def tr' tr assms(3,4))
  show ?thesis
    using assms(1,2) tables r1 act r2 pop
    by (auto simp: yyreduce_def tr' tr push_value_def stack_at_def [of "[0]"] same_data_def
        split: if_splits)
qed

lemma reduce_run:
  assumes "yytyped L_backup p" and "yystate p = 7" and "yyvs p = [v0, Some t, v2, Some c, v4, v5]"
  obtains q where "yyrun alloc (Some (L_backup, p)) = yyrun alloc (Some (L_newstate, q))"
    and "yytyped L_newstate q" and "yystate q = 2"
    and "same_data (p\<lparr>yyout := yyout p @ valid_lines [c, t]\<rparr>) q"
proof -
  have ss: "yyss p = [7, 6, 5, 3, 1, 0]"
    using assms(1,2) by (simp add: typed_at_def stack_type_def read_table_def)
  let ?p = "p\<lparr>yyn := - 6\<rparr>" and ?q = "p\<lparr>yyn := 2\<rparr>"
  have s1: "yystep alloc L_backup p = Some (L_default, ?p)"
    using assms(2) by (simp add: yybackup_def yypact_values yypact_value_is_default_def)
  have s2: "yystep alloc L_default ?p = Some (L_reduce, ?q)"
    using assms(2) by (simp add: yydefault_def yydefact_values)
  have t: "yytyped L_reduce ?q"
    using assms(1,2) by simp
  obtain l r where r: "yystep alloc L_reduce ?q = Some (l, r)" "yytyped l r"
    "yyrun alloc (Some (L_reduce, ?q)) = yyrun alloc (Some (l, r))"
    using yyrun_typed [OF t] by blast
  have "l = L_newstate \<and> yystate r = 2 \<and> same_data (?q\<lparr>yyout := yyout ?q @ valid_lines [c, t]\<rparr>) r"
    by (rule reduce_changes) (use r(1) ss assms(3) in simp_all)
  then show thesis
    using that [of r] r(2,3) yyrun_step [OF s1] yyrun_step [OF s2] by (simp add: same_data_def)
qed

section \<open>The parser by hand\<close>

text \<open>
  \<open>sql_reference ks ns xs\<close> expects the tokens \<open>ks\<close> in the lexemes \<open>xs\<close>; \<open>ns\<close> are the
  identifiers so far. It returns what is printed and the result.
\<close>

fun sql_reference :: "yytokentype list \<Rightarrow> string list \<Rightarrow> lexeme list \<Rightarrow> string list \<times> int" where
  "sql_reference ks ns (Unknown c # xs) =
     (case sql_reference ks ns xs of (out, r) \<Rightarrow> (unknown_message [c] # out, r))"
| "sql_reference [] ns [] = ([], 0)"
| "sql_reference (k # ks) ns (Token k' w # xs) =
     (if k' \<noteq> k then ([''Syntax Error!'' @ [NL]], 1)
      else
        let ns' = (if k = IDENTIFIER then ns @ [w] else ns);
            (out, r) = sql_reference ks ns' xs
        in ((if ks = [] then valid_lines ns' else []) @ out, r))"
| "sql_reference ks ns xs = ([''Syntax Error!'' @ [NL]], 1)"

definition query_tokens :: "yytokentype list" where
  "query_tokens = [SELECT, IDENTIFIER, FROM, IDENTIFIER, SEMICOLON]"

lemma sql_reference_unknowns:
  "sql_reference ks ns (map Unknown us @ xs) =
     (unknown_messages us @ fst (sql_reference ks ns xs), snd (sql_reference ks ns xs))"
  by (induction us) (auto simp: unknown_messages_def split: prod.splits)

text \<open>The same, with the report of the valid query when nothing more is expected of it.\<close>

definition sql_after :: "yytokentype list \<Rightarrow> string list \<Rightarrow> lexeme list \<Rightarrow> string list \<times> int" where
  "sql_after ks ns xs =
     ((if ks = [] then valid_lines ns else []) @ fst (sql_reference ks ns xs), snd (sql_reference ks ns xs))"

text \<open>The run from a configuration prints and returns this; each error is counted.\<close>

definition answers :: "(nat \<Rightarrow> bool) \<Rightarrow> yylabel \<Rightarrow> yyparser \<Rightarrow> string list \<times> int \<Rightarrow> bool" where
  "answers alloc l p ans \<longleftrightarrow> run_ends alloc l p (yyout p @ fst ans) (snd ans) (yynerrs p + snd ans)"

lemma answers_step:
  assumes "yyrun alloc (Some (l, p)) = yyrun alloc (Some (l', q))" and "yyout q = yyout p @ out"
    and "yynerrs q = yynerrs p" and "answers alloc l' q ans"
  shows "answers alloc l p (out @ fst ans, snd ans)"
  using assms by (simp add: answers_def run_ends_def)

section \<open>The automaton follows the grammar\<close>

text \<open>In state \<open>s\<close> the tables shift the kind \<open>k\<close>, to state \<open>a\<close>, and no other.\<close>

definition yyexpects :: "int \<Rightarrow> yytokentype \<Rightarrow> int \<Rightarrow> bool" where
  "yyexpects s k a \<longleftrightarrow>
     (\<forall>k' \<in> insert YYEOF scanned_kinds.
        Option.bind (YYTRANSLATE (token_code k')) (yyshift s) = (if k' = k then Some a else None))"

lemma yyexpects_states:
  "yyexpects 0 SELECT 1" "yyexpects 1 IDENTIFIER 3" "yyexpects 3 FROM 5" "yyexpects 5 IDENTIFIER 6"
  "yyexpects 6 SEMICOLON 7" "yyexpects 2 YYEOF 4"
  by code_simp+

lemma yyexpects_shift:
  assumes "yyexpects s k a" and "k' \<in> insert YYEOF scanned_kinds"
  obtains n where "YYTRANSLATE (token_code k') = Some n" and "yyshift s n = (if k' = k then Some a else None)"
  using assms YYTRANSLATE_total [of "token_code k'"] unfolding yyexpects_def by fastforce

lemma newstate_answers:
  assumes "yytyped L_newstate p" and "yystate p \<noteq> YYFINAL"
    and "\<And>q. yytyped L_backup q \<Longrightarrow> same_data p q \<Longrightarrow> yystate q = yystate p \<Longrightarrow> yyvs q = yyvs p \<Longrightarrow>
      answers alloc L_backup q ans"
  shows "answers alloc L_newstate p ans"
proof -
  obtain q where "yytyped L_backup q" "yyrun alloc (Some (L_newstate, p)) = yyrun alloc (Some (L_backup, q))"
    "same_data p q" "yystate q = yystate p" "yyvs q = yyvs p"
    using newstate_run [OF assms(1), of alloc] assms(2) by auto
  then show ?thesis
    using answers_step [of alloc L_newstate p L_backup q "[]"] assms(3) by (simp add: same_data_def)
qed

text \<open>One expected token: the right one is shifted, anything else is the syntax error.\<close>

lemma expect_answers:
  assumes "waiting p" and "yystate p \<noteq> 7" and "yyexpects (yystate p) k a" and "k \<in> scanned_kinds"
    and "\<And>q w. yytyped L_newstate q \<Longrightarrow> yystate q = a \<Longrightarrow> yychar q = token_code YYEMPTY \<Longrightarrow>
      yyvs q = (if k = IDENTIFIER then Some w else yylval p) # yyvs p \<Longrightarrow>
      answers alloc L_newstate q
        (sql_after ks (if k = IDENTIFIER then ns @ [w] else ns) (lexemes (yyin q)))"
  shows "answers alloc L_backup p (sql_after (k # ks) ns (lexemes (yyin p)))"
  using yylex_lexemes [of "yyin p" "yylval p"]
proof
  assume "\<exists>us. lexemes (yyin p) = map Unknown us \<and>
    yylex (yyin p) (yylval p) = (token_code YYEOF, yylval p, [], unknown_messages us)"
  then obtain us where us: "lexemes (yyin p) = map Unknown us"
    "yylex (yyin p) (yylval p) = (token_code YYEOF, yylval p, [], unknown_messages us)" by blast
  have "k \<noteq> YYEOF"
    using assms(4) by (auto simp: scanned_kinds_def)
  moreover obtain n where "YYTRANSLATE (token_code YYEOF) = Some n"
    "yyshift (yystate p) n = (if YYEOF = k then Some a else None)"
    by (rule yyexpects_shift [OF assms(3) insertI1])
  ultimately have n: "YYTRANSLATE (token_code YYEOF) = Some n" "yyshift (yystate p) n = None"
    by simp_all
  have "sql_after (k # ks) ns (lexemes (yyin p)) = (unknown_messages us @ [''Syntax Error!'' @ [NL]], 1)"
    using sql_reference_unknowns [of "k # ks" ns us "[]"] by (simp add: us(1) sql_after_def)
  then show ?thesis
    using token_error [OF assms(1) us(2) n assms(2)] by (simp only: answers_def fst_conv snd_conv)
next
  assume "\<exists>us k w rest. lexemes (yyin p) = map Unknown us @ Token k w # lexemes rest \<and>
    yylex (yyin p) (yylval p) =
      (token_code k, if k = IDENTIFIER then Some w else yylval p, rest, unknown_messages us)"
  then obtain us k' w rest where us: "lexemes (yyin p) = map Unknown us @ Token k' w # lexemes rest"
    "yylex (yyin p) (yylval p) =
      (token_code k', if k' = IDENTIFIER then Some w else yylval p, rest, unknown_messages us)" by blast
  have "k' \<in> scanned_kinds"
    using lexemes_kinds [of k' w "yyin p"] us(1) by simp
  then obtain n where n: "YYTRANSLATE (token_code k') = Some n"
    "yyshift (yystate p) n = (if k' = k then Some a else None)"
    by (rule yyexpects_shift [OF assms(3) insertI2])
  show ?thesis
  proof (cases "k' = k")
    case True
    then obtain q where q: "yyrun alloc (Some (L_backup, p)) = yyrun alloc (Some (L_newstate, q))"
      "yytyped L_newstate q" "yystate q = a"
      "yyvs q = (if k = IDENTIFIER then Some w else yylval p) # yyvs p"
      "same_data (p\<lparr>yylval := if k = IDENTIFIER then Some w else yylval p, yyin := rest,
        yyout := yyout p @ unknown_messages us\<rparr>) q"
      using token_shift [OF assms(1) us(2) n(1), of a alloc] n(2) by auto
    have "answers alloc L_newstate q (sql_after ks (if k = IDENTIFIER then ns @ [w] else ns) (lexemes rest))"
      using assms(5) [OF q(2,3) _ q(4)] q(5) assms(1) by (simp add: same_data_def waiting_def)
    from answers_step [OF q(1) _ _ this, of "unknown_messages us"] show ?thesis
      using q(5) True
      by (simp add: us(1) sql_after_def sql_reference_unknowns same_data_def split_def Let_def)
  next
    case False
    then show ?thesis
      using token_error [OF assms(1) us(2) n(1) _ assms(2), of alloc] n(2)
      by (simp add: us(1) answers_def sql_after_def sql_reference_unknowns)
  qed
qed

section \<open>The run from each state\<close>

lemma state2_answers:
  assumes "waiting p" and "yystate p = 2"
  shows "answers alloc L_backup p (sql_reference [] ns (lexemes (yyin p)))"
proof -
  have e: "yyexpects (yystate p) YYEOF 4"
    using yyexpects_states(6) assms(2) by simp
  have n7: "yystate p \<noteq> 7"
    using assms(2) by simp
  from yylex_lexemes [of "yyin p" "yylval p"] show ?thesis
  proof
    assume "\<exists>us. lexemes (yyin p) = map Unknown us \<and>
      yylex (yyin p) (yylval p) = (token_code YYEOF, yylval p, [], unknown_messages us)"
    then obtain us where us: "lexemes (yyin p) = map Unknown us"
      "yylex (yyin p) (yylval p) = (token_code YYEOF, yylval p, [], unknown_messages us)" by blast
    obtain n where n: "YYTRANSLATE (token_code YYEOF) = Some n"
      "yyshift (yystate p) n = (if YYEOF = YYEOF then Some 4 else None)"
      by (rule yyexpects_shift [OF e insertI1])
    obtain q where q: "yyrun alloc (Some (L_backup, p)) = yyrun alloc (Some (L_newstate, q))"
      "yytyped L_newstate q" "yystate q = 4"
      "same_data (p\<lparr>yylval := yylval p, yyin := [], yyout := yyout p @ unknown_messages us\<rparr>) q"
      by (rule token_shift [OF assms(1) us(2) n(1), of 4 alloc]) (use n(2) in simp_all)
    obtain r where "yytyped (if yystate q = YYFINAL then L_accept else L_backup) r" "same_data q r"
      "yyrun alloc (Some (L_newstate, q)) =
        yyrun alloc (Some (if yystate q = YYFINAL then L_accept else L_backup, r))"
      by (rule newstate_run [OF q(2), of alloc])
    then have r: "yytyped L_accept r" "same_data q r"
      "yyrun alloc (Some (L_newstate, q)) = yyrun alloc (Some (L_accept, r))"
      using q(3) by simp_all
    have "answers alloc L_accept r ([], 0)"
      using accept_ends [OF r(1), of alloc] by (simp add: answers_def)
    from answers_step [OF q(1) [unfolded r(3)] _ _ this, of "unknown_messages us"] show ?thesis
      using q(4) r(2) sql_reference_unknowns [of "[]" ns us "[]"] us(1) by (simp add: same_data_def)
  next
    assume "\<exists>us k w rest. lexemes (yyin p) = map Unknown us @ Token k w # lexemes rest \<and>
      yylex (yyin p) (yylval p) =
        (token_code k, if k = IDENTIFIER then Some w else yylval p, rest, unknown_messages us)"
    then obtain us k w rest where us: "lexemes (yyin p) = map Unknown us @ Token k w # lexemes rest"
      "yylex (yyin p) (yylval p) =
        (token_code k, if k = IDENTIFIER then Some w else yylval p, rest, unknown_messages us)" by blast
    have k: "k \<in> scanned_kinds"
      using lexemes_kinds [of k w "yyin p"] us(1) by simp
    then obtain n where "YYTRANSLATE (token_code k) = Some n"
      "yyshift (yystate p) n = (if k = YYEOF then Some 4 else None)"
      by (rule yyexpects_shift [OF e insertI2])
    moreover have "k \<noteq> YYEOF"
      using k by (auto simp: scanned_kinds_def)
    ultimately have n: "YYTRANSLATE (token_code k) = Some n" "yyshift (yystate p) n = None"
      by simp_all
    show ?thesis
      using token_error [OF assms(1) us(2) n n7, of alloc]
      by (simp add: us(1) answers_def sql_reference_unknowns)
  qed
qed

lemma waitingI:
  "yytyped L_backup q \<Longrightarrow> same_data p q \<Longrightarrow> yychar p = token_code YYEMPTY \<Longrightarrow> waiting q"
  by (simp add: waiting_def same_data_def)

lemma state7_new:
  assumes "yytyped L_newstate p" and "yystate p = 7" and "yychar p = token_code YYEMPTY"
    and "yyvs p = [v0, Some t, v2, Some c, v4, v5]"
  shows "answers alloc L_newstate p (sql_after [] [c, t] (lexemes (yyin p)))"
proof (rule newstate_answers [OF assms(1)])
  fix q assume q: "yytyped L_backup q" "same_data p q" "yystate q = yystate p" "yyvs q = yyvs p"
  obtain r where r: "yyrun alloc (Some (L_backup, q)) = yyrun alloc (Some (L_newstate, r))"
    "yytyped L_newstate r" "yystate r = 2" "same_data (q\<lparr>yyout := yyout q @ valid_lines [c, t]\<rparr>) r"
    using reduce_run [OF q(1), of v0 t v2 c v4 v5 alloc] q(3,4) assms(2,4) by auto
  have "answers alloc L_newstate r (sql_reference [] [c, t] (lexemes (yyin r)))"
  proof (rule newstate_answers [OF r(2)])
    fix r' assume r': "yytyped L_backup r'" "same_data r r'" "yystate r' = yystate r"
    have "waiting r'"
      using r' r(4) q(2) assms(3) by (simp add: waiting_def same_data_def)
    then show "answers alloc L_backup r' (sql_reference [] [c, t] (lexemes (yyin r)))"
      using state2_answers [of r' alloc "[c, t]"] r'(2,3) r(3) by (simp add: same_data_def)
  qed (simp add: r(3))
  from answers_step [OF r(1) _ _ this, of "valid_lines [c, t]"]
  show "answers alloc L_backup q (sql_after [] [c, t] (lexemes (yyin p)))"
    using r(4) q(2) by (simp add: sql_after_def same_data_def)
qed (simp add: assms(2))

lemma expect_new:
  assumes "yytyped L_newstate p" and "yystate p \<notin> {4, 7}" and "yychar p = token_code YYEMPTY"
    and "yyexpects (yystate p) k a" and "k \<in> scanned_kinds"
    and "\<And>q w v. yytyped L_newstate q \<Longrightarrow> yystate q = a \<Longrightarrow> yychar q = token_code YYEMPTY \<Longrightarrow>
      yyvs q = v # yyvs p \<Longrightarrow> (k = IDENTIFIER \<Longrightarrow> v = Some w) \<Longrightarrow>
      answers alloc L_newstate q (sql_after ks (if k = IDENTIFIER then ns @ [w] else ns) (lexemes (yyin q)))"
  shows "answers alloc L_newstate p (sql_after (k # ks) ns (lexemes (yyin p)))"
proof (rule newstate_answers [OF assms(1)])
  fix q assume q: "yytyped L_backup q" "same_data p q" "yystate q = yystate p" "yyvs q = yyvs p"
  have "answers alloc L_backup q (sql_after (k # ks) ns (lexemes (yyin q)))"
  proof (rule expect_answers [OF waitingI [OF q(1,2) assms(3)]])
    fix r w assume "yytyped L_newstate r" "yystate r = a" "yychar r = token_code YYEMPTY"
      "yyvs r = (if k = IDENTIFIER then Some w else yylval q) # yyvs q"
    then show "answers alloc L_newstate r
        (sql_after ks (if k = IDENTIFIER then ns @ [w] else ns) (lexemes (yyin r)))"
      using assms(6) [of r "if k = IDENTIFIER then Some w else yylval q" w] q(4) by simp
  qed (use assms(2,4,5) q(3) in simp_all)
  then show "answers alloc L_backup q (sql_after (k # ks) ns (lexemes (yyin p)))"
    using q(2) by (simp add: same_data_def)
qed (use assms(2) in simp)

lemma scanned_kinds [simp]:
  "SELECT \<in> scanned_kinds" "FROM \<in> scanned_kinds" "SEMICOLON \<in> scanned_kinds" "IDENTIFIER \<in> scanned_kinds"
  by (simp_all add: scanned_kinds_def)

lemma state6_new:
  assumes "yytyped L_newstate p" and "yystate p = 6" and "yychar p = token_code YYEMPTY"
    and "yyvs p = [Some t, v2, Some c, v4, v5]"
  shows "answers alloc L_newstate p (sql_after [SEMICOLON] [c, t] (lexemes (yyin p)))"
  by (rule expect_new [OF assms(1) _ assms(3), where a = 7])
    (use assms yyexpects_states state7_new in \<open>auto simp del: yytyped.simps\<close>)

lemma state5_new:
  assumes "yytyped L_newstate p" and "yystate p = 5" and "yychar p = token_code YYEMPTY"
    and "yyvs p = [v2, Some c, v4, v5]"
  shows "answers alloc L_newstate p (sql_after [IDENTIFIER, SEMICOLON] [c] (lexemes (yyin p)))"
  by (rule expect_new [OF assms(1) _ assms(3), where a = 6])
    (use assms yyexpects_states state6_new in \<open>auto simp del: yytyped.simps\<close>)

lemma state3_new:
  assumes "yytyped L_newstate p" and "yystate p = 3" and "yychar p = token_code YYEMPTY"
    and "yyvs p = [Some c, v4, v5]"
  shows "answers alloc L_newstate p (sql_after [FROM, IDENTIFIER, SEMICOLON] [c] (lexemes (yyin p)))"
  by (rule expect_new [OF assms(1) _ assms(3), where a = 5])
    (use assms yyexpects_states state5_new in \<open>auto simp del: yytyped.simps\<close>)

lemma state1_new:
  assumes "yytyped L_newstate p" and "yystate p = 1" and "yychar p = token_code YYEMPTY"
    and "yyvs p = [v4, v5]"
  shows "answers alloc L_newstate p (sql_after [IDENTIFIER, FROM, IDENTIFIER, SEMICOLON] [] (lexemes (yyin p)))"
  by (rule expect_new [OF assms(1) _ assms(3), where a = 3])
    (use assms yyexpects_states state3_new in \<open>auto simp del: yytyped.simps\<close>)

end
