(* ===== verification/Sql_Properties.thy ===== *)
theory Sql_Properties
  imports Sql_Correct
begin

text \<open>
  The properties of \<^verbatim>\<open>simple-parsing/\<close>: the parser returns on every input, agrees with a
  parser written by hand, and accepts the sentences of \<^verbatim>\<open>parser.y\<close>; a query that is printed
  is parsed back; characters that the scanner does not know count as blanks.
\<close>

section \<open>The whole run\<close>

lemma yyparse_answers:
  obtains p where "yyparse alloc debug input = Some (Some (L_done, p))"
    and "yyout p = fst (sql_reference query_tokens [] (lexemes input))"
    and "yyresult p = snd (sql_reference query_tokens [] (lexemes input))"
    and "yynerrs p = yyresult p"
proof -
  let ?p = "yyparse_start debug input"
  have f: "yystate ?p = 0" "yychar ?p = - 2" "yyvs ?p = [None]" "yyin ?p = input" "yyout ?p = []"
    "yynerrs ?p = 0" "yyss ?p = [0]" "yystacksize ?p = 200" "yylval ?p = None"
    by (simp_all add: yyparse_start_def)
  obtain q where q: "yystep alloc L_setstate ?p = Some (L_backup, q)" "same_data ?p q"
    "yystate q = 0" "yyvs q = [None]"
    by (simp add: yysetstate_def f same_data_def)
  have "yytyped L_backup q"
    using yystep_sound [OF yyparse_start_typed [of debug input], of alloc] q(1)
    by (auto simp: sound_step_def simp del: yystep.simps yytyped.simps)
  then have w: "waiting q"
    using q(2) f(2) by (simp add: waiting_def same_data_def)
  have "answers alloc L_backup q (sql_after query_tokens [] (lexemes (yyin q)))"
    unfolding query_tokens_def
  proof (rule expect_answers [OF w])
    show "yyexpects (yystate q) SELECT 1"
      using yyexpects_states(1) q(3) by simp
    fix r w assume r: "yytyped L_newstate r" "yystate r = 1" "yychar r = token_code YYEMPTY"
      "yyvs r = (if SELECT = IDENTIFIER then Some w else yylval q) # yyvs q"
    show "answers alloc L_newstate r (sql_after [IDENTIFIER, FROM, IDENTIFIER, SEMICOLON]
        (if SELECT = IDENTIFIER then [] @ [w] else []) (lexemes (yyin r)))"
      using state1_new [OF r(1-3), of "yylval q" None alloc] r(4) q(4) by simp
  qed (simp_all add: q(3))
  then show thesis
    using that q(2) f yyrun_step [OF q(1)]
    by (auto simp: answers_def run_ends_def yyparse_def sql_after_def query_tokens_def same_data_def)
qed

lemma sql_reference_result: "snd (sql_reference ks ns xs) \<in> {0, 1}"
  by (induction ks ns xs rule: sql_reference.induct) (auto simp: Let_def split: prod.splits)

lemma yyparse_typed:
  assumes "yyparse alloc debug input = Some (Some (l, p))"
  shows "yytyped l p"
  using yy.run_typed [OF yyparse_start_typed] assms
  by (fastforce simp: yyparse_def yyrun_def yyrunning_def [abs_def] yynext_def [abs_def])

text \<open>
  C21: \<^verbatim>\<open>yyparse\<close> returns on every input, with debug output or without and whatever \<^verbatim>\<open>malloc\<close>
  does: it never runs for ever, never has undefined behaviour and never runs out of memory.
  The result is 0 or 1, it is the number of errors counted, and the stacks are empty.
\<close>

theorem parser_returns:
  "\<exists>p. yyparse alloc debug input = Some (Some (L_done, p)) \<and> yyresult p \<in> {0, 1} \<and>
     yynerrs p = yyresult p \<and> yyss p = [0] \<and> \<not> yyheap p"
proof -
  obtain p where p: "yyparse alloc debug input = Some (Some (L_done, p))"
    "yyresult p = snd (sql_reference query_tokens [] (lexemes input))" "yynerrs p = yyresult p"
    by (rule yyparse_answers)
  have "yytyped L_done p"
    by (rule yyparse_typed [OF p(1)])
  then show ?thesis
    using p sql_reference_result [of query_tokens "[]" "lexemes input"] by (auto simp: steady_def)
qed

lemma parser_reference:
  "\<exists>p. yyparse alloc debug input = Some (Some (L_done, p)) \<and>
     (yyout p, yyresult p) = sql_reference query_tokens [] (lexemes input)"
  by (rule yyparse_answers [of alloc debug input]) auto

text \<open>
  C4: the parser driven by the tables prints what the parser written by hand prints on the
  lexemes of the input, in the same order, and returns the same result; debug output and
  the memory available make no difference.
\<close>

theorem parser_follows_reference:
  "\<exists>p q. yyparse alloc debug input = Some (Some (L_done, p)) \<and>
     yyparse alloc' debug' input = Some (Some (L_done, q)) \<and>
     (yyout p, yyresult p) = sql_reference query_tokens [] (lexemes input) \<and>
     yyout q = yyout p \<and> yyresult q = yyresult p"
  using parser_reference [of alloc debug input] parser_reference [of alloc' debug' input]
  by (metis prod.inject)

section \<open>The grammar\<close>

datatype nonterm = Accept | Query
datatype gsymbol = T yytokentype | NT nonterm

definition productions :: "(nonterm \<times> gsymbol list) list" where
  "productions =
     [(Accept, [NT Query, T YYEOF]),
      (Query, [T SELECT, T IDENTIFIER, T FROM, T IDENTIFIER, T SEMICOLON])]"

inductive derives :: "gsymbol list \<Rightarrow> gsymbol list \<Rightarrow> bool" where
  "(A, rhs) \<in> set productions \<Longrightarrow> derives (u @ NT A # v) (u @ rhs @ v)"

inductive_cases derivesE: "derives x y"

definition sentence :: "yytokentype list \<Rightarrow> bool" where
  "sentence w \<longleftrightarrow> derives\<^sup>*\<^sup>* [NT Accept] (map T (w @ [YYEOF]))"

lemma derived_forms:
  "derives\<^sup>*\<^sup>* [NT Accept] x \<Longrightarrow>
    x \<in> {[NT Accept], [NT Query, T YYEOF], map T query_tokens @ [T YYEOF]}"
proof (induction rule: rtranclp_induct)
  case (step x y)
  then show ?case
    by (elim derivesE) (auto simp: productions_def query_tokens_def Cons_eq_append_conv append_eq_Cons_conv)
qed simp

lemma sentence_iff: "sentence w \<longleftrightarrow> w = query_tokens"
proof
  assume "sentence w"
  then have "map T (w @ [YYEOF]) \<in> {[NT Accept], [NT Query, T YYEOF], map T query_tokens @ [T YYEOF]}"
    unfolding sentence_def by (rule derived_forms)
  then show "w = query_tokens"
    by (auto simp: query_tokens_def map_eq_Cons_conv append_eq_Cons_conv)
next
  assume w: "w = query_tokens"
  have "derives [NT Accept] [NT Query, T YYEOF]"
    using derives.intros [of Accept "[NT Query, T YYEOF]" "[]" "[]"] by (simp add: productions_def)
  moreover have "derives [NT Query, T YYEOF] (map T query_tokens @ [T YYEOF])"
    using derives.intros [of Query "map T query_tokens" "[]" "[T YYEOF]"]
    by (simp add: productions_def query_tokens_def)
  ultimately show "sentence w"
    by (auto simp: sentence_def w)
qed

primrec token_kinds :: "lexeme list \<Rightarrow> yytokentype list" where
  "token_kinds [] = []"
| "token_kinds (x # xs) = (case x of Token k w \<Rightarrow> [k] | Unknown c \<Rightarrow> []) @ token_kinds xs"

lemma sql_reference_accepts: "snd (sql_reference ks ns xs) = 0 \<longleftrightarrow> token_kinds xs = ks"
  by (induction ks ns xs rule: sql_reference.induct) (auto simp: Let_def split: prod.splits)

text \<open>
  The grammar symbols are numbered as in the tables: \<^verbatim>\<open>yyr1\<close> and \<^verbatim>\<open>yyr2\<close> hold the left-hand
  sides and lengths of the rules, and the states below each right-hand side spell it.
\<close>

primrec grammar_symbol :: "gsymbol \<Rightarrow> int option" where
  "grammar_symbol (T k) = YYTRANSLATE (token_code k)"
| "grammar_symbol (NT A) = Some (symbol_code (case A of Accept \<Rightarrow> S_YYACCEPT | Query \<Rightarrow> S_query))"

lemma tables_encode_grammar:
  "map (\<lambda>(A, rhs). (grammar_symbol (NT A), Some (int (length rhs)))) productions =
     map (\<lambda>r. (read_table yyr1 r, read_table yyr2 r)) [1, 2]"
  "map (\<lambda>(A, rhs). map grammar_symbol rhs) productions =
     map (\<lambda>q. map YY_ACCESSING_SYMBOL (tl (rev (the (stack_type q))))) [4, 7]"
  by code_simp+

text \<open>
  C3: the parser accepts exactly the sentences of the grammar: the result is 0 when the kinds
  of the tokens of the input are derived from the start symbol, and 1 when they are not.
\<close>

theorem parser_accepts_grammar:
  "\<exists>p. yyparse alloc debug input = Some (Some (L_done, p)) \<and>
     yyresult p = (if sentence (token_kinds (lexemes input)) then 0 else 1)"
proof -
  obtain p where "yyparse alloc debug input = Some (Some (L_done, p))"
    "yyresult p = snd (sql_reference query_tokens [] (lexemes input))"
    by (rule yyparse_answers)
  then show ?thesis
    using sql_reference_accepts [of query_tokens "[]" "lexemes input"]
      sql_reference_result [of query_tokens "[]" "lexemes input"] by (auto simp: sentence_iff)
qed

section \<open>Types\<close>

text \<open>
  C10: every configuration that the parser reaches is typed: unless it has returned, its
  next label is defined (no read outside a table or a stack, no print of a pointer that was
  not set), at most six of the 200 cells of the stacks are used, and they are never extended.
\<close>

theorem parser_type_safe:
  "yyreach alloc debug input l p \<Longrightarrow>
     yytyped l p \<and> (l \<noteq> L_done \<longrightarrow> yystep alloc l p \<noteq> None) \<and>
     length (yyss p) \<le> 6 \<and> yystacksize p = YYINITDEPTH"
proof -
  assume "yyreach alloc debug input l p"
  then have t: "yytyped l p"
    by (rule yyreach_typed)
  moreover have "l \<noteq> L_done \<longrightarrow> yystep alloc l p \<noteq> None"
    using yy.progress [OF t] by blast
  moreover have "steady p"
    using t by (cases l) simp_all
  ultimately show ?thesis
    using yytyped_depth [OF t] by (simp add: steady_def)
qed

lemma parser_type_safe_witness:
  "yystep (\<lambda>_. False) L_setstate (yyparse_start True ''SELECT'') \<noteq> None"
  using parser_type_safe [OF yyreach.intros(1) [of "\<lambda>_. False" True "''SELECT''"]] by simp

section \<open>Words and queries\<close>

text \<open>
  C32: a word is read as a whole, a keyword only when all of it is \<^verbatim>\<open>SELECT\<close> or \<^verbatim>\<open>FROM\<close>: the
  scanner returns the kind of the longest run of word characters and leaves the rest.
\<close>

theorem scanner_reads_words:
  "ident_start c \<Longrightarrow>
     yylex (c # s) v =
       (let w = c # takeWhile ident_char s;
            k = (if w = ''SELECT'' then SELECT else if w = ''FROM'' then FROM else IDENTIFIER)
        in (token_code k, if k = IDENTIFIER then Some w else v, dropWhile ident_char s, []))"
  using flex_match_word [of c s]
  by (simp add: yylex_eq Let_def word_rule_def dropWhile_eq_drop takeWhile_eq_take [symmetric])

lemma scanner_reads_words_witness:
  "yylex ''SELECTED x'' None = (261, Some ''SELECTED'', '' x'', [])"
  using scanner_reads_words [of "CHR ''S''" "''ELECTED x''" None]
  by (simp add: ident_start_def ident_char_def in_range_def)

lemma lexemes_prefix_word:
  assumes "rule_matches R_identifier w" and "s = [] \<or> \<not> ident_char (hd s)"
  shows "lexemes (w @ s) =
    Token (if w = ''SELECT'' then SELECT else if w = ''FROM'' then FROM else IDENTIFIER) w # lexemes s"
proof -
  obtain c cs where w: "w = c # cs" "ident_start c" "list_all ident_char cs"
    using assms(1) by (cases w) auto
  have t: "takeWhile ident_char (cs @ s) = cs" "dropWhile ident_char (cs @ s) = s"
    using assms(2) w(3) by (cases s; simp add: list_all_iff takeWhile_append2 dropWhile_append2)+
  show ?thesis
    using lexemes_word [OF w(2), of "cs @ s"] unfolding t w(1) append_Cons .
qed

lemma blank_start: "list_all blank w \<Longrightarrow> w \<noteq> [] \<Longrightarrow> \<not> ident_char (hd (w @ s))"
  using ident_not_blank by (cases w) auto

definition is_name :: "string \<Rightarrow> bool" where
  "is_name w \<longleftrightarrow> rule_matches R_identifier w \<and> w \<noteq> ''SELECT'' \<and> w \<noteq> ''FROM''"

lemma lexemes_name:
  "is_name w \<Longrightarrow> s = [] \<or> \<not> ident_char (hd s) \<Longrightarrow> lexemes (w @ s) = Token IDENTIFIER w # lexemes s"
  using lexemes_prefix_word [of w s] by (simp add: is_name_def)

lemma lexemes_keywords:
  assumes "s = [] \<or> \<not> ident_char (hd s)"
  shows "lexemes (''SELECT'' @ s) = Token SELECT ''SELECT'' # lexemes s"
    and "lexemes (''FROM'' @ s) = Token FROM ''FROM'' # lexemes s"
  using lexemes_prefix_word [OF keywords_are_identifiers(1) assms, of "''SELECT''"]
    lexemes_prefix_word [OF keywords_are_identifiers(2) assms, of "''FROM''"] by simp_all

text \<open>
  C11: a query for two names that are no keywords, with any white space between its words
  (and optional white space before the semicolon, in front and at the end), is parsed back:
  the names are printed as column and table, nothing else is, and the result is 0.
\<close>

theorem query_roundtrip:
  assumes "is_name column" and "is_name table"
    and "\<forall>w \<in> {w0, w1, w2, w3, w4, w5}. list_all blank w" and "[] \<notin> {w1, w2, w3}"
  shows "\<exists>p. yyparse alloc debug
      (w0 @ ''SELECT'' @ w1 @ column @ w2 @ ''FROM'' @ w3 @ table @ w4 @ '';'' @ w5) =
        Some (Some (L_done, p)) \<and>
    yyout p = [''SQL is Valid!'' @ [NL], ''Column = '' @ column @ [NL], ''Table = '' @ table @ [NL]] \<and>
    yyresult p = 0"
proof -
  let ?behind = "w4 @ '';'' @ w5"
  have w: "list_all blank w0" "list_all blank w1" "list_all blank w2" "list_all blank w3"
    "list_all blank w4" "list_all blank w5" "w1 \<noteq> []" "w2 \<noteq> []" "w3 \<noteq> []"
    using assms(3,4) by auto
  have "\<not> ident_char (hd ?behind)"
    using w(5) blank_start by (cases "w4 = []") auto
  moreover have "lexemes ?behind = [Token SEMICOLON '';'']"
    using w(5) lexemes_blanks [OF w(6), of "[]"] by (simp add: lexemes_single)
  ultimately have e1: "lexemes (table @ ?behind) = [Token IDENTIFIER table, Token SEMICOLON '';'']"
    using lexemes_name [OF assms(2), of ?behind] by simp
  have e2: "lexemes (''FROM'' @ w3 @ table @ ?behind) = Token FROM ''FROM'' # lexemes (table @ ?behind)"
    using lexemes_keywords(2) [OF disjI2, OF blank_start [OF w(4,9)]] w(4) by simp
  have e3: "lexemes (column @ w2 @ ''FROM'' @ w3 @ table @ ?behind) =
      Token IDENTIFIER column # lexemes (''FROM'' @ w3 @ table @ ?behind)"
    using lexemes_name [OF assms(1) disjI2, OF blank_start [OF w(3,8)]] w(3) by simp
  have "lexemes (''SELECT'' @ w1 @ column @ w2 @ ''FROM'' @ w3 @ table @ ?behind) =
      Token SELECT ''SELECT'' # lexemes (column @ w2 @ ''FROM'' @ w3 @ table @ ?behind)"
    using lexemes_keywords(1) [OF disjI2, OF blank_start [OF w(2,7)]] w(2) by simp
  then have "lexemes (w0 @ ''SELECT'' @ w1 @ column @ w2 @ ''FROM'' @ w3 @ table @ ?behind) =
      [Token SELECT ''SELECT'', Token IDENTIFIER column, Token FROM ''FROM'', Token IDENTIFIER table,
       Token SEMICOLON '';'']"
    unfolding lexemes_blanks [OF w(1)] e3 e2 e1 .
  then show ?thesis
    using parser_reference [of alloc debug
        "w0 @ ''SELECT'' @ w1 @ column @ w2 @ ''FROM'' @ w3 @ table @ ?behind"]
    by (auto simp: query_tokens_def valid_lines_def)
qed

lemma query_roundtrip_witness:
  "\<exists>p. yyparse (\<lambda>_. True) False ''SELECT id  FROM t_1;'' = Some (Some (L_done, p)) \<and>
    yyout p = [''SQL is Valid!'' @ [NL], ''Column = '' @ ''id'' @ [NL], ''Table = '' @ ''t_1'' @ [NL]] \<and>
    yyresult p = 0"
  using query_roundtrip [of "''id''" "''t_1''" "[]" "'' ''" "''  ''" "'' ''" "[]" "[]"
      "\<lambda>_. True" False]
  by (simp add: is_name_def ident_start_def ident_char_def in_range_def blank_def)

section \<open>Characters that no rule knows\<close>

text \<open>Characters that are part of no token and no white space, and their replacement by a blank.\<close>

definition foreign :: "char \<Rightarrow> bool" where
  "foreign c \<longleftrightarrow> \<not> blank c \<and> \<not> ident_char c \<and> c \<noteq> CHR '';''"

definition blank_foreign :: "string \<Rightarrow> string" where
  "blank_foreign s = map (\<lambda>c. if foreign c then SPC else c) s"

definition tokens_of :: "lexeme list \<Rightarrow> lexeme list" where
  "tokens_of xs = filter (\<lambda>x. case x of Token k w \<Rightarrow> True | Unknown c \<Rightarrow> False) xs"

lemma lexemes_skip_blank: "blank c \<Longrightarrow> lexemes (c # s) = lexemes s"
  by (simp add: lexemes_blank)

lemma blank_foreign_word:
  "takeWhile ident_char (blank_foreign s) = takeWhile ident_char s"
  "dropWhile ident_char (blank_foreign s) = blank_foreign (dropWhile ident_char s)"
proof -
  have "\<not> ident_char SPC"
    using ident_not_blank by (auto simp: blank_def)
  then show "takeWhile ident_char (blank_foreign s) = takeWhile ident_char s"
    "dropWhile ident_char (blank_foreign s) = blank_foreign (dropWhile ident_char s)"
    by (induction s) (auto simp: blank_foreign_def foreign_def)
qed

lemma tokens_blank_foreign: "tokens_of (lexemes (blank_foreign s)) = tokens_of (lexemes s)"
proof (induction "length s" arbitrary: s rule: less_induct)
  case less
  show ?case
  proof (cases s)
    case (Cons c cs)
    have IH: "tokens_of (lexemes (blank_foreign cs)) = tokens_of (lexemes cs)"
      "tokens_of (lexemes (blank_foreign (dropWhile ident_char cs))) = tokens_of (lexemes (dropWhile ident_char cs))"
      using less.hyps Cons by (simp_all add: le_imp_less_Suc length_dropWhile_le)
    have bc: "blank_foreign (c # cs) = (if foreign c then SPC else c) # blank_foreign cs"
      by (simp add: blank_foreign_def)
    consider "blank c" | "ident_start c" | "foreign c" | "\<not> blank c" "\<not> ident_start c" "\<not> foreign c"
      by blast
    then show ?thesis
    proof cases
      case 1
      then show ?thesis
        using IH(1) by (simp add: Cons bc foreign_def lexemes_skip_blank)
    next
      case 2
      then have "\<not> foreign c" by (simp add: foreign_def ident_char_def)
      then show ?thesis
        using IH(2) 2 by (simp add: Cons bc lexemes_word blank_foreign_word tokens_of_def)
    next
      case 3
      then have "\<not> ident_start c" "c \<noteq> CHR '';''" "\<not> blank c" "blank SPC"
        by (auto simp: foreign_def ident_char_def blank_def)
      then show ?thesis
        using IH(1) 3 by (simp add: Cons bc lexemes_skip_blank lexemes_single tokens_of_def)
    next
      case 4
      then show ?thesis
        using IH(1) by (simp add: Cons bc lexemes_single tokens_of_def)
    qed
  qed (simp add: blank_foreign_def)
qed

definition report_lines :: "string list \<Rightarrow> string list" where
  "report_lines out = filter (\<lambda>l. take 19 l \<noteq> ''Unknown character: '') out"

lemma sql_reference_tokens:
  "(report_lines (fst (sql_reference ks ns xs)), snd (sql_reference ks ns xs)) =
     sql_reference ks ns (tokens_of xs)"
proof (induction ks ns xs rule: sql_reference.induct)
  case (3 k ks ns k' w xs)
  then show ?case
    by (auto simp: report_lines_def tokens_of_def valid_lines_def Let_def split: prod.splits)
qed (auto simp: report_lines_def tokens_of_def unknown_message_def split: prod.splits)

text \<open>
  a character that no token and no white space contains counts as a blank: the input in
  which all of them are replaced by blanks has the same result, and the same output but for
  the lines that report them.
\<close>

lemma foreign_characters_are_blanks:
  "\<exists>p q. yyparse alloc debug input = Some (Some (L_done, p)) \<and>
     yyparse alloc debug (blank_foreign input) = Some (Some (L_done, q)) \<and>
     yyresult q = yyresult p \<and> report_lines (yyout q) = report_lines (yyout p)"
proof -
  obtain p where p: "yyparse alloc debug input = Some (Some (L_done, p))"
    "(yyout p, yyresult p) = sql_reference query_tokens [] (lexemes input)"
    using parser_reference by blast
  obtain q where q: "yyparse alloc debug (blank_foreign input) = Some (Some (L_done, q))"
    "(yyout q, yyresult q) = sql_reference query_tokens [] (lexemes (blank_foreign input))"
    using parser_reference by blast
  have "(report_lines (yyout q), yyresult q) = (report_lines (yyout p), yyresult p)"
    using sql_reference_tokens [of query_tokens "[]" "lexemes input"]
      sql_reference_tokens [of query_tokens "[]" "lexemes (blank_foreign input)"]
    by (simp flip: p(2) q(2) add: tokens_blank_foreign)
  then show ?thesis
    using p(1) q(1) by auto
qed

section \<open>Errors behind a query\<close>

lemma sql_reference_trailing:
  "token_kinds xs = k # rest \<Longrightarrow> \<exists>out. sql_reference [] ns xs = (out @ [''Syntax Error!'' @ [NL]], 1)"
proof (induction xs)
  case (Cons x xs)
  show ?case
  proof (cases x)
    case (Unknown c)
    then obtain out where "sql_reference [] ns xs = (out @ [''Syntax Error!'' @ [NL]], 1)"
      using Cons by auto
    then show ?thesis
      by (intro exI [of _ "unknown_message [c] # out"]) (simp add: Unknown)
  qed simp
qed simp

lemma sql_reference_too_long:
  "token_kinds xs = ks @ k # rest \<Longrightarrow> ks \<noteq> [] \<Longrightarrow>
    \<exists>pre ns' post. sql_reference ks ns xs =
      (pre @ valid_lines ns' @ post @ [''Syntax Error!'' @ [NL]], 1)"
proof (induction ks ns xs rule: sql_reference.induct)
  case (1 ks ns c xs)
  then obtain pre ns' post where
    "sql_reference ks ns xs = (pre @ valid_lines ns' @ post @ [''Syntax Error!'' @ [NL]], 1)"
    by auto
  then show ?case
    by (intro exI [of _ "unknown_message [c] # pre"] exI [of _ ns'] exI [of _ post]) simp
next
  case (3 kk ks ns k' w xs)
  let ?ns = "if kk = IDENTIFIER then ns @ [w] else ns"
  have kk: "k' = kk" and xs: "token_kinds xs = ks @ k # rest"
    using "3.prems"(1) by simp_all
  show ?case
  proof (cases "ks = []")
    case True
    then obtain out where "sql_reference [] ?ns xs = (out @ [''Syntax Error!'' @ [NL]], 1)"
      using sql_reference_trailing xs by fastforce
    then show ?thesis
      by (intro exI [of _ "[]"] exI [of _ ?ns] exI [of _ out]) (simp add: kk True Let_def)
  next
    case False
    then obtain pre ns' post where
      "sql_reference ks ?ns xs = (pre @ valid_lines ns' @ post @ [''Syntax Error!'' @ [NL]], 1)"
      using "3.IH" [of ?ns] kk xs by auto
    then show ?thesis
      by (intro exI [of _ pre] exI [of _ ns'] exI [of _ post]) (simp add: kk False Let_def)
  qed
qed simp_all

text \<open>
  C39: when tokens follow a query, it is first reported as valid, with its column and table,
  and then the syntax error is reported; \<^verbatim>\<open>main\<close> exits with status 0 all the same.
\<close>

theorem valid_report_before_error:
  "token_kinds (lexemes input) = query_tokens @ k # rest \<Longrightarrow>
    \<exists>p pre ns post. sql_main alloc debug input = Some (Some (0, p)) \<and> yyresult p = 1 \<and>
      yyout p = pre @ valid_lines ns @ post @ [''Syntax Error!'' @ [NL]]"
proof -
  assume "token_kinds (lexemes input) = query_tokens @ k # rest"
  then obtain pre ns post where "sql_reference query_tokens [] (lexemes input) =
      (pre @ valid_lines ns @ post @ [''Syntax Error!'' @ [NL]], 1)"
    using sql_reference_too_long [of "lexemes input" query_tokens k rest "[]"]
    by (auto simp: query_tokens_def)
  then show ?thesis
    using parser_reference [of alloc debug input] by (auto simp: sql_main_def)
qed

lemma valid_report_before_error_witness:
  "\<exists>p pre ns post. sql_main (\<lambda>_. True) False ''SELECT a FROM b; c'' = Some (Some (0, p)) \<and>
    yyresult p = 1 \<and> yyout p = pre @ valid_lines ns @ post @ [''Syntax Error!'' @ [NL]]"
  by (rule valid_report_before_error [where k = IDENTIFIER and rest = "[]"])
    (simp add: lexemes_skip_blank lexemes_word lexemes_single query_tokens_def blank_def
      ident_start_def ident_char_def in_range_def)

end
