(* ===== verification/Spec2Isabelle.thy ===== *)
theory Spec2Isabelle
  imports KV_Shell KV_Tests Chat_Client Http_Response Tcp_Simple Multi_Races Echo_Threads
    Thread_Programs Producer_Consumer Try_Lock_Std Thread_Sums Condition_Wait Recursive_Lock
    Timed_Lock Std_Lock Fork_Join Console_Programs Sql_Properties
begin

text \<open>
  A verification development of the C++ programs of the repository. They are independent
  programs: a key-value store, a parser of queries, a chat room, a web server, two client
  and server pairs, a series of echo servers, exercises on threads and on file streams. Every theory models
  one component, with definitions named after the functions they translate, and ends
  with its properties. This theory gathers them.

  \<^bold>\<open>Shared theories.\<close> \<open>Prelude\<close>: facts on lists, association lists and maps.
  \<open>Cxx_Strings\<close>: the string operations of the standard library that the programs use
  (searching, cutting, C strings, lines, \<^verbatim>\<open>atoi\<close>, decimal numbers, conversions to \<^verbatim>\<open>int\<close> and
  \<^verbatim>\<open>size_t\<close>). \<open>Std_Map\<close>: \<^verbatim>\<open>std::map\<close> as an ascending association list. \<open>Wire\<close>: the memory
  image of a 32-bit integer in both byte orders, \<^verbatim>\<open>htonl\<close>, what \<^verbatim>\<open>recv\<close> returns on a stream
  that the network has cut into chunks (\<open>delivers\<close>: chunks that are joined from whole pieces of
  what was sent, so that no piece is split), and the locale \<open>framing\<close> of
  length-prefixed messages, with three interpretations (\<open>Tcp_Simple\<close>, \<open>Multi_Hub\<close>, \<open>Multi_Client\<close>).

  \<^bold>\<open>Key-value store\<close> (\<^verbatim>\<open>simple-kv-cpp/\<close>). \<open>KV_Interface\<close>: \<^verbatim>\<open>IStorageEngine\<close> as a table of
  operations, \<^verbatim>\<open>KeyValueStore\<close> delegating to it, the abstract map that the documentation
  promises, and the locale \<open>storage_engine\<close> whose laws give the refinement of that map
  once for all engines. \<open>KV_InMemory\<close> and \<open>KV_File\<close> interpret it on
  \<^verbatim>\<open>InMemoryStorageEngine\<close> (with the \<^verbatim>\<open>ScopeLogger\<close> lines) and \<^verbatim>\<open>FileBasedStorageEngine\<close>
  (the text format, loading, saving). \<open>KV_Store\<close>: refinement by both engines, their
  interchangeability (locale \<open>two_engines\<close>), durability over any number of restarts, and
  what the format loses. \<open>KV_Tests\<close>: the test cases of the repository, which pass.
  \<open>KV_Shell\<close>: the interactive shell of \<^verbatim>\<open>tests/developer_test.cpp\<close> over both engines, with
  everything that reaches \<^verbatim>\<open>cout\<close>, the lines of the \<^verbatim>\<open>ScopeLogger\<close>s of the in-memory engine
  included (locale \<open>printing_engine\<close>), which answers as the abstract map does, and what it
  does at the end of its input.

  \<^bold>\<open>Query parser\<close> (\<^verbatim>\<open>simple-parsing/\<close>). \<open>Sql_Scanner\<close>: the rules of \<^verbatim>\<open>lexer.l\<close> under the
  longest match of Flex, \<^verbatim>\<open>yylex\<close>, and the lexemes of an input. \<open>Sql_Tables\<close>: the symbols,
  constants and tables of \<^verbatim>\<open>parser.tab.c\<close>. \<open>Sql_Parser\<close>: \<^verbatim>\<open>yyparse\<close> as a machine with
  one function for each label, its stacks, error recovery and debug output; undefined
  behaviour is \<open>None\<close>. \<open>Typed_Machine\<close>: a locale for machines whose configurations are
  typed (progress, preservation, a measure) and what follows for their runs; \<open>Sql_Types\<close>
  interprets it on the parser. \<open>Sql_Correct\<close>: a parser written by hand, and the table-driven
  one computes the same. \<open>Sql_Properties\<close>: the grammar, and which inputs are accepted,
  what is printed, words, blanks and errors.

  \<^bold>\<open>Chat room\<close> (\<^verbatim>\<open>chatroom-app/\<close>). \<open>Chat_Message\<close>: \<^verbatim>\<open>Message\<close> with its array of 516 bytes,
  faults as values. \<open>Chat_Room\<close>: \<^verbatim>\<open>Session\<close> and \<^verbatim>\<open>Room\<close>, the handlers of the event loop
  and a run of them. \<open>Chat_Broadcast\<close> and \<open>Chat_Stream\<close>: each participant is sent once and
  in order what the others say, the lines of a byte stream however it was cut, the limits
  of the frame, and \<^verbatim>\<open>main\<close>. \<open>Chat_Client\<close>: the client with its input thread and event loop,
  and both ends together.

  \<^bold>\<open>Web server\<close> (\<^verbatim>\<open>http_server/\<close>). \<open>Http_Server\<close>: \<^verbatim>\<open>FileUtils\<close>, \<^verbatim>\<open>RequestHandler\<close>,
  \<^verbatim>\<open>HttpServer\<close>; the file system is a function from paths to contents. \<open>Http_Response\<close>: a
  reader of responses, the round trip through it, which files a path reaches, and what
  every accepted client gets.

  \<^bold>\<open>Sockets\<close> (\<^verbatim>\<open>cpp/socket_programming/\<close>). \<open>Tcp_Simple\<close>: one client and one server, their
  framing and their \<^verbatim>\<open>main\<close> functions in dialog. \<open>Multi_Server\<close>: the handlers of the message
  server and the loop of a client's thread. \<open>Multi_Directory\<close>: the abstract directory of
  sockets and names. \<open>Multi_Hub\<close>: what the thread of a client makes of its stream, however it
  was cut. \<open>Multi_Client\<close>: the client, and both ends together. \<open>Multi_Threads\<close>: the server's
  threads, interrupted between any two \<^verbatim>\<open>send\<close> calls or accesses of a global, since not all
  handlers take the mutex. \<open>Multi_Liveness\<close>: the mutex is given back and every request
  comes to an end. \<open>Multi_Schedules\<close>: a thread that runs alone does what its handler does, and
  that is what the directory says; an invariant of every interleaving. \<open>Multi_Atomic\<close>: the
  phases of a thread and the invariant that relates this to uninterrupted handlers.
  \<open>Multi_Races\<close>: what the mutex gives (from any state at rest, requests under it are atomic
  and free of races) and what happens without it.

  \<^bold>\<open>Echo servers\<close> (\<^verbatim>\<open>socket_prog/\<close>). \<open>Echo_Net\<close>: a world of connections, each a
  descriptor and a number, since closed descriptors are used again; the locale \<open>echo_service\<close>
  of serving one client, what a round over the clients should do, and the step relation
  \<open>net_step\<close> of accepting or serving once.
  \<open>Echo_Servers\<close>: the poll, select, epoll and threaded servers and the four steps.
  \<open>Echo_Rounds\<close>: interpretations of the locale and the agreement of the event loops in one
  iteration. \<open>Echo_Runs\<close>: whole runs, in the locale \<open>event_loop\<close> of servers whose iterations
  are sequences of these steps, with three interpretations: every client gets its stream
  back, and which connections are closed at the end. \<open>Echo_Threads\<close>: the same for the
  interleaved accept loop and threads of the threaded server, and the last step.

  \<^bold>\<open>Threads\<close> (\<^verbatim>\<open>cpp/multi_threading/\<close>). \<open>Threads\<close>: a machine that interleaves instructions,
  and the locale \<open>lock_order\<close> (no deadlock, every run can be completed). \<open>Counters\<close>: the
  locale \<open>guarded_counter\<close>, a sublocale of it, with the invariant of counting under a
  mutex. \<open>Thread_Programs\<close>: the programs and interpretations. \<open>Producer_Consumer\<close>: the
  bounded buffer with its condition variable as a step relation. \<open>Try_Lock_Std\<close>: the
  collecting thread. \<open>Thread_Sums\<close>: loops on 64-bit integers. \<open>Condition_Wait\<close>: waiting on
  a balance, with spurious wake-ups. \<open>Recursive_Lock\<close>, \<open>Timed_Lock\<close>, \<open>Std_Lock\<close>: a recursive
  mutex, an attempt that may be given up, and taking two mutexes without deadlock.
  \<open>Fork_Join\<close>: the locale \<open>fork_join\<close> of programs that start, join, detach or wait for
  threads that print, with four interpretations.

  \<^bold>\<open>Files and console\<close> (\<^verbatim>\<open>cpp/file_management/\<close>, \<^verbatim>\<open>cpp/memory_management/\<close>).
  \<open>File_Streams\<close>: streams with their state flags, the reading loops, and the round trip of a
  person through a binary file. \<open>Console_Programs\<close>: reading numbers and lines from the
  console, an allocated array, an allocated object, and pointers to an \<^verbatim>\<open>int\<close> and a \<^verbatim>\<open>float\<close>.

  \<^bold>\<open>Environment.\<close> What the operating system decides is an input: chunks and errors of
  \<^verbatim>\<open>recv\<close>, results of \<^verbatim>\<open>accept\<close>, addresses that \<^verbatim>\<open>new\<close> returns, readiness, schedules, the visiting order of an
  \<^verbatim>\<open>unordered_map\<close>, the contents of uninitialised memory, whether a file opens. Undefined
  behaviour and exceptions are values (a fault, or \<open>None\<close>). Boost.Asio is not part of the
  repository: its completions are the events of \<open>Chat_Room\<close>.

  \<^bold>\<open>Termination.\<close> Receive loops end by the bytes still to come (\<open>incoming_size\<close>), file loops
  by the bytes left, thread programs by the instructions left, the bounded buffer by a
  weight of its phases, the requests of the message server by a bound on the actions that an
  action can lead to. Loops of the programs that do not end are cut off after a number
  of passes that the caller chooses, and the properties hold for every such number; the
  summing loop, which does not end for one bound, is a partial function, and the run of
  the parser is a \<open>while_option\<close> without a bound: that it returns on every input is proved.

  \<^bold>\<open>Not modelled.\<close> Failing and partial \<^verbatim>\<open>send\<close> calls and \<^verbatim>\<open>SIGPIPE\<close> (the programs ignore
  them), the lifetime of the buffers of asynchronous writes and their order when they overlap, what a data race does to a container
  (that one can happen in the message server is proved), running out of memory (such as a
  failing \<^verbatim>\<open>strdup\<close> in the scanner), timing; the programs in
  Go and Java, and assets; of \<^verbatim>\<open>simple-parsing/\<close> the preprocessor code that chooses
  types and allocation functions, and the automaton that Flex generates (it is not in the
  repository).
\<close>

end
